(* ===== verification/Prelude.thy ===== *)
theory Prelude
  imports Main "HOL-Library.Word"
begin

text \<open>
  Shared vocabulary of the development: the machine integers of the kernel's
  target (64-bit RISC-V), panics as values, the arithmetic checks a debug build
  of Rust performs, array accesses with their bounds checks, and the loop that
  scans an array for its first matching slot, which the kernel writes three
  times (file descriptors, process identifiers, ring descriptors).
\<close>

unbundle bit_operations_syntax

named_theorems panic_simps \<open>evaluation of the result combinators\<close>
named_theorems consts_simps \<open>the numeric constants of the kernel, unfolded\<close>

section \<open>Machine integers\<close>

type_synonym u8 = "8 word"
type_synonym u16 = "16 word"
type_synonym u32 = "32 word"
type_synonym u64 = "64 word"
type_synonym usize = "64 word"

text \<open>Signed integers are the same words, read with \<^const>\<open>sint\<close>.\<close>

type_synonym i32 = "32 word"
type_synonym i64 = "64 word"

section \<open>Panics as values\<close>

text \<open>
  A panic stops the hart for ever (\<open>lib.rs\<close>, \<open>panic\<close> and \<open>abort\<close>), so a panic is
  a result of its own. \<open>Panic\<close> carries the literal text of the \<open>panic!\<close> call; the
  other constructors are the panics the language raises itself. \<open>Recursion\<close> is the result
  of a recursive function whose calls are nested deeper than its bound; the lemmas on such
  a function show which bound is enough.
\<close>

datatype panic =
    Panic string
  | Overflow
  | Bounds
  | Unwrap
  | Unreachable
  | Unimplemented
  | Recursion

type_synonym 'a res = "panic + 'a"

definition rbind :: "'a res \<Rightarrow> ('a \<Rightarrow> 'b res) \<Rightarrow> 'b res" where
  "rbind m f = (case m of Inl p \<Rightarrow> Inl p | Inr x \<Rightarrow> f x)"

lemma rbind_simps [simp, panic_simps]:
  "rbind (Inl p) f = Inl p"
  "rbind (Inr x) f = f x"
  by (simp_all add: rbind_def)

lemma rbind_Inr [simp]: "rbind m Inr = m"
  by (cases m) simp_all

lemma rbind_assoc: "rbind (rbind m f) g = rbind m (\<lambda>x. rbind (f x) g)"
  by (cases m) simp_all

lemma rbind_eq_Inr: "rbind m f = Inr y \<longleftrightarrow> (\<exists>x. m = Inr x \<and> f x = Inr y)"
  by (cases m) simp_all

lemma rbind_InrE [elim!]:
  assumes "rbind m f = Inr y"
  obtains x where "m = Inr x" "f x = Inr y"
  using assms by (auto simp: rbind_eq_Inr)

lemma rbind_cong [fundef_cong]:
  "m = m' \<Longrightarrow> (\<And>x. m' = Inr x \<Longrightarrow> f x = f' x) \<Longrightarrow> rbind m f = rbind m' f'"
  by (cases m') simp_all

definition rif :: "bool \<Rightarrow> panic \<Rightarrow> 'a res \<Rightarrow> 'a res" where
  "rif b p k = (if b then Inl p else k)"

lemma rif_simps [simp, panic_simps]:
  "rif True p k = Inl p"
  "rif False p k = k"
  by (simp_all add: rif_def)

lemma rif_eq_Inr [simp]: "rif b p k = Inr y \<longleftrightarrow> \<not> b \<and> k = Inr y"
  by (simp add: rif_def)

section \<open>Arithmetic of a debug build\<close>

text \<open>
  The Makefile builds the \<open>debug\<close> profile, in which \<open>+\<close>, \<open>-\<close> and \<open>*\<close> panic on
  overflow instead of wrapping around.
\<close>

definition add_chk :: "'a::len word \<Rightarrow> 'a word \<Rightarrow> 'a word res" where
  "add_chk a b = rif (2 ^ LENGTH('a) \<le> unat a + unat b) Overflow (Inr (a + b))"

definition sub_chk :: "'a::len word \<Rightarrow> 'a word \<Rightarrow> 'a word res" where
  "sub_chk a b = rif (a < b) Overflow (Inr (a - b))"

definition mul_chk :: "'a::len word \<Rightarrow> 'a word \<Rightarrow> 'a word res" where
  "mul_chk a b = rif (2 ^ LENGTH('a) \<le> unat a * unat b) Overflow (Inr (a * b))"

lemma add_chk_InrD:
  assumes "add_chk a b = Inr c"
  shows "c = a + b" "unat c = unat a + unat b"
proof -
  from assms have "unat a + unat b < 2 ^ LENGTH('a)" and c: "c = a + b"
    by (auto simp: add_chk_def)
  then show "c = a + b" "unat c = unat a + unat b"
    by (simp_all add: unat_word_ariths)
qed

lemma sub_chk_InrD:
  assumes "sub_chk a b = Inr c"
  shows "c = a - b" "unat c = unat a - unat b" "b \<le> a"
  using assms by (auto simp: sub_chk_def unat_sub not_less)

lemma mul_chk_InrD:
  assumes "mul_chk a b = Inr c"
  shows "c = a * b" "unat c = unat a * unat b"
proof -
  from assms have "unat a * unat b < 2 ^ LENGTH('a)" and c: "c = a * b"
    by (auto simp: mul_chk_def)
  then show "c = a * b" "unat c = unat a * unat b"
    by (simp_all add: unat_word_ariths)
qed

lemma add_chk_ok [simp]:
  fixes a b :: "'a::len word"
  shows "unat a + unat b < 2 ^ LENGTH('a) \<Longrightarrow> add_chk a b = Inr (a + b)"
  by (simp add: add_chk_def)

lemma sub_chk_ok [simp]: "b \<le> a \<Longrightarrow> sub_chk a b = Inr (a - b)"
  by (simp add: sub_chk_def)

lemma mul_chk_ok [simp]:
  fixes a b :: "'a::len word"
  shows "unat a * unat b < 2 ^ LENGTH('a) \<Longrightarrow> mul_chk a b = Inr (a * b)"
  by (simp add: mul_chk_def)

section \<open>Masks and alignment on words\<close>

lemma and_not_mask_push_drop: "(x :: 'a::len word) AND NOT (mask n) = push_bit n (drop_bit n x)"
  by (rule bit_word_eqI) (auto simp: bit_simps)

lemma unat_and_not_mask: "unat ((x :: 'a::len word) AND NOT (mask n)) = unat x - unat x mod 2 ^ n"
proof -
  have "(x AND NOT (mask n)) + take_bit n x = x"
    by (simp add: and_not_mask_push_drop bits_ident)
  then have "x AND NOT (mask n) = x - take_bit n x"
    by (simp add: algebra_simps)
  moreover have "take_bit n x \<le> x"
    by (simp add: word_le_nat_alt unsigned_take_bit_eq)
  ultimately show ?thesis
    by (simp add: unat_sub unsigned_take_bit_eq flip: take_bit_eq_mod)
qed

lemma unat_ucast: "unat (ucast (x :: 'a::len word) :: 'b::len word) = unat x mod 2 ^ LENGTH('b)"
  by transfer (simp add: take_bit_eq_mod nat_mod_distrib nat_power_eq)

lemma unat_ucast_up:
  assumes "LENGTH('a) \<le> LENGTH('b)"
  shows "unat (ucast (x :: 'a::len word) :: 'b::len word) = unat x"
proof -
  have "unat x < 2 ^ LENGTH('a)" by (rule unsigned_less)
  also have "(2 :: nat) ^ LENGTH('a) \<le> 2 ^ LENGTH('b)" by (rule power_increasing) (use assms in simp_all)
  finally show ?thesis unfolding unat_ucast by (rule mod_less)
qed

lemma and_push_one: "(e :: 'a::len word) AND push_bit k 1 = 0 \<longleftrightarrow> \<not> bit e k"
proof -
  have e: "e AND push_bit k 1 = (if bit e k then push_bit k 1 else 0)"
    by (rule bit_word_eqI) (auto simp: bit_simps)
  have "push_bit k (1 :: 'a word) \<noteq> 0" if "bit e k"
    using bit_imp_le_length[OF that] by (simp add: push_bit_eq_mult)
  then show ?thesis unfolding e by simp
qed

lemma shl_mask: "2 ^ n - 1 = (mask n :: 'a::len word)"
  by (simp add: mask_eq_exp_minus_1)

lemma unat_mask_lt: "n < LENGTH('a::len) \<Longrightarrow> unat (mask n :: 'a word) = 2 ^ n - 1"
proof -
  assume "n < LENGTH('a)"
  then have "mask n < (2 :: nat) ^ LENGTH('a)"
    by (simp add: mask_eq_exp_minus_1 less_imp_diff_less)
  then have "unat (of_nat (mask n) :: 'a word) = mask n"
    by (simp add: unat_of_nat)
  then show ?thesis
    by (simp add: of_nat_mask_eq mask_eq_exp_minus_1)
qed

lemma of_nat_usize_eq_0: "n < 2 ^ 64 \<Longrightarrow> (of_nat n :: usize) = 0 \<longleftrightarrow> n = 0"
  by (auto simp: word_of_nat_eq_0_iff dest: dvd_imp_le)

section \<open>Arrays\<close>

text \<open>\<open>xs[i]\<close> and \<open>xs[i] = v\<close> on arrays and slices: the index is checked.\<close>

definition arr_get :: "'a list \<Rightarrow> nat \<Rightarrow> 'a res" where
  "arr_get xs i = rif (length xs \<le> i) Bounds (Inr (xs ! i))"

definition arr_set :: "'a list \<Rightarrow> nat \<Rightarrow> 'a \<Rightarrow> 'a list res" where
  "arr_set xs i v = rif (length xs \<le> i) Bounds (Inr (xs[i := v]))"

lemma arr_get_ok [simp]: "i < length xs \<Longrightarrow> arr_get xs i = Inr (xs ! i)"
  by (simp add: arr_get_def)

lemma arr_set_ok [simp]: "i < length xs \<Longrightarrow> arr_set xs i v = Inr (xs[i := v])"
  by (simp add: arr_set_def)

lemma arr_get_oob [simp]: "length xs \<le> i \<Longrightarrow> arr_get xs i = Inl Bounds"
  by (simp add: arr_get_def)

lemma arr_set_oob [simp]: "length xs \<le> i \<Longrightarrow> arr_set xs i v = Inl Bounds"
  by (simp add: arr_set_def)

lemma arr_get_eq_Inr: "arr_get xs i = Inr y \<longleftrightarrow> i < length xs \<and> y = xs ! i"
  by (auto simp: arr_get_def)

lemma arr_set_eq_Inr: "arr_set xs i v = Inr ys \<longleftrightarrow> i < length xs \<and> ys = xs[i := v]"
  by (auto simp: arr_set_def)

section \<open>Counting loops\<close>

text \<open>\<open>for i in i..i+n { s = f(i, s)? }\<close>\<close>

primrec rfor :: "nat \<Rightarrow> nat \<Rightarrow> (nat \<Rightarrow> 's \<Rightarrow> 's res) \<Rightarrow> 's \<Rightarrow> 's res" where
  "rfor i 0 f s = Inr s"
| "rfor i (Suc n) f s = rbind (f i s) (rfor (Suc i) n f)"

lemma rfor_append: "rfor i (n + k) f s = rbind (rfor i n f s) (rfor (i + n) k f)"
  by (induction n arbitrary: i s) (simp_all add: rbind_assoc cong: rbind_cong)

lemma rfor_invariant:
  assumes "P i s" "\<And>j x. i \<le> j \<Longrightarrow> j < i + n \<Longrightarrow> P j x \<Longrightarrow> \<exists>y. f j x = Inr y \<and> P (Suc j) y"
  shows "\<exists>y. rfor i n f s = Inr y \<and> P (i + n) y"
  using assms
proof (induction n arbitrary: i s)
  case 0
  then show ?case by simp
next
  case (Suc n)
  obtain x where x: "f i s = Inr x" "P (Suc i) x" using Suc.prems by fastforce
  obtain y where "rfor (Suc i) n f x = Inr y \<and> P (Suc i + n) y"
    using Suc.IH[OF x(2)] Suc.prems(2) by fastforce
  then show ?case using x(1) by simp
qed

lemma rfor_result:
  assumes "P i s" "\<And>j x. i \<le> j \<Longrightarrow> j < i + n \<Longrightarrow> P j x \<Longrightarrow> (case f j x of Inl e \<Rightarrow> e \<in> E | Inr y \<Rightarrow> P (Suc j) y)"
  shows "case rfor i n f s of Inl e \<Rightarrow> e \<in> E | Inr y \<Rightarrow> P (i + n) y"
  using assms
proof (induction n arbitrary: i s)
  case 0
  then show ?case by simp
next
  case (Suc n)
  show ?case
  proof (cases "f i s")
    case (Inl e)
    then show ?thesis using Suc.prems(2)[of i s] Suc.prems(1) by simp
  next
    case (Inr y)
    then have "P (Suc i) y" using Suc.prems(2)[of i s] Suc.prems(1) by simp
    then have "case rfor (Suc i) n f y of Inl e \<Rightarrow> e \<in> E | Inr y \<Rightarrow> P (Suc i + n) y"
      using Suc.prems(2) by (intro Suc.IH) simp_all
    then show ?thesis using Inr by (simp only: rfor.simps rbind_simps add_Suc_shift)
  qed
qed

lemma rfor_preserves:
  assumes "rfor i n f s = Inr t" "P i s" "\<And>j x y. i \<le> j \<Longrightarrow> j < i + n \<Longrightarrow> P j x \<Longrightarrow> f j x = Inr y \<Longrightarrow> P (Suc j) y"
  shows "P (i + n) t"
  using assms
proof (induction n arbitrary: i s)
  case 0
  then show ?case by simp
next
  case (Suc n)
  from Suc.prems(1) obtain x where x: "f i s = Inr x" "rfor (Suc i) n f x = Inr t" by auto
  have "P (Suc i) x" using Suc.prems(3)[OF _ _ Suc.prems(2) x(1)] by simp
  from Suc.IH[OF x(2) this] Suc.prems(3) show ?case by fastforce
qed

section \<open>The first matching slot of an array\<close>

text \<open>
  \<open>for i in 0..xs.len() { if p(xs[i]) { return Some(i) } } None\<close>, with the index
  of the first element as an argument.
\<close>

fun first_slot :: "('a \<Rightarrow> bool) \<Rightarrow> nat \<Rightarrow> 'a list \<Rightarrow> nat option" where
  "first_slot p i [] = None"
| "first_slot p i (x # xs) = (if p x then Some i else first_slot p (Suc i) xs)"

lemma first_slot_shift: "first_slot p (Suc i) xs = map_option Suc (first_slot p i xs)"
  by (induction xs arbitrary: i) auto

lemma first_slot_Some_iff:
  "first_slot p 0 xs = Some k \<longleftrightarrow> k < length xs \<and> p (xs ! k) \<and> (\<forall>j<k. \<not> p (xs ! j))"
proof (induction xs arbitrary: k)
  case Nil
  then show ?case by simp
next
  case (Cons x xs)
  show ?case
  proof (cases k)
    case 0
    then show ?thesis by (auto simp: first_slot_shift)
  next
    case (Suc k')
    have "first_slot p 0 (x # xs) = Some k \<longleftrightarrow> \<not> p x \<and> first_slot p 0 xs = Some k'"
      using Suc by (auto simp: first_slot_shift)
    also have "\<dots> \<longleftrightarrow> k < length (x # xs) \<and> p ((x # xs) ! k) \<and> (\<forall>j<k. \<not> p ((x # xs) ! j))"
      using Suc Cons.IH[of k'] by (auto simp: less_Suc_eq_0_disj)
    finally show ?thesis .
  qed
qed

lemma first_slot_None_iff: "first_slot p i xs = None \<longleftrightarrow> (\<forall>x\<in>set xs. \<not> p x)"
  by (induction xs arbitrary: i) auto

end
