(* ===== verification/Symbols.thy ===== *)
theory Symbols
  imports Prelude
begin

text \<open>
  The memory layout of \<open>kernel/src/symbols.rs\<close>: page geometry, the virtual
  addresses of the trampoline and of the trap frame, the limits of the machine,
  and the addresses that the linker provides through \<open>symbols/gen.rs\<close>.
\<close>

definition PAGE_ORDER :: nat where
  "PAGE_ORDER = 12"

definition PAGE_SIZE :: usize where
  "PAGE_SIZE = push_bit PAGE_ORDER 1"

definition MAXVA :: usize where
  "MAXVA = push_bit (9 + 9 + 9 + 12 - 1) 1"

definition TRAMPOLINE_START :: usize where
  "TRAMPOLINE_START = MAXVA - PAGE_SIZE"

definition TRAPFRAME_START :: usize where
  "TRAPFRAME_START = TRAMPOLINE_START - PAGE_SIZE"

definition NCPUS :: nat where
  "NCPUS = 8"

definition NMAXPROCS :: nat where
  "NMAXPROCS = 256"

definition SCHEDULER_INTERVAL :: usize where
  "SCHEDULER_INTERVAL = 1000000"

text \<open>The device windows of the machine, declared next to each driver.\<close>

definition UART_BASE_ADDR :: usize where
  "UART_BASE_ADDR = 0x10000000"

definition VIRTIO_MMIO_BASE :: usize where
  "VIRTIO_MMIO_BASE = 0x10001000"

definition CLINT_BASE :: usize where
  "CLINT_BASE = 0x2000000"

definition PLIC_BASE :: usize where
  "PLIC_BASE = 0x0c000000"

text \<open>
  The linker script's symbols are values the linker chooses: they are fields of a
  record that every definition using them takes as an argument.
\<close>

record linker =
  HEAP_START :: usize
  HEAP_SIZE :: usize
  TEXT_START :: usize
  TEXT_END :: usize
  RODATA_START :: usize
  RODATA_END :: usize
  DATA_START :: usize
  DATA_END :: usize
  BSS_START :: usize
  BSS_END :: usize
  KERNEL_STACK_START :: usize
  KERNEL_STACK_END :: usize
  TRAMPOLINE_TEXT_START :: usize

section \<open>Numerals for the constants\<close>

lemma PAGE_ORDER_num [consts_simps]: "PAGE_ORDER = 12"
  by (simp add: PAGE_ORDER_def)

lemma PAGE_SIZE_num [consts_simps]: "PAGE_SIZE = 4096"
  by (simp add: PAGE_SIZE_def PAGE_ORDER_def)

lemma MAXVA_num [consts_simps]: "MAXVA = 0x4000000000"
  by (simp add: MAXVA_def)

lemma TRAMPOLINE_START_num [consts_simps]: "TRAMPOLINE_START = 0x3ffffff000"
  by (simp add: TRAMPOLINE_START_def MAXVA_num PAGE_SIZE_num)

lemma TRAPFRAME_START_num [consts_simps]: "TRAPFRAME_START = 0x3fffffe000"
  by (simp add: TRAPFRAME_START_def TRAMPOLINE_START_num PAGE_SIZE_num)

lemma unat_PAGE_SIZE [simp]: "unat PAGE_SIZE = 4096"
  by (simp add: PAGE_SIZE_num)

lemma NCPUS_num [consts_simps]: "NCPUS = 8"
  by (simp add: NCPUS_def)

lemma NMAXPROCS_num [consts_simps]: "NMAXPROCS = 256"
  by (simp add: NMAXPROCS_def)

end
