(* ===== verification/Mem.thy ===== *)
theory Mem
  imports Symbols
begin

text \<open>
  The page frame allocator of \<open>kernel/src/mem.rs\<close>. The definitions follow the
  source loop by loop; the abstract allocator they implement is a partial map from
  the first page number of a block to its length in pages, and \<open>alloc_rel\<close> relates the
  two. The locale \<open>frame_source\<close> is what the clients of the allocator (\<open>Box\<close>, the page
  tables, kernel stacks) rely on; it is interpreted on \<open>allocate\<close> and \<open>deallocate\<close>.
\<close>

section \<open>Alignment\<close>

definition align_val :: "usize \<Rightarrow> nat \<Rightarrow> usize res" where
  "align_val val order =
     rif (64 \<le> order) Overflow
       (let o' = push_bit order 1 - 1
        in rbind (add_chk val o') (\<lambda>x. Inr (x AND NOT o')))"

definition align_val_down :: "usize \<Rightarrow> nat \<Rightarrow> usize res" where
  "align_val_down val order =
     rif (64 \<le> order) Overflow (Inr (val AND NOT (push_bit order 1 - 1)))"

definition page_down :: "usize \<Rightarrow> usize res" where
  "page_down val = align_val_down val PAGE_ORDER"

section \<open>The allocator\<close>

definition MAX_PAGE :: nat where
  "MAX_PAGE = 128 * 1024 * 1024 div 2 ^ 12"

record Allocator =
  page_allocated :: "usize list"
  base_addr :: usize

definition Allocator_new :: Allocator where
  "Allocator_new = \<lparr>page_allocated = replicate MAX_PAGE 0, base_addr = 0\<rparr>"

definition offset_addr_of :: "Allocator \<Rightarrow> usize \<Rightarrow> usize res" where
  "offset_addr_of A i = rbind (mul_chk i PAGE_SIZE) (\<lambda>off. add_chk (base_addr A) off)"

definition offset_id_of :: "Allocator \<Rightarrow> usize \<Rightarrow> usize res" where
  "offset_id_of A i = offset_addr_of A i"

definition offset_page_of :: "Allocator \<Rightarrow> usize \<Rightarrow> usize res" where
  "offset_page_of A page = rbind (sub_chk page (base_addr A)) (\<lambda>d. Inr (d div PAGE_SIZE))"

text \<open>
  The two inner loops of \<open>allocate\<close>: is the run of \<open>n\<close> pages from \<open>i\<close> free, and
  mark it. Reading past the array panics, as the bounds check does.
\<close>

primrec run_free :: "usize list \<Rightarrow> nat \<Rightarrow> nat \<Rightarrow> bool res" where
  "run_free pa i 0 = Inr True"
| "run_free pa i (Suc n) =
     rbind (arr_get pa i) (\<lambda>v. if v \<noteq> 0 then Inr False else run_free pa (Suc i) n)"

primrec mark_run :: "usize list \<Rightarrow> nat \<Rightarrow> nat \<Rightarrow> usize \<Rightarrow> usize list res" where
  "mark_run pa i 0 v = Inr pa"
| "mark_run pa i (Suc n) v = rbind (arr_set pa i v) (\<lambda>pa'. mark_run pa' (Suc i) n v)"

text \<open>The outer loop: \<open>k\<close> candidates are left, \<open>i\<close> is the next one.\<close>

primrec scan_pages :: "Allocator \<Rightarrow> nat \<Rightarrow> nat \<Rightarrow> nat \<Rightarrow> (Allocator \<times> usize) res" where
  "scan_pages A n i 0 = Inl (Panic ''no available page'')"
| "scan_pages A n i (Suc k) =
     rbind (arr_get (page_allocated A) i) (\<lambda>v.
       if v = 0 then
         rbind (run_free (page_allocated A) i n) (\<lambda>found.
           if found then
             rbind (mark_run (page_allocated A) i n (of_nat n)) (\<lambda>pa.
             rbind (offset_id_of A (of_nat i)) (\<lambda>p.
               Inr (A\<lparr>page_allocated := pa\<rparr>, p)))
           else scan_pages A n (Suc i) k)
       else scan_pages A n (Suc i) k)"

definition allocate :: "Allocator \<Rightarrow> usize \<Rightarrow> (Allocator \<times> usize) res" where
  "allocate A sz =
     rbind (align_val sz PAGE_ORDER) (\<lambda>s.
       let page_required = s div PAGE_SIZE
       in scan_pages A (unat page_required) 0 MAX_PAGE)"

definition deallocate :: "Allocator \<Rightarrow> usize \<Rightarrow> Allocator res" where
  "deallocate A addr =
     rbind (offset_page_of A addr) (\<lambda>pg.
     rbind (arr_get (page_allocated A) (unat pg)) (\<lambda>page_stride.
     rbind (mark_run (page_allocated A) (unat pg) (unat page_stride) 0) (\<lambda>pa.
       Inr (A\<lparr>page_allocated := pa\<rparr>))))"

text \<open>
  \<open>Allocator::debug\<close> walks the array block by block. Its output is the list of the
  lines it prints; \<open>arr\<close> is the address of the array itself.
\<close>

function debug_loop :: "usize \<Rightarrow> Allocator \<Rightarrow> usize \<Rightarrow> (usize \<times> usize \<times> usize \<times> usize \<times> usize) list res" where
  "debug_loop arr A j =
     rbind (arr_get (page_allocated A) (unat j)) (\<lambda>stride.
       if stride \<noteq> 0 then
         rbind (offset_addr_of A j) (\<lambda>lo.
         rbind (add_chk j stride) (\<lambda>e.
         rbind (offset_addr_of A e) (\<lambda>hi.
         rbind (if unat e = MAX_PAGE then Inr [] else debug_loop arr A e) (\<lambda>lines.
           Inr ((j, arr + 8 * j, lo, hi, stride) # lines)))))
       else
         rbind (add_chk j 1) (\<lambda>e.
           if unat e = MAX_PAGE then Inr [] else debug_loop arr A e))"
  by pat_completeness auto
termination
proof (relation "measure (\<lambda>(arr, A, j). length (page_allocated A) - unat j)", goal_cases)
  case (2 arr A j stride lo e hi)
  then have "unat e = unat j + unat stride" "unat j < length (page_allocated A)"
    by (auto dest: add_chk_InrD(2) simp: arr_get_eq_Inr)
  moreover have "0 < unat stride" using 2 by (simp add: unat_gt_0)
  ultimately show ?case by simp
next
  case (3 arr A j stride e)
  then show ?case by (auto dest: add_chk_InrD(2) simp: arr_get_eq_Inr)
qed simp

declare debug_loop.simps [simp del]

definition debug :: "usize \<Rightarrow> Allocator \<Rightarrow> (usize \<times> usize \<times> usize \<times> usize \<times> usize) list res" where
  "debug arr A = debug_loop arr A 0"

text \<open>
  The global allocator behind \<open>Box\<close>: the alignment of the layout is not consulted.
\<close>

record Layout =
  layout_size :: usize
  layout_align :: usize

definition os_alloc :: "Allocator \<Rightarrow> Layout \<Rightarrow> (Allocator \<times> usize) res" where
  "os_alloc A layout = allocate A (layout_size layout)"

definition os_dealloc :: "Allocator \<Rightarrow> usize \<Rightarrow> Layout \<Rightarrow> Allocator res" where
  "os_dealloc A ptr layout = deallocate A ptr"

definition alloc_error :: "Layout \<Rightarrow> 'a res" where
  "alloc_error l = Inl (Panic ''Allocator failed to allocate {} bytes with {}-byte alignment.'')"

definition alloc_stack :: "Allocator \<Rightarrow> (Allocator \<times> usize) res" where
  "alloc_stack A = rbind (mul_chk PAGE_SIZE 1024) (allocate A)"

text \<open>
  The allocator part of \<open>mem::init\<close>: the base address is the aligned start of the heap
  and every page is marked free.
\<close>

definition init_allocator :: "linker \<Rightarrow> Allocator \<Rightarrow> Allocator res" where
  "init_allocator l A =
     rbind (align_val (HEAP_START l) PAGE_ORDER) (\<lambda>b.
     rbind (mark_run (page_allocated A) 0 MAX_PAGE 0) (\<lambda>pa.
       Inr (A\<lparr>base_addr := b, page_allocated := pa\<rparr>)))"

section \<open>The abstract allocator\<close>

text \<open>
  \<open>B s = Some n\<close>: the \<open>n\<close> pages from page number \<open>s\<close> are one allocated block.
\<close>

definition fits :: "usize list \<Rightarrow> nat \<Rightarrow> nat \<Rightarrow> bool" where
  "fits pa n i \<longleftrightarrow> i + n \<le> length pa \<and> (\<forall>k. i \<le> k \<and> k < i + n \<longrightarrow> pa ! k = 0)"

definition pages_for :: "usize \<Rightarrow> nat" where
  "pages_for sz = (unat sz + 4095) div 4096"

definition covered :: "(nat \<rightharpoonup> nat) \<Rightarrow> nat \<Rightarrow> bool" where
  "covered B k \<longleftrightarrow> (\<exists>s n. B s = Some n \<and> s \<le> k \<and> k < s + n)"

definition room :: "(nat \<rightharpoonup> nat) \<Rightarrow> nat \<Rightarrow> nat \<Rightarrow> bool" where
  "room B n i \<longleftrightarrow> i + n \<le> MAX_PAGE \<and> (\<forall>k. i \<le> k \<and> k < i + n \<longrightarrow> \<not> covered B k)"

definition alloc_rel :: "Allocator \<Rightarrow> (nat \<rightharpoonup> nat) \<Rightarrow> bool" where
  "alloc_rel A B \<longleftrightarrow>
     length (page_allocated A) = MAX_PAGE \<and>
     unat (base_addr A) mod 4096 = 0 \<and> unat (base_addr A) + MAX_PAGE * 4096 < 2 ^ 64 \<and>
     (\<forall>s n. B s = Some n \<longrightarrow> 0 < n \<and> s + n \<le> MAX_PAGE \<and>
        (\<forall>k. s \<le> k \<and> k < s + n \<longrightarrow> page_allocated A ! k = of_nat n)) \<and>
     (\<forall>k<MAX_PAGE. page_allocated A ! k \<noteq> 0 \<longrightarrow> (\<exists>s n. B s = Some n \<and> s \<le> k \<and> k < s + n)) \<and>
     (\<forall>s n s' n'. B s = Some n \<longrightarrow> B s' = Some n' \<longrightarrow> s < s' \<longrightarrow> s + n \<le> s')"

definition page_addr :: "Allocator \<Rightarrow> nat \<Rightarrow> usize" where
  "page_addr A i = base_addr A + of_nat i * 4096"

text \<open>
  The lines \<open>debug\<close> prints for the blocks from page \<open>j\<close> on; the same blocks keyed by
  the address the client holds; the allocator owns exactly these blocks.
\<close>

definition debug_line :: "usize \<Rightarrow> Allocator \<Rightarrow> nat \<Rightarrow> nat \<Rightarrow> usize \<times> usize \<times> usize \<times> usize \<times> usize" where
  "debug_line arr A s n = (of_nat s, arr + 8 * of_nat s, page_addr A s, page_addr A (s + n), of_nat n)"

definition debug_lists :: "usize \<Rightarrow> Allocator \<Rightarrow> (nat \<rightharpoonup> nat) \<Rightarrow> nat \<Rightarrow>
    (usize \<times> usize \<times> usize \<times> usize \<times> usize) list \<Rightarrow> bool" where
  "debug_lists arr A B j lines \<longleftrightarrow>
     set lines = {debug_line arr A s n |s n. B s = Some n \<and> j \<le> s} \<and> sorted_wrt (<) (map fst lines)"

definition block_map :: "Allocator \<Rightarrow> (nat \<rightharpoonup> nat) \<Rightarrow> usize \<rightharpoonup> nat" where
  "block_map A B a =
     (if base_addr A \<le> a \<and> (unat a - unat (base_addr A)) mod 4096 = 0
      then B ((unat a - unat (base_addr A)) div 4096) else None)"

definition owns :: "Allocator \<Rightarrow> (usize \<rightharpoonup> nat) \<Rightarrow> bool" where
  "owns A M \<longleftrightarrow> (\<exists>B. alloc_rel A B \<and> M = block_map A B)"

definition free_pages :: "Allocator \<Rightarrow> nat" where
  "free_pages al = card {k. k < MAX_PAGE \<and> page_allocated al ! k = 0}"

section \<open>Lemmas\<close>

subsection \<open>Alignment\<close>

lemma align_val_down_unat:
  assumes "align_val_down v k = Inr r"
  shows "unat r = unat v div 2 ^ k * 2 ^ k"
  using assms by (auto simp: align_val_down_def shl_mask unat_and_not_mask minus_mod_eq_div_mult)

lemma align_val_unat:
  assumes "align_val v k = Inr r"
  shows "unat r = (unat v + (2 ^ k - 1)) div 2 ^ k * 2 ^ k"
proof -
  from assms have k: "k < 64" and x: "\<exists>x. add_chk v (mask k) = Inr x \<and> r = x AND NOT (mask k)"
    by (auto simp: align_val_def shl_mask Let_def)
  then obtain x where "add_chk v (mask k) = Inr x" and r: "r = x AND NOT (mask k)" by blast
  with k have "unat x = unat v + (2 ^ k - 1)"
    by (auto dest!: add_chk_InrD(2) simp: unat_mask_lt)
  with r show ?thesis
    by (simp add: unat_and_not_mask minus_mod_eq_div_mult)
qed

lemma align_val_ok_iff:
  "(\<exists>r. align_val v k = Inr r) \<longleftrightarrow> k < 64 \<and> unat v + (2 ^ k - 1) < 2 ^ 64"
  by (auto simp: align_val_def shl_mask Let_def add_chk_def rbind_eq_Inr unat_mask_lt not_le simp del: One_nat_def)

subsection \<open>The loops of the allocator\<close>

lemma MAX_PAGE_num [consts_simps]: "MAX_PAGE = 32768"
  by (simp add: MAX_PAGE_def)

lemma run_free_cases:
  assumes "i \<le> length pa"
  shows "run_free pa i n =
    (if fits pa n i then Inr True
     else if \<exists>k. i \<le> k \<and> k < i + n \<and> k < length pa \<and> pa ! k \<noteq> 0 then Inr False
     else Inl Bounds)"
  using assms
proof (induction n arbitrary: i)
  case 0
  then show ?case by (simp add: fits_def)
next
  case (Suc n)
  show ?case
  proof (cases "i < length pa")
    case False
    with Suc.prems show ?thesis by (auto simp: fits_def)
  next
    case True
    show ?thesis
    proof (cases "pa ! i = 0")
      case False
      with True show ?thesis by (auto simp: fits_def)
    next
      case pi: True
      have f: "fits pa (Suc n) i \<longleftrightarrow> fits pa n (Suc i)"
        using pi True by (auto simp: fits_def) (metis Suc_leI le_neq_implies_less)
      have e: "(\<exists>k. i \<le> k \<and> k < i + Suc n \<and> k < length pa \<and> pa ! k \<noteq> 0) \<longleftrightarrow>
        (\<exists>k. Suc i \<le> k \<and> k < Suc i + n \<and> k < length pa \<and> pa ! k \<noteq> 0)"
        using pi by (metis Suc_le_eq add_Suc add_Suc_right le_neq_implies_less less_imp_le)
      have "run_free pa i (Suc n) = run_free pa (Suc i) n"
        using True pi by simp
      with True Suc.IH[of "Suc i"] show ?thesis
        by (simp only: f e Suc_leI)
    qed
  qed
qed

lemma mark_run_ok:
  assumes "i + n \<le> length pa"
  shows "\<exists>pa'. mark_run pa i n v = Inr pa' \<and> length pa' = length pa \<and>
    (\<forall>k<length pa. pa' ! k = (if i \<le> k \<and> k < i + n then v else pa ! k))"
  using assms
proof (induction n arbitrary: i pa)
  case 0
  then show ?case by auto
next
  case (Suc n)
  then have "Suc i + n \<le> length (pa[i := v])" by simp
  from Suc.IH[OF this] obtain pa' where "mark_run (pa[i := v]) (Suc i) n v = Inr pa'"
    "length pa' = length pa"
    "\<forall>k<length pa. pa' ! k = (if Suc i \<le> k \<and> k < Suc i + n then v else pa[i := v] ! k)"
    by auto
  with Suc.prems show ?case
    by (auto simp: nth_list_update)
qed

lemma scan_pages_fit:
  assumes "fits (page_allocated A) n j" "\<forall>j'. i \<le> j' \<and> j' < j \<longrightarrow> \<not> fits (page_allocated A) n j'"
    "i \<le> j" "i + k = length (page_allocated A)" "0 < n"
  shows "\<exists>pa. mark_run (page_allocated A) j n (of_nat n) = Inr pa \<and>
    scan_pages A n i k = rbind (offset_id_of A (of_nat j)) (\<lambda>p. Inr (A\<lparr>page_allocated := pa\<rparr>, p))"
  using assms
proof (induction k arbitrary: i)
  case 0
  then show ?case by (auto simp: fits_def)
next
  case (Suc k)
  let ?pa = "page_allocated A"
  have i: "i < length ?pa" using Suc.prems by simp
  show ?case
  proof (cases "i = j")
    case True
    obtain pa where pa: "mark_run ?pa j n (of_nat n) = Inr pa"
      using mark_run_ok[of j n ?pa "of_nat n"] Suc.prems(1) by (auto simp: fits_def)
    moreover have "?pa ! j = 0" using Suc.prems by (auto simp: fits_def)
    ultimately show ?thesis
      using True i Suc.prems(1) by (simp add: run_free_cases)
  next
    case False
    then have "Suc i \<le> j" and nf: "\<not> fits ?pa n i" using Suc.prems by auto
    from Suc.IH[of "Suc i"] this Suc.prems have IH:
      "\<exists>pa. mark_run ?pa j n (of_nat n) = Inr pa \<and>
        scan_pages A n (Suc i) k = rbind (offset_id_of A (of_nat j)) (\<lambda>p. Inr (A\<lparr>page_allocated := pa\<rparr>, p))"
      by auto
    have "\<exists>k. i \<le> k \<and> k < i + n \<and> k < length ?pa \<and> ?pa ! k \<noteq> 0"
    proof (rule ccontr)
      assume "\<not> ?thesis"
      moreover have "i + n \<le> length ?pa" using \<open>Suc i \<le> j\<close> Suc.prems(1) by (simp add: fits_def)
      ultimately have "fits ?pa n i" by (auto simp: fits_def)
      with nf show False ..
    qed
    then show ?thesis
      using IH i nf by (simp add: run_free_cases)
  qed
qed

lemma scan_pages_nofit:
  assumes "\<forall>j. i \<le> j \<longrightarrow> \<not> fits (page_allocated A) n j" "i + k = length (page_allocated A)"
  shows "scan_pages A n i k \<in> {Inl Bounds, Inl (Panic ''no available page'')}"
  using assms
proof (induction k arbitrary: i)
  case 0
  then show ?case by simp
next
  case (Suc k)
  then show ?case by (auto simp: run_free_cases split: if_splits)
qed

lemma allocate_scan:
  assumes "unat sz + 4095 < 2 ^ 64"
  shows "allocate A sz = scan_pages A (pages_for sz) 0 MAX_PAGE"
proof -
  obtain s where s: "align_val sz PAGE_ORDER = Inr s"
    using align_val_ok_iff[of sz PAGE_ORDER] assms by (auto simp: PAGE_ORDER_num)
  then have "unat s = pages_for sz * 4096"
    by (auto dest!: align_val_unat simp: PAGE_ORDER_num pages_for_def)
  then have "unat (s div PAGE_SIZE) = pages_for sz"
    by (simp add: unat_div)
  with s show ?thesis by (simp add: allocate_def)
qed

lemma alloc_rel_zero:
  assumes "alloc_rel A B" "k < MAX_PAGE"
  shows "page_allocated A ! k = 0 \<longleftrightarrow> \<not> covered B k"
proof
  assume "page_allocated A ! k = 0"
  show "\<not> covered B k"
  proof
    assume "covered B k"
    then obtain s n where "B s = Some n" "s \<le> k" "k < s + n" by (auto simp: covered_def)
    with assms have "page_allocated A ! k = of_nat n" "0 < n" "n \<le> MAX_PAGE"
      by (force simp: alloc_rel_def)+
    with \<open>page_allocated A ! k = 0\<close> show False
      by (simp add: of_nat_usize_eq_0 MAX_PAGE_num)
  qed
next
  assume "\<not> covered B k"
  with assms show "page_allocated A ! k = 0" by (auto simp: alloc_rel_def covered_def)
qed

lemma alloc_rel_fits:
  assumes "alloc_rel A B"
  shows "fits (page_allocated A) n i \<longleftrightarrow> room B n i"
proof -
  have "length (page_allocated A) = MAX_PAGE" using assms by (simp add: alloc_rel_def)
  then show ?thesis
    by (auto simp: fits_def room_def alloc_rel_zero[OF assms])
qed

lemma offset_id_of_ok:
  assumes "alloc_rel A B" "i \<le> MAX_PAGE"
  shows "offset_id_of A (of_nat i) = Inr (base_addr A + of_nat i * 4096)"
proof -
  have i: "unat (of_nat i :: usize) = i"
    using assms(2) by (simp add: unat_of_nat MAX_PAGE_num)
  have b: "unat (base_addr A) + i * 4096 < 2 ^ 64"
    using assms by (auto simp: alloc_rel_def MAX_PAGE_num)
  then have "i * 4096 < 2 ^ 64" by simp
  then have m: "mul_chk (of_nat i) PAGE_SIZE = Inr (of_nat i * 4096)"
    and u: "unat (of_nat i * 4096 :: usize) = i * 4096"
    by (simp_all add: i PAGE_SIZE_num unat_word_ariths(2))
  have "add_chk (base_addr A) (of_nat i * 4096) = Inr (base_addr A + of_nat i * 4096)"
    using b u by (intro add_chk_ok) simp
  with m show ?thesis
    by (simp add: offset_id_of_def offset_addr_of_def)
qed

lemma alloc_rel_insert:
  assumes rel: "alloc_rel A B" and room: "room B n i" and "0 < n"
    and pa: "mark_run (page_allocated A) i n (of_nat n) = Inr pa"
  shows "alloc_rel (A\<lparr>page_allocated := pa\<rparr>) (B(i \<mapsto> n))"
proof -
  have len: "length (page_allocated A) = MAX_PAGE" using rel by (simp add: alloc_rel_def)
  have bnd: "i + n \<le> MAX_PAGE" using room by (simp add: room_def)
  obtain lp: "length pa = MAX_PAGE" and nth:
    "\<And>k. k < MAX_PAGE \<Longrightarrow> pa ! k = (if i \<le> k \<and> k < i + n then of_nat n else page_allocated A ! k)"
    using mark_run_ok[of i n "page_allocated A" "of_nat n"] pa len bnd by auto
  have sep: "s + m \<le> i \<or> i + n \<le> s" if "B s = Some m" for s m
  proof (rule ccontr)
    assume "\<not> ?thesis"
    then have "i \<le> max i s" "max i s < i + n" "s \<le> max i s" "max i s < s + m"
      using rel that \<open>0 < n\<close> by (auto simp: alloc_rel_def max_def)
    then have "covered B (max i s)" using that unfolding covered_def by blast
    then show False using room \<open>max i s < i + n\<close> by (auto simp: room_def)
  qed
  show ?thesis
    unfolding alloc_rel_def
  proof (intro conjI allI impI, goal_cases)
    case (4 s m)
    then show ?case using \<open>0 < n\<close> rel by (auto simp: alloc_rel_def split: if_splits)
  next
    case (5 s m)
    then show ?case using bnd rel by (auto simp: alloc_rel_def split: if_splits)
  next
    case (6 s m k)
    show ?case
    proof (cases "s = i")
      case True
      with 6 nth[of k] bnd show ?thesis by auto
    next
      case False
      with 6 have B: "B s = Some m" by simp
      with rel have "s + m \<le> MAX_PAGE" "page_allocated A ! k = of_nat m"
        using 6 by (auto simp: alloc_rel_def)
      with sep[OF B] 6 nth[of k] show ?thesis by auto
    qed
  next
    case (7 k)
    show ?case
    proof (cases "i \<le> k \<and> k < i + n")
      case True
      then show ?thesis by auto
    next
      case False
      with 7 nth[of k] have "page_allocated A ! k \<noteq> 0" by auto
      with rel 7 obtain s m where "B s = Some m" "s \<le> k" "k < s + m"
        by (auto simp: alloc_rel_def)
      moreover from this False have "s \<noteq> i" using sep[of s m] \<open>0 < n\<close> by auto
      ultimately show ?thesis by (intro exI[of _ s] exI[of _ m]) simp
    qed
  next
    case (8 s m s' m')
    then show ?case
      using sep[of s m] sep[of s' m'] rel \<open>0 < n\<close>
      by (auto simp: alloc_rel_def split: if_splits)
  qed (use rel lp in \<open>auto simp: alloc_rel_def\<close>)
qed

lemma alloc_rel_delete:
  assumes rel: "alloc_rel A B" and B: "B i = Some n"
    and pa: "mark_run (page_allocated A) i n 0 = Inr pa"
  shows "alloc_rel (A\<lparr>page_allocated := pa\<rparr>) (B(i := None))"
proof -
  have len: "length (page_allocated A) = MAX_PAGE" and bnd: "i + n \<le> MAX_PAGE"
    using rel B by (auto simp: alloc_rel_def)
  obtain lp: "length pa = MAX_PAGE" and nth:
    "\<And>k. k < MAX_PAGE \<Longrightarrow> pa ! k = (if i \<le> k \<and> k < i + n then 0 else page_allocated A ! k)"
    using mark_run_ok[of i n "page_allocated A" 0] pa len bnd by auto
  have sep: "s + m \<le> i \<or> i + n \<le> s" if "B s = Some m" "s \<noteq> i" for s m
    using rel B that by (cases "s < i") (auto simp: alloc_rel_def)
  show ?thesis
    unfolding alloc_rel_def
  proof (intro conjI allI impI, goal_cases)
    case (6 s m k)
    then have s: "s \<noteq> i" "B s = Some m" by (auto split: if_splits)
    with rel 6 have "s + m \<le> MAX_PAGE" "page_allocated A ! k = of_nat m"
      by (auto simp: alloc_rel_def)
    with sep[OF s(2,1)] 6 nth[of k] show ?case by auto
  next
    case (7 k)
    with nth[of k] have k: "\<not> (i \<le> k \<and> k < i + n)" "page_allocated A ! k \<noteq> 0"
      by (auto split: if_splits)
    with rel 7 obtain s m where "B s = Some m" "s \<le> k" "k < s + m"
      by (auto simp: alloc_rel_def)
    moreover from this k B have "s \<noteq> i" by auto
    ultimately show ?case by (intro exI[of _ s] exI[of _ m]) simp
  qed (use rel lp in \<open>auto simp: alloc_rel_def split: if_splits\<close>)
qed

lemma alloc_rel_new:
  assumes "unat b mod 4096 = 0" "unat b + MAX_PAGE * 4096 < 2 ^ 64"
  shows "alloc_rel (Allocator_new\<lparr>base_addr := b\<rparr>) Map.empty"
  using assms by (simp add: alloc_rel_def Allocator_new_def)

lemma unat_page_addr:
  assumes "alloc_rel A B" "i \<le> MAX_PAGE"
  shows "unat (page_addr A i) = unat (base_addr A) + i * 4096"
proof -
  have b: "unat (base_addr A) + i * 4096 < 2 ^ 64"
    using assms by (auto simp: alloc_rel_def MAX_PAGE_num)
  moreover have "unat (of_nat i :: usize) = i"
    using assms(2) by (simp add: unat_of_nat MAX_PAGE_num)
  ultimately show ?thesis
    by (simp add: page_addr_def unat_word_ariths)
qed

lemma offset_page_of_ok:
  assumes "alloc_rel A B" "i < MAX_PAGE"
  shows "offset_page_of A (page_addr A i) = Inr (of_nat i)"
proof -
  have u: "unat (page_addr A i) = unat (base_addr A) + i * 4096"
    using assms by (intro unat_page_addr) auto
  then have "base_addr A \<le> page_addr A i" by (simp add: word_le_nat_alt)
  moreover have "(page_addr A i - base_addr A) div PAGE_SIZE = of_nat i"
    using assms(2) u \<open>base_addr A \<le> page_addr A i\<close>
    by (simp add: word_unat_eq_iff unat_div unat_sub unat_of_nat MAX_PAGE_num)
  ultimately show ?thesis by (simp add: offset_page_of_def)
qed

lemma allocate_fit:
  assumes rel: "alloc_rel A B" and sz: "unat sz + 4095 < 2 ^ 64" "pages_for sz = n" "0 < n"
    and room: "room B n i" and least: "\<forall>j<i. \<not> room B n j"
  shows "\<exists>A'. allocate A sz = Inr (A', page_addr A i) \<and> alloc_rel A' (B(i \<mapsto> n)) \<and>
     base_addr A' = base_addr A"
proof -
  have len: "length (page_allocated A) = MAX_PAGE" using rel by (simp add: alloc_rel_def)
  obtain pa where pa: "mark_run (page_allocated A) i n (of_nat n) = Inr pa"
    and scan: "scan_pages A n 0 MAX_PAGE =
      rbind (offset_id_of A (of_nat i)) (\<lambda>p. Inr (A\<lparr>page_allocated := pa\<rparr>, p))"
    using scan_pages_fit[of A n i 0 MAX_PAGE] room least sz len by (auto simp: alloc_rel_fits[OF rel])
  have "i \<le> MAX_PAGE" using room by (simp add: room_def)
  then show ?thesis
    using scan sz alloc_rel_insert[OF rel room \<open>0 < n\<close> pa]
    by (simp add: allocate_scan offset_id_of_ok[OF rel] page_addr_def)
qed

lemma allocate_nofit:
  assumes rel: "alloc_rel A B" and sz: "unat sz + 4095 < 2 ^ 64"
    and "\<forall>i. \<not> room B (pages_for sz) i"
  shows "allocate A sz \<in> {Inl Bounds, Inl (Panic ''no available page'')}"
proof -
  have len: "length (page_allocated A) = MAX_PAGE" using rel by (simp add: alloc_rel_def)
  with assms show ?thesis
    using scan_pages_nofit[of 0 A "pages_for sz" MAX_PAGE]
    by (simp add: allocate_scan alloc_rel_fits[OF rel])
qed

lemma alloc_relD:
  assumes "alloc_rel A B" "B i = Some n"
  shows "0 < n" "i + n \<le> MAX_PAGE" "i < MAX_PAGE" "page_allocated A ! i = of_nat n"
proof -
  from assms show n: "0 < n" and i: "i + n \<le> MAX_PAGE" and "page_allocated A ! i = of_nat n"
    by (auto simp: alloc_rel_def)
  from n i show "i < MAX_PAGE" by simp
qed

lemma deallocate_block:
  assumes rel: "alloc_rel A B" and B: "B i = Some n"
  shows "\<exists>A'. deallocate A (page_addr A i) = Inr A' \<and> alloc_rel A' (B(i := None)) \<and>
    base_addr A' = base_addr A"
proof -
  note bnd = alloc_relD(2,3)[OF rel B] and pi = alloc_relD(4)[OF rel B]
  have len: "length (page_allocated A) = MAX_PAGE" using rel by (simp add: alloc_rel_def)
  have ui: "unat (of_nat i :: usize) = i" and un: "unat (of_nat n :: usize) = n"
    using bnd by (simp_all add: unat_of_nat MAX_PAGE_num)
  obtain pa where pa: "mark_run (page_allocated A) i n 0 = Inr pa"
    using mark_run_ok[of i n "page_allocated A" 0] bnd len by auto
  then show ?thesis
    using alloc_rel_delete[OF rel B pa] bnd
    by (simp add: deallocate_def offset_page_of_ok[OF rel] ui un pi len)
qed

lemma pages_for_pos: "0 < unat sz \<Longrightarrow> 0 < pages_for sz"
  by (simp add: pages_for_def div_greater_zero_iff)

lemma room_empty: "room Map.empty n i \<longleftrightarrow> i + n \<le> MAX_PAGE"
  by (simp add: room_def covered_def)

lemma alloc_rel_sep:
  "alloc_rel A B \<Longrightarrow> B s = Some n \<Longrightarrow> B s' = Some n' \<Longrightarrow> s < s' \<Longrightarrow> s + n \<le> s'"
  by (auto simp: alloc_rel_def)

lemma covered_start: "alloc_rel A B \<Longrightarrow> B i = Some n \<Longrightarrow> covered B i"
  using alloc_relD(1)[of A B i n] unfolding covered_def by (intro exI[of _ i] exI[of _ n]) simp

lemma offset_addr_of_ok:
  "alloc_rel A B \<Longrightarrow> i \<le> MAX_PAGE \<Longrightarrow> offset_addr_of A (of_nat i) = Inr (page_addr A i)"
  using offset_id_of_ok by (simp add: offset_id_of_def page_addr_def)

lemma unat_of_nat_page: "i \<le> MAX_PAGE \<Longrightarrow> unat (of_nat i :: usize) = i"
  by (simp add: unat_of_nat MAX_PAGE_num)

lemma add_chk_page:
  assumes "i + n \<le> MAX_PAGE"
  shows "add_chk (of_nat i) (of_nat n :: usize) = Inr (of_nat (i + n))"
proof -
  have "unat (of_nat i :: usize) + unat (of_nat n :: usize) < 2 ^ 64"
    using assms by (simp add: unat_of_nat_page) (simp add: MAX_PAGE_num)
  then show ?thesis by simp
qed

lemma allocate_overflow_sz: "\<not> unat sz + 4095 < 2 ^ 64 \<Longrightarrow> allocate A sz = Inl Overflow"
  by (simp add: allocate_def align_val_def PAGE_ORDER_num Let_def add_chk_def)

lemma allocate_cases:
  assumes rel: "alloc_rel A B" and a: "allocate A sz = Inr (A', p)" and "0 < unat sz"
  obtains i where "room B (pages_for sz) i" "p = page_addr A i"
    "alloc_rel A' (B(i \<mapsto> pages_for sz))" "base_addr A' = base_addr A" "0 < pages_for sz"
proof -
  have sz: "unat sz + 4095 < 2 ^ 64" using allocate_overflow_sz[of sz A] a by fastforce
  have "\<exists>i. room B (pages_for sz) i"
  proof (rule ccontr)
    assume "\<not> ?thesis"
    with allocate_nofit[OF rel sz] a show False by auto
  qed
  define i where "i = (LEAST i. room B (pages_for sz) i)"
  have i: "room B (pages_for sz) i" "\<forall>j<i. \<not> room B (pages_for sz) j"
    using \<open>\<exists>i. room B (pages_for sz) i\<close> not_less_Least by (auto simp: i_def intro: LeastI)
  from allocate_fit[OF rel sz refl pages_for_pos[OF assms(3)] i] a that[of i] i(1)
    pages_for_pos[OF assms(3)] show thesis by auto
qed

lemma alloc_rel_unique:
  assumes "alloc_rel A B" "alloc_rel A' B" "base_addr A = base_addr A'"
  shows "A = A'"
proof -
  have len: "length (page_allocated A) = MAX_PAGE" "length (page_allocated A') = MAX_PAGE"
    using assms by (simp_all add: alloc_rel_def)
  have "page_allocated A = page_allocated A'"
  proof (rule nth_equalityI)
    fix k assume "k < length (page_allocated A)"
    then have k: "k < MAX_PAGE" by (simp add: len)
    show "page_allocated A ! k = page_allocated A' ! k"
    proof (cases "covered B k")
      case True
      then obtain s n where "B s = Some n" "s \<le> k" "k < s + n" by (auto simp: covered_def)
      with assms(1,2) show ?thesis by (simp add: alloc_rel_def)
    next
      case False
      then show ?thesis using alloc_rel_zero[OF assms(1) k] alloc_rel_zero[OF assms(2) k] by simp
    qed
  qed (simp add: len)
  with assms(3) show ?thesis by simp
qed

subsection \<open>The listing of \<open>debug\<close>\<close>

lemma debug_lists_end:
  assumes "alloc_rel A B" "MAX_PAGE \<le> j"
  shows "debug_lists arr A B j []"
proof -
  have "\<not> (B s = Some n \<and> j \<le> s)" for s n
    using alloc_relD(3)[OF assms(1), of s n] assms(2) by auto
  then show ?thesis by (auto simp: debug_lists_def)
qed

lemma debug_lists_skip:
  assumes "B j = None" "debug_lists arr A B (Suc j) lines"
  shows "debug_lists arr A B j lines"
proof -
  have "B s = Some n \<and> j \<le> s \<longleftrightarrow> B s = Some n \<and> Suc j \<le> s" for s n
    using assms(1) by (cases "s = j") auto
  with assms(2) show ?thesis by (simp add: debug_lists_def)
qed

lemma debug_lists_Cons:
  assumes rel: "alloc_rel A B" and Bj: "B j = Some n" and l: "debug_lists arr A B (j + n) lines"
  shows "debug_lists arr A B j (debug_line arr A j n # lines)"
proof -
  note n = alloc_relD[OF rel Bj]
  have S: "B s = Some m \<and> j \<le> s \<longleftrightarrow> s = j \<and> m = n \<or> B s = Some m \<and> j + n \<le> s" for s m
  proof (cases "s = j")
    case False
    then show ?thesis using alloc_rel_sep[OF rel Bj, of s m] by auto
  qed (use Bj n in auto)
  have lt: "(of_nat j :: usize) < of_nat s" if "B s = Some m" "j + n \<le> s" for s m
    using n that alloc_relD(3)[OF rel that(1)] by (simp add: word_less_nat_alt unat_of_nat_page)
  show ?thesis
    using l by (auto simp: debug_lists_def S debug_line_def intro: lt)
qed

lemma debug_loop_lists:
  assumes rel: "alloc_rel A B" and "j < MAX_PAGE"
    and "\<forall>s n. B s = Some n \<longrightarrow> \<not> (s < j \<and> j < s + n)"
  shows "\<exists>lines. debug_loop arr A (of_nat j) = Inr lines \<and> debug_lists arr A B j lines"
  using assms(2,3)
proof (induction "MAX_PAGE - j" arbitrary: j rule: less_induct)
  case less
  have len: "length (page_allocated A) = MAX_PAGE" using rel by (simp add: alloc_rel_def)
  have uj: "unat (of_nat j :: usize) = j" using less.prems by (simp add: unat_of_nat_page)
  show ?case
  proof (cases "B j")
    case None
    have "\<not> covered B j"
      unfolding covered_def using None less.prems(2) by (metis le_neq_implies_less option.distinct(1))
    then have z: "page_allocated A ! j = 0" using alloc_rel_zero[OF rel] less.prems by simp
    have e: "add_chk (of_nat j) (1 :: usize) = Inr (of_nat (Suc j))"
      using add_chk_page[of j 1] less.prems(1) by (metis Suc_eq_plus1 Suc_leI of_nat_1)
    have ue: "unat (of_nat (Suc j) :: usize) = Suc j" using less.prems by (intro unat_of_nat_page) simp
    have step: "debug_loop arr A (of_nat j) =
        (if Suc j = MAX_PAGE then Inr [] else debug_loop arr A (of_nat (Suc j)))"
      by (subst debug_loop.simps) (simp add: len uj z e ue less.prems(1) del: of_nat_Suc)
    have "\<exists>lines. (if Suc j = MAX_PAGE then Inr [] else debug_loop arr A (of_nat (Suc j))) = Inr lines \<and>
        debug_lists arr A B (Suc j) lines"
    proof (cases "Suc j = MAX_PAGE")
      case False
      have "\<forall>s n. B s = Some n \<longrightarrow> \<not> (s < Suc j \<and> Suc j < s + n)"
        using less.prems(2) None by (fastforce simp: less_Suc_eq)
      with False less.hyps[of "Suc j"] less.prems(1) show ?thesis by simp
    qed (simp add: debug_lists_end[OF rel])
    then show ?thesis unfolding step using debug_lists_skip[of B j] None by blast
  next
    case (Some n)
    note n = alloc_relD[OF rel Some]
    have un: "unat (of_nat n :: usize) = n" using n by (intro unat_of_nat_page) simp
    have nz: "(of_nat n :: usize) \<noteq> 0" using n un by (metis unat_0 less_irrefl)
    have ue: "unat (of_nat (j + n) :: usize) = j + n" using n by (intro unat_of_nat_page) simp
    have step: "debug_loop arr A (of_nat j) =
        rbind (if j + n = MAX_PAGE then Inr [] else debug_loop arr A (of_nat (j + n)))
          (\<lambda>lines. Inr (debug_line arr A j n # lines))"
      using n nz
      by (subst debug_loop.simps)
        (simp add: len uj ue add_chk_page offset_addr_of_ok[OF rel] debug_line_def del: of_nat_add)
    have "\<exists>lines. (if j + n = MAX_PAGE then Inr [] else debug_loop arr A (of_nat (j + n))) = Inr lines \<and>
        debug_lists arr A B (j + n) lines"
    proof (cases "j + n = MAX_PAGE")
      case False
      have "\<forall>s m. B s = Some m \<longrightarrow> \<not> (s < j + n \<and> j + n < s + m)"
      proof (intro allI impI)
        fix s m assume "B s = Some m"
        then show "\<not> (s < j + n \<and> j + n < s + m)"
          using alloc_rel_sep[OF rel, of s m j n] alloc_rel_sep[OF rel Some, of s m] Some
          by (cases s j rule: linorder_cases) auto
      qed
      with False less.hyps[of "j + n"] n show ?thesis by simp
    qed (simp add: debug_lists_end[OF rel])
    then show ?thesis unfolding step using debug_lists_Cons[OF rel Some] by force
  qed
qed

section \<open>The interface of the allocator\<close>

text \<open>
  \<open>owned s M\<close> says that the blocks handed out are those of \<open>M\<close>, from address to number of
  pages. A client learns that a new block is fresh, page aligned and apart from every
  block it holds, and that a block can be given back once.
\<close>

locale frame_source =
  fixes alloc :: "'s \<Rightarrow> usize \<Rightarrow> ('s \<times> usize) res"
    and dealloc :: "'s \<Rightarrow> usize \<Rightarrow> 's res"
    and owned :: "'s \<Rightarrow> (usize \<rightharpoonup> nat) \<Rightarrow> bool"
  assumes alloc_new: "owned s M \<Longrightarrow> alloc s sz = Inr (s', p) \<Longrightarrow> 0 < unat sz \<Longrightarrow>
      M p = None \<and> owned s' (M(p \<mapsto> pages_for sz))"
    and dealloc_old: "owned s M \<Longrightarrow> M p = Some n \<Longrightarrow> \<exists>s'. dealloc s p = Inr s' \<and> owned s' (M(p := None))"
    and owned_aligned: "owned s M \<Longrightarrow> M p = Some n \<Longrightarrow> unat p mod 4096 = 0 \<and> unat p + n * 4096 < 2 ^ 64"
    and owned_apart: "owned s M \<Longrightarrow> M p = Some n \<Longrightarrow> M q = Some m \<Longrightarrow> p < q \<Longrightarrow>
      unat p + n * 4096 \<le> unat q"
begin

lemma alloc_dealloc_inverse:
  assumes "owned s M" "alloc s sz = Inr (s', p)" "0 < unat sz"
  shows "\<exists>s''. dealloc s' p = Inr s'' \<and> owned s'' M"
proof -
  from alloc_new[OF assms] have "M p = None" "owned s' (M(p \<mapsto> pages_for sz))" by auto
  from dealloc_old[OF this(2), of p] obtain s'' where
    "dealloc s' p = Inr s''" "owned s'' ((M(p \<mapsto> pages_for sz))(p := None))" by auto
  moreover from \<open>M p = None\<close> have "(M(p \<mapsto> pages_for sz))(p := None) = M" by auto
  ultimately show ?thesis by auto
qed

lemma alloc_apart:
  assumes "owned s M" "alloc s sz = Inr (s', p)" "0 < unat sz" "M q = Some m"
  shows "unat p + pages_for sz * 4096 \<le> unat q \<or> unat q + m * 4096 \<le> unat p"
proof -
  from alloc_new[OF assms(1-3)] have p: "M p = None" and o': "owned s' (M(p \<mapsto> pages_for sz))" by auto
  with assms(4) have "p \<noteq> q" and q: "(M(p \<mapsto> pages_for sz)) q = Some m" by auto
  then show ?thesis
    using owned_apart[OF o', of p "pages_for sz" q m] owned_apart[OF o' q, of p "pages_for sz"]
    by (auto simp: linorder_neq_iff)
qed

lemma two_allocs_apart:
  assumes "owned s M" "alloc s sz = Inr (s', p)" "alloc s' sz' = Inr (s'', q)" "0 < unat sz" "0 < unat sz'"
  shows "unat p + pages_for sz * 4096 \<le> unat q \<or> unat q + pages_for sz' * 4096 \<le> unat p"
  using alloc_new[OF assms(1,2,4)] alloc_apart[OF _ assms(3,5), of _ p "pages_for sz"] by auto

end

lemma block_map_Some:
  assumes rel: "alloc_rel A B"
  shows "block_map A B a = Some n \<longleftrightarrow> (\<exists>i. B i = Some n \<and> a = page_addr A i)"
proof
  assume "block_map A B a = Some n"
  then have a: "base_addr A \<le> a" "(unat a - unat (base_addr A)) mod 4096 = 0"
    and B: "B ((unat a - unat (base_addr A)) div 4096) = Some n" (is "B ?i = _")
    by (auto simp: block_map_def split: if_splits)
  have "unat (page_addr A ?i) = unat (base_addr A) + ?i * 4096"
    using alloc_relD(3)[OF rel B] by (intro unat_page_addr[OF rel]) simp
  also have "\<dots> = unat a"
    using a by (auto simp: word_le_nat_alt)
  finally have "a = page_addr A ?i" by (simp add: word_unat_eq_iff)
  with B show "\<exists>i. B i = Some n \<and> a = page_addr A i" by blast
next
  assume "\<exists>i. B i = Some n \<and> a = page_addr A i"
  then obtain i where i: "B i = Some n" "a = page_addr A i" by blast
  then have "unat a = unat (base_addr A) + i * 4096"
    using unat_page_addr[OF rel] alloc_relD(3)[OF rel i(1)] by simp
  with i show "block_map A B a = Some n"
    by (simp add: block_map_def word_le_nat_alt)
qed

lemma page_addr_inj:
  assumes "alloc_rel A B" "page_addr A i = page_addr A j" "i \<le> MAX_PAGE" "j \<le> MAX_PAGE"
  shows "i = j"
proof -
  have "unat (base_addr A) + i * 4096 = unat (base_addr A) + j * 4096"
    using unat_page_addr[OF assms(1,3)] unat_page_addr[OF assms(1,4)] by (simp only: assms(2))
  then show ?thesis by simp
qed

lemma block_map_at:
  assumes rel: "alloc_rel A B" and "i < MAX_PAGE"
  shows "block_map A B (page_addr A i) = B i"
  using assms by (simp add: block_map_def unat_page_addr word_le_nat_alt)

lemma block_map_upd:
  assumes rel: "alloc_rel A B" and i: "i < MAX_PAGE"
  shows "block_map A (B(i := x)) = (block_map A B)(page_addr A i := x)"
proof
  fix a
  show "block_map A (B(i := x)) a = ((block_map A B)(page_addr A i := x)) a"
  proof (cases "a = page_addr A i")
    case True
    then show ?thesis using i by (simp add: block_map_def unat_page_addr[OF rel] word_le_nat_alt)
  next
    case False
    have "(unat a - unat (base_addr A)) div 4096 \<noteq> i"
      if "base_addr A \<le> a" "(unat a - unat (base_addr A)) mod 4096 = 0"
    proof
      assume "(unat a - unat (base_addr A)) div 4096 = i"
      with that have "unat a = unat (page_addr A i)"
        using i by (auto simp: unat_page_addr[OF rel] word_le_nat_alt)
      with False show False by (simp add: word_unat_eq_iff)
    qed
    with False show ?thesis by (auto simp: block_map_def)
  qed
qed

lemma block_map_base: "base_addr A' = base_addr A \<Longrightarrow> block_map A' B = block_map A B"
  by (simp add: block_map_def fun_eq_iff)

interpretation fs: frame_source allocate deallocate owns
proof (unfold_locales, goal_cases)
  case (1 A M sz A' p)
  then obtain B where B: "alloc_rel A B" "M = block_map A B" by (auto simp: owns_def)
  from allocate_cases[OF B(1) 1(2,3)] obtain i where i: "room B (pages_for sz) i" "p = page_addr A i"
    "alloc_rel A' (B(i \<mapsto> pages_for sz))" "base_addr A' = base_addr A" "0 < pages_for sz" by blast
  have iM: "i < MAX_PAGE" using i by (simp add: room_def)
  have "\<not> covered B i" using i by (auto simp: room_def)
  then have "B i = None" using covered_start[OF B(1)] by (cases "B i") auto
  then have "M p = None" using B iM i by (simp add: block_map_at)
  moreover have "owns A' (M(p \<mapsto> pages_for sz))"
  proof -
    have "M(p \<mapsto> pages_for sz) = block_map A' (B(i \<mapsto> pages_for sz))"
      by (simp only: block_map_base[OF i(4)] block_map_upd[OF B(1) iM] B(2) i(2))
    with i(3) show ?thesis unfolding owns_def by blast
  qed
  ultimately show ?case ..
next
  case (2 A M p n)
  then obtain B where B: "alloc_rel A B" "M = block_map A B" by (auto simp: owns_def)
  with 2 obtain i where i: "B i = Some n" "p = page_addr A i" by (auto simp: block_map_Some)
  from deallocate_block[OF B(1) i(1)] obtain A' where
    A': "deallocate A p = Inr A'" "alloc_rel A' (B(i := None))" "base_addr A' = base_addr A"
    using i(2) by auto
  have "M(p := None) = block_map A' (B(i := None))"
    by (simp only: block_map_base[OF A'(3)] block_map_upd[OF B(1) alloc_relD(3)[OF B(1) i(1)]] B(2) i(2))
  with A' show ?case unfolding owns_def by blast
next
  case (3 A M p n)
  then obtain B where B: "alloc_rel A B" "M = block_map A B" by (auto simp: owns_def)
  with 3 obtain i where i: "B i = Some n" "p = page_addr A i" by (auto simp: block_map_Some)
  have "unat p = unat (base_addr A) + i * 4096"
    using i alloc_relD(3)[OF B(1) i(1)] by (simp add: unat_page_addr[OF B(1)])
  moreover have "unat (base_addr A) mod 4096 = 0" "unat (base_addr A) + MAX_PAGE * 4096 < 2 ^ 64"
    using B(1) by (auto simp: alloc_rel_def)
  moreover have "(i + n) * 4096 \<le> MAX_PAGE * 4096" using alloc_relD(2)[OF B(1) i(1)] by (rule mult_le_mono1)
  ultimately show ?case by (simp add: distrib_right)
next
  case (4 A M p n q m)
  then obtain B where B: "alloc_rel A B" "M = block_map A B" by (auto simp: owns_def)
  with 4 obtain i j where ij: "B i = Some n" "p = page_addr A i" "B j = Some m" "q = page_addr A j"
    by (auto simp: block_map_Some)
  note u = unat_page_addr[OF B(1), of i] unat_page_addr[OF B(1), of j]
    alloc_relD(3)[OF B(1) ij(1)] alloc_relD(3)[OF B(1) ij(3)]
  from 4(4) ij u have "i < j" by (simp add: word_less_nat_alt)
  with alloc_rel_sep[OF B(1) ij(1,3)] show ?case using ij u by simp
qed

subsection \<open>Counting pages\<close>

lemma alloc_rel_busy:
  assumes rel: "alloc_rel A B"
  shows "{k. k < MAX_PAGE \<and> page_allocated A ! k \<noteq> 0} = (\<Union>s\<in>dom B. {s..<s + the (B s)})"
proof (rule set_eqI)
  fix k
  show "k \<in> {k. k < MAX_PAGE \<and> page_allocated A ! k \<noteq> 0} \<longleftrightarrow> k \<in> (\<Union>s\<in>dom B. {s..<s + the (B s)})"
  proof
    assume "k \<in> {k. k < MAX_PAGE \<and> page_allocated A ! k \<noteq> 0}"
    then obtain s n where "B s = Some n" "s \<le> k" "k < s + n" using rel unfolding alloc_rel_def by blast
    then show "k \<in> (\<Union>s\<in>dom B. {s..<s + the (B s)})" by force
  next
    assume "k \<in> (\<Union>s\<in>dom B. {s..<s + the (B s)})"
    then obtain s n where s: "B s = Some n" "s \<le> k" "k < s + n" by auto
    have k: "k < MAX_PAGE" using alloc_relD(2)[OF rel s(1)] s(3) by simp
    have "page_allocated A ! k = of_nat n" using rel s unfolding alloc_rel_def by blast
    moreover have "(of_nat n :: usize) \<noteq> 0"
      using alloc_relD(1,2)[OF rel s(1)] of_nat_usize_eq_0[of n] by (simp add: MAX_PAGE_num)
    ultimately show "k \<in> {k. k < MAX_PAGE \<and> page_allocated A ! k \<noteq> 0}" using k by simp
  qed
qed

lemma alloc_rel_count:
  assumes rel: "alloc_rel A B"
  shows "finite (dom B)" "free_pages A + (\<Sum>s\<in>dom B. the (B s)) = MAX_PAGE"
proof -
  have sub: "dom B \<subseteq> {..<MAX_PAGE}" using alloc_relD(3)[OF rel] by auto
  then show fin: "finite (dom B)" by (rule finite_subset) simp
  have disj: "{s..<s + the (B s)} \<inter> {s'..<s' + the (B s')} = {}" if "s \<in> dom B" "s' \<in> dom B" "s \<noteq> s'" for s s'
    using that alloc_rel_sep[OF rel, of s _ s'] alloc_rel_sep[OF rel, of s' _ s]
    by (cases "s < s'") (auto simp: dom_def, (metis not_less_iff_gr_or_eq le_less_trans less_le_trans not_less)+)
  have "card {k. k < MAX_PAGE \<and> page_allocated A ! k \<noteq> 0} = (\<Sum>s\<in>dom B. card {s..<s + the (B s)})"
    unfolding alloc_rel_busy[OF rel] by (rule card_UN_disjoint[OF fin]) (use disj in auto)
  moreover have "{k. k < MAX_PAGE \<and> page_allocated A ! k = 0} \<union> {k. k < MAX_PAGE \<and> page_allocated A ! k \<noteq> 0} = {..<MAX_PAGE}"
    by auto
  moreover have "card ({k. k < MAX_PAGE \<and> page_allocated A ! k = 0} \<union> {k. k < MAX_PAGE \<and> page_allocated A ! k \<noteq> 0})
    = free_pages A + card {k. k < MAX_PAGE \<and> page_allocated A ! k \<noteq> 0}"
    unfolding free_pages_def by (rule card_Un_disjoint) auto
  ultimately show "free_pages A + (\<Sum>s\<in>dom B. the (B s)) = MAX_PAGE" by simp
qed

lemma owns_count:
  assumes "owns A M"
  shows "finite (dom M)" "free_pages A + (\<Sum>p\<in>dom M. the (M p)) = MAX_PAGE"
proof -
  obtain B where B: "alloc_rel A B" "M = block_map A B" using assms by (auto simp: owns_def)
  have d: "dom M = page_addr A ` dom B"
    using block_map_Some[OF B(1)] by (force simp: B(2) dom_def image_iff)
  have inj: "inj_on (page_addr A) (dom B)"
  proof (rule inj_onI)
    fix x y assume "x \<in> dom B" "y \<in> dom B" and e: "page_addr A x = page_addr A y"
    then have "x < MAX_PAGE" "y < MAX_PAGE" using alloc_relD(3)[OF B(1)] by auto
    then show "x = y" using page_addr_inj[OF B(1) e] by simp
  qed
  show "finite (dom M)" using alloc_rel_count(1)[OF B(1)] d by simp
  have "the (M (page_addr A s)) = the (B s)" if "s \<in> dom B" for s
    using block_map_at[OF B(1)] alloc_relD(3)[OF B(1)] that B(2) by auto
  then have "(\<Sum>p\<in>dom M. the (M p)) = (\<Sum>s\<in>dom B. the (B s))"
    unfolding d sum.reindex[OF inj] by (intro sum.cong) auto
  then show "free_pages A + (\<Sum>p\<in>dom M. the (M p)) = MAX_PAGE" using alloc_rel_count(2)[OF B(1)] by simp
qed

lemma owns_count_upd:
  assumes "owns A M" "owns A' (M(p \<mapsto> n))" "M p = None"
  shows "free_pages A = free_pages A' + n"
proof -
  let ?M = "M(p \<mapsto> n)"
  have d: "dom ?M = insert p (dom M)" and p: "p \<notin> dom M" using assms(3) by (auto simp: domIff)
  have "(\<Sum>q\<in>dom ?M. the (?M q)) = the (?M p) + (\<Sum>q\<in>dom M. the (?M q))"
    unfolding d by (rule sum.insert[OF owns_count(1)[OF assms(1)] p])
  moreover have "(\<Sum>q\<in>dom M. the (?M q)) = (\<Sum>q\<in>dom M. the (M q))"
    using assms(3) by (intro sum.cong) auto
  ultimately have "(\<Sum>q\<in>dom ?M. the (?M q)) = n + (\<Sum>q\<in>dom M. the (M q))" by simp
  then show ?thesis using owns_count(2)[OF assms(1)] owns_count(2)[OF assms(2)] by linarith
qed

lemma allocate_page_fails:
  assumes "owns A M" "allocate A PAGE_SIZE = Inl e"
  shows "free_pages A = 0"
proof (rule ccontr)
  assume "free_pages A \<noteq> 0"
  then obtain i where i: "i < MAX_PAGE" "page_allocated A ! i = 0"
    unfolding free_pages_def by (metis (mono_tags, lifting) card.empty empty_Collect_eq)
  obtain B where B: "alloc_rel A B" using assms(1) by (auto simp: owns_def)
  have "room B 1 i" using i alloc_rel_zero[OF B i(1)] by (auto simp: room_def less_Suc_eq)
  define j where "j = (LEAST i. room B 1 i)"
  have j: "room B 1 j" "\<forall>k<j. \<not> room B 1 k"
    using \<open>room B 1 i\<close> not_less_Least by (auto simp: j_def intro: LeastI)
  show False using allocate_fit[OF B _ _ _ j, of PAGE_SIZE] assms(2) by (simp add: pages_for_def)
qed

section \<open>Properties\<close>

text \<open>C4: 
  \<open>allocate\<close> is a first-fit allocator. For a non-empty request that fits in the address
  space it returns the lowest page number from which the required pages are free, and
  the new state is the old one with exactly that block added; if no such run exists it
  panics, with the message of the source or with the bounds check of the inner loop.
\<close>

theorem allocate_first_fit:
  assumes rel: "alloc_rel A B" and sz: "0 < unat sz" "unat sz + 4095 < 2 ^ 64"
  shows "case allocate A sz of
      Inr (A', p) \<Rightarrow> (\<exists>i. room B (pages_for sz) i \<and> (\<forall>j<i. \<not> room B (pages_for sz) j) \<and>
        p = page_addr A i \<and> alloc_rel A' (B(i \<mapsto> pages_for sz)) \<and> base_addr A' = base_addr A)
    | Inl e \<Rightarrow> (\<forall>i. \<not> room B (pages_for sz) i) \<and> e \<in> {Bounds, Panic ''no available page''}"
proof (cases "\<exists>i. room B (pages_for sz) i")
  case True
  define i where "i = (LEAST i. room B (pages_for sz) i)"
  have i: "room B (pages_for sz) i" "\<forall>j<i. \<not> room B (pages_for sz) j"
    using True not_less_Least by (auto simp: i_def intro: LeastI)
  from allocate_fit[OF rel sz(2) refl pages_for_pos[OF sz(1)] i]
  obtain A' where "allocate A sz = Inr (A', page_addr A i)"
    "alloc_rel A' (B(i \<mapsto> pages_for sz))" "base_addr A' = base_addr A" by blast
  with i show ?thesis by auto
next
  case False
  with allocate_nofit[OF rel sz(2)] show ?thesis by auto
qed

theorem allocate_first_fit_witness:
  "\<exists>A'. allocate (Allocator_new\<lparr>base_addr := 0x80100000\<rparr>) 5000 = Inr (A', 0x80100000) \<and>
    alloc_rel A' [0 \<mapsto> 2]"
proof -
  let ?A = "Allocator_new\<lparr>base_addr := 0x80100000\<rparr>"
  have rel: "alloc_rel ?A Map.empty" by (rule alloc_rel_new) (simp_all add: MAX_PAGE_num)
  have pf: "pages_for 5000 = 2" by (simp add: pages_for_def)
  have "room Map.empty 2 0" by (simp add: room_empty MAX_PAGE_num)
  moreover have "i = 0" if "\<forall>j<i. \<not> room Map.empty 2 j" "room Map.empty 2 i" for i
    using that \<open>room Map.empty 2 0\<close> by (metis neq0_conv)
  ultimately show ?thesis
    using allocate_first_fit[OF rel, of 5000]
    by (fastforce simp: pf page_addr_def split: sum.splits prod.splits)
qed

text \<open>C5: 
  Giving back a block right after it was handed out restores the allocator exactly,
  whatever the size of the block.
\<close>

theorem alloc_dealloc_roundtrip:
  assumes rel: "alloc_rel A B" and a: "allocate A sz = Inr (A', p)" and sz: "0 < unat sz"
  shows "deallocate A' p = Inr A"
proof -
  from allocate_cases[OF rel a sz] obtain i where i: "room B (pages_for sz) i" "p = page_addr A i"
    "alloc_rel A' (B(i \<mapsto> pages_for sz))" "base_addr A' = base_addr A" "0 < pages_for sz" by blast
  have "\<not> covered B i" using i by (auto simp: room_def)
  then have Bi: "B i = None" using covered_start[OF rel] by (cases "B i") auto
  have p: "p = page_addr A' i" using i by (simp add: page_addr_def)
  from deallocate_block[OF i(3), of i "pages_for sz"] obtain A'' where
    A'': "deallocate A' p = Inr A''" "alloc_rel A'' ((B(i \<mapsto> pages_for sz))(i := None))"
      "base_addr A'' = base_addr A'" by (auto simp: p)
  moreover have "(B(i \<mapsto> pages_for sz))(i := None) = B" using Bi by auto
  ultimately have "A'' = A" using rel i(4) by (intro alloc_rel_unique) auto
  with A''(1) show ?thesis by simp
qed

lemma alloc_rel_new_example: "alloc_rel (Allocator_new\<lparr>base_addr := 0x80100000\<rparr>) Map.empty"
  by (rule alloc_rel_new) (simp_all add: MAX_PAGE_num)

lemma allocate_new_example:
  assumes "0 < unat sz" "pages_for sz \<le> MAX_PAGE" "unat sz + 4095 < 2 ^ 64"
  shows "\<exists>A'. allocate (Allocator_new\<lparr>base_addr := 0x80100000\<rparr>) sz = Inr (A', 0x80100000) \<and>
    alloc_rel A' [0 \<mapsto> pages_for sz]"
  using allocate_fit[OF alloc_rel_new_example assms(3) refl pages_for_pos[OF assms(1)], of 0] assms(2)
  by (auto simp: room_empty page_addr_def)

theorem alloc_dealloc_roundtrip_witness:
  "\<exists>A' p. allocate (Allocator_new\<lparr>base_addr := 0x80100000\<rparr>) 5000 = Inr (A', p) \<and>
     deallocate A' p = Inr (Allocator_new\<lparr>base_addr := 0x80100000\<rparr>)"
proof -
  obtain A' where A': "allocate (Allocator_new\<lparr>base_addr := 0x80100000\<rparr>) 5000 = Inr (A', 0x80100000)"
    using allocate_new_example[of 5000] by (auto simp: pages_for_def MAX_PAGE_num)
  show ?thesis using A' alloc_dealloc_roundtrip[OF alloc_rel_new_example A'] by auto
qed

text \<open>A new block never overlaps a block that is still handed out.
\<close>

theorem allocations_never_overlap:
  assumes "owns A M" "allocate A sz = Inr (A', p)" "0 < unat sz" "M q = Some n"
  shows "unat p + pages_for sz * 4096 \<le> unat q \<or> unat q + n * 4096 \<le> unat p"
  using assms by (rule fs.alloc_apart)

lemma owns_example: "owns (Allocator_new\<lparr>base_addr := 0x80100000\<rparr>) Map.empty"
  unfolding owns_def using alloc_rel_new_example
  by (intro exI[of _ Map.empty]) (simp add: block_map_def fun_eq_iff)

theorem allocations_never_overlap_witness:
  "\<exists>A1 A2 p q. allocate (Allocator_new\<lparr>base_addr := 0x80100000\<rparr>) 4096 = Inr (A1, q) \<and>
    allocate A1 8192 = Inr (A2, p) \<and> (unat p + 8192 \<le> unat q \<or> unat q + 4096 \<le> unat p)"
proof -
  let ?A = "Allocator_new\<lparr>base_addr := 0x80100000\<rparr>"
  obtain A1 where A1: "allocate ?A 4096 = Inr (A1, 0x80100000)" "alloc_rel A1 [0 \<mapsto> 1]"
    using allocate_new_example[of 4096] by (auto simp: pages_for_def MAX_PAGE_num)
  have own: "owns A1 [0x80100000 \<mapsto> 1]"
    using fs.alloc_new[OF owns_example A1(1)] by (simp add: pages_for_def)
  have r: "room [0 \<mapsto> 1] 2 1" by (auto simp: room_def covered_def MAX_PAGE_num split: if_splits)
  moreover have "\<not> room [0 \<mapsto> 1] 2 0"
    by (auto simp: room_def covered_def intro!: exI[of _ "0 :: nat"])
  ultimately obtain A2 where A2: "allocate A1 8192 = Inr (A2, page_addr A1 1)"
    using allocate_fit[OF A1(2), of 8192 2 1] by (auto simp: pages_for_def)
  show ?thesis
    using A1(1) A2 allocations_never_overlap[OF own A2, where q = "0x80100000" and n = 1]
    by (auto simp: pages_for_def)
qed

text \<open>Freeing the same block twice in a row is harmless: the second call reads stride 0 and
  changes nothing (nothing else was allocated in between).
\<close>

theorem double_free_is_noop:
  assumes rel: "alloc_rel A B" and B: "B i = Some n"
  shows "\<exists>A'. deallocate A (page_addr A i) = Inr A' \<and> deallocate A' (page_addr A i) = Inr A'"
proof -
  from deallocate_block[OF rel B] obtain A' where A': "deallocate A (page_addr A i) = Inr A'"
    "alloc_rel A' (B(i := None))" "base_addr A' = base_addr A" by blast
  have i: "i < MAX_PAGE" by (rule alloc_relD(3)[OF rel B])
  have len: "length (page_allocated A') = MAX_PAGE" using A'(2) by (simp add: alloc_rel_def)
  have "\<not> covered (B(i := None)) i"
  proof
    assume "covered (B(i := None)) i"
    then obtain s m where "B s = Some m" "s \<noteq> i" "s \<le> i" "i < s + m"
      by (auto simp: covered_def split: if_splits)
    with alloc_rel_sep[OF rel, of s m i n] B show False by simp
  qed
  then have "page_allocated A' ! i = 0" using alloc_rel_zero[OF A'(2) i] by simp
  moreover have "page_addr A i = page_addr A' i" using A'(3) by (simp add: page_addr_def)
  ultimately have "deallocate A' (page_addr A i) = Inr A'"
    using i by (simp add: deallocate_def offset_page_of_ok[OF A'(2)] unat_of_nat_page len)
  with A'(1) show ?thesis by blast
qed

theorem double_free_is_noop_witness:
  "\<exists>A A'. allocate (Allocator_new\<lparr>base_addr := 0x80100000\<rparr>) 4096 = Inr (A, 0x80100000) \<and>
    deallocate A 0x80100000 = Inr A' \<and> deallocate A' 0x80100000 = Inr A'"
proof -
  obtain A where A: "allocate (Allocator_new\<lparr>base_addr := 0x80100000\<rparr>) 4096 = Inr (A, 0x80100000)"
    "alloc_rel A [0 \<mapsto> pages_for 4096]"
    using allocate_new_example[of 4096] by (auto simp: pages_for_def MAX_PAGE_num)
  from allocate_cases[OF alloc_rel_new_example A(1)] have "base_addr A = 0x80100000" by auto
  then have "page_addr A 0 = 0x80100000" by (simp add: page_addr_def)
  then show ?thesis using double_free_is_noop[OF A(2), of 0 "pages_for 4096"] A(1) by auto
qed

text \<open>C6: 
  \<open>MAX_PAGE\<close> counts the pages of the whole RAM, but pages are numbered from the start of
  the heap, which lies above the kernel image. Once the pages up to the end of RAM
  (0x88000000, \<open>kernel.ld\<close>) are taken, the next request does not panic: it returns the
  first address beyond the RAM.
\<close>

theorem allocate_beyond_ram:
  assumes rel: "alloc_rel A B" and H: "page_addr A H = 0x88000000" "H < MAX_PAGE"
    and full: "\<forall>k<H. covered B k" and tail: "\<forall>k\<ge>H. \<not> covered B k"
  shows "\<exists>A'. allocate A PAGE_SIZE = Inr (A', 0x88000000)"
proof -
  have r: "room B 1 H" using H(2) tail by (simp add: room_def)
  have "\<forall>j<H. \<not> room B 1 j" using full by (auto simp: room_def)
  from allocate_fit[OF rel _ _ _ r this, of PAGE_SIZE] show ?thesis
    by (auto simp: pages_for_def H(1))
qed

theorem allocate_beyond_ram_witness:
  "\<exists>A'. allocate \<lparr>page_allocated = replicate 32512 32512 @ replicate 256 0, base_addr = 0x80100000\<rparr>
      PAGE_SIZE = Inr (A', 0x88000000)"
proof -
  let ?A = "\<lparr>page_allocated = replicate 32512 32512 @ replicate 256 0, base_addr = 0x80100000\<rparr> :: Allocator"
  have rel: "alloc_rel ?A [0 \<mapsto> 32512]"
    by (auto simp: alloc_rel_def MAX_PAGE_num nth_append split: if_splits)
  have c: "covered [0 \<mapsto> 32512] k \<longleftrightarrow> k < 32512" for k
    by (auto simp: covered_def split: if_splits)
  show ?thesis
    by (rule allocate_beyond_ram[OF rel, of 32512]) (simp_all add: page_addr_def MAX_PAGE_num c)
qed

text \<open>\<open>align_val\<close> rounds up to the least multiple of \<open>2 ^ k\<close>; it panics exactly when the
  addition overflows.
\<close>

theorem align_val_least:
  assumes "k < 64"
  shows "case align_val v k of
      Inr r \<Rightarrow> 2 ^ k dvd unat r \<and> unat v \<le> unat r \<and> unat r < unat v + 2 ^ k
    | Inl p \<Rightarrow> p = Overflow \<and> 2 ^ 64 \<le> unat v + (2 ^ k - 1)"
proof (cases "align_val v k")
  case (Inl p)
  then have "\<not> unat v + (2 ^ k - 1) < 2 ^ 64"
    using align_val_ok_iff[of v k] assms by auto
  moreover have "p = Overflow"
    using Inl assms by (auto simp: align_val_def add_chk_def rif_def Let_def split: if_splits)
  ultimately show ?thesis using Inl by simp
next
  case (Inr r)
  define m where "m = (2 :: nat) ^ k"
  have "0 < m" by (simp add: m_def)
  have r: "unat r = (unat v + (m - 1)) div m * m"
    using align_val_unat[OF Inr] by (simp add: m_def)
  have "unat r + (unat v + (m - 1)) mod m = unat v + (m - 1)"
    using div_mult_mod_eq[of "unat v + (m - 1)" m] by (simp add: r)
  moreover have "(unat v + (m - 1)) mod m < m" using \<open>0 < m\<close> by simp
  ultimately have "unat v \<le> unat r \<and> unat r < unat v + m"
    using \<open>0 < m\<close> by linarith
  moreover have "m dvd unat r" by (simp add: r)
  ultimately show ?thesis using Inr by (simp add: m_def)
qed

theorem align_val_least_witness:
  "align_val 5000 12 = Inr 8192 \<and> 2 ^ 12 dvd unat (8192 :: usize)"
proof -
  have e: "align_val 5000 12 = Inr 8192"
    by (simp add: align_val_def add_chk_def)
  show ?thesis using align_val_least[of 12 5000] e by simp
qed

text \<open>\<open>Allocator::debug\<close> returns, and prints exactly the allocated blocks, in increasing
  order, each with its address range.
\<close>

theorem debug_lists_blocks:
  assumes "alloc_rel A B"
  shows "\<exists>lines. debug arr A = Inr lines \<and> sorted_wrt (<) (map fst lines) \<and>
    set lines = {debug_line arr A s n |s n. B s = Some n}"
proof -
  have "\<exists>lines. debug_loop arr A (of_nat 0) = Inr lines \<and> debug_lists arr A B 0 lines"
    using assms by (intro debug_loop_lists) (simp_all add: MAX_PAGE_num)
  then show ?thesis by (auto simp: debug_def debug_lists_def)
qed

theorem debug_lists_blocks_witness:
  "\<exists>A lines. allocate (Allocator_new\<lparr>base_addr := 0x80100000\<rparr>) 5000 = Inr (A, 0x80100000) \<and>
     debug 0 A = Inr lines \<and> set lines = {debug_line 0 A 0 2}"
proof -
  obtain A where A: "allocate (Allocator_new\<lparr>base_addr := 0x80100000\<rparr>) 5000 = Inr (A, 0x80100000)"
    "alloc_rel A [0 \<mapsto> 2]"
    using allocate_new_example[of 5000] by (auto simp: pages_for_def MAX_PAGE_num)
  from debug_lists_blocks[OF A(2), of 0] obtain lines where
    "debug 0 A = Inr lines" "set lines = {debug_line 0 A s n |s n. [0 \<mapsto> 2] s = Some n}" by blast
  moreover have "[0 \<mapsto> 2] s = Some n \<longleftrightarrow> s = (0 :: nat) \<and> n = (2 :: nat)" for s n
    by auto
  ultimately show ?thesis using A(1) by (intro exI[of _ A] exI[of _ lines]) simp
qed

end
