(* ===== verification/Arch.thy ===== *)
theory Arch
  imports Symbols
begin

text \<open>
  \<open>kernel/src/arch.rs\<close>: the registers of a hart that the kernel reads and writes, the
  interrupt switches and the layout of \<open>satp\<close>. Inline assembly (\<open>csrr\<close>, \<open>csrw\<close>, \<open>mv\<close>) is
  the machine itself and is modelled on the registers directly. The accessors of the
  \<open>riscv\<close> crate are not part of the sources: they are the fields of a record \<open>riscv\<close>
  that every definition using them takes as its first argument, and \<open>riscv_ok\<close> states
  what the crate documents of them.
\<close>

section \<open>Registers\<close>

record hart =
  tp :: usize
  satp :: usize
  sip :: usize
  sie_reg :: usize
  sstatus :: usize
  sepc :: usize
  scause :: usize
  stval :: usize
  stvec :: usize

datatype SPP = Supervisor | User

record riscv =
  sstatus_sie :: "hart \<Rightarrow> bool"
  sstatus_spp :: "hart \<Rightarrow> SPP"
  sstatus_set_sie :: "hart \<Rightarrow> hart"
  sstatus_clear_sie :: "hart \<Rightarrow> hart"
  sstatus_set_spie :: "hart \<Rightarrow> hart"
  sstatus_set_spp :: "SPP \<Rightarrow> hart \<Rightarrow> hart"
  sie_set_sext :: "hart \<Rightarrow> hart"
  sie_set_ssoft :: "hart \<Rightarrow> hart"
  sie_set_stimer :: "hart \<Rightarrow> hart"
  stvec_write :: "usize \<Rightarrow> hart \<Rightarrow> hart"
  sepc_write :: "usize \<Rightarrow> hart \<Rightarrow> hart"
  sepc_read :: "hart \<Rightarrow> usize"
  stval_read :: "hart \<Rightarrow> usize"
  scause_bits :: "hart \<Rightarrow> usize"
  scause_is_interrupt :: "hart \<Rightarrow> bool"
  scause_code :: "hart \<Rightarrow> usize"

section \<open>Operations\<close>

text \<open>\<open>time\<close>: the counter runs at 10 MHz, so a tick is 100 ns.\<close>

definition time :: "u64 \<Rightarrow> u64 res" where
  "time mtime = mul_chk mtime 100"

definition build_satp :: "usize \<Rightarrow> usize \<Rightarrow> usize \<Rightarrow> usize res" where
  "build_satp mode asid addr =
     rif (addr mod PAGE_SIZE \<noteq> 0) (Panic ''satp not aligned!'')
       (Inr ((push_bit 60 mode OR push_bit 44 (asid AND 0xffff)) OR (drop_bit 12 addr AND 0xffffffffff)))"

definition intr_on :: "riscv \<Rightarrow> hart \<Rightarrow> hart" where
  "intr_on R h =
     sstatus_set_sie R (sie_set_stimer R (sie_set_ssoft R (sie_set_sext R h)))"

definition intr_off :: "riscv \<Rightarrow> hart \<Rightarrow> hart" where
  "intr_off R h = sstatus_clear_sie R h"

definition intr_get :: "riscv \<Rightarrow> hart \<Rightarrow> bool" where
  "intr_get R h = sstatus_sie R h"

definition hart_id :: "hart \<Rightarrow> usize" where
  "hart_id h = tp h"

definition r_sip :: "hart \<Rightarrow> usize" where
  "r_sip h = sip h"

definition w_sip :: "usize \<Rightarrow> hart \<Rightarrow> hart" where
  "w_sip x h = h\<lparr>sip := x\<rparr>"

definition r_sstatus :: "hart \<Rightarrow> usize" where
  "r_sstatus h = sstatus h"

definition r_satp :: "hart \<Rightarrow> usize" where
  "r_satp h = satp h"

definition w_sstatus :: "usize \<Rightarrow> hart \<Rightarrow> hart" where
  "w_sstatus x h = h\<lparr>sstatus := x\<rparr>"

text \<open>
  \<open>amoswap.w.aq\<close> and \<open>amoswap.w zero\<close> on a lock word: the old value and the new word.
\<close>

definition sync_lock_test_and_set :: "u32 \<Rightarrow> u32 \<Rightarrow> u32 \<times> u32" where
  "sync_lock_test_and_set a b = (a, b)"

definition sync_lock_release :: "u32 \<Rightarrow> u32" where
  "sync_lock_release a = 0"

section \<open>What the crate documents\<close>

text \<open>
  Bit positions of the privileged architecture: SIE is bit 1, SPIE bit 5 and SPP bit 8 of
  \<open>sstatus\<close>; SSIE, STIE and SEIE are bits 1, 5 and 9 of \<open>sie\<close>; bit 63 of \<open>scause\<close> marks an
  interrupt; in direct mode \<open>stvec\<close> holds the handler's address.
\<close>

definition riscv_ok :: "riscv \<Rightarrow> bool" where
  "riscv_ok R \<longleftrightarrow>
     (\<forall>h. sstatus_sie R h = bit (sstatus h) 1) \<and>
     (\<forall>h. sstatus_spp R h = (if bit (sstatus h) 8 then Supervisor else User)) \<and>
     (\<forall>h. sstatus_set_sie R h = h\<lparr>sstatus := set_bit 1 (sstatus h)\<rparr>) \<and>
     (\<forall>h. sstatus_clear_sie R h = h\<lparr>sstatus := unset_bit 1 (sstatus h)\<rparr>) \<and>
     (\<forall>h. sstatus_set_spie R h = h\<lparr>sstatus := set_bit 5 (sstatus h)\<rparr>) \<and>
     (\<forall>p h. sstatus_set_spp R p h =
        h\<lparr>sstatus := (if p = Supervisor then set_bit 8 (sstatus h) else unset_bit 8 (sstatus h))\<rparr>) \<and>
     (\<forall>h. sie_set_sext R h = h\<lparr>sie_reg := set_bit 9 (sie_reg h)\<rparr>) \<and>
     (\<forall>h. sie_set_ssoft R h = h\<lparr>sie_reg := set_bit 1 (sie_reg h)\<rparr>) \<and>
     (\<forall>h. sie_set_stimer R h = h\<lparr>sie_reg := set_bit 5 (sie_reg h)\<rparr>) \<and>
     (\<forall>a h. stvec_write R a h = h\<lparr>stvec := a\<rparr>) \<and>
     (\<forall>a h. sepc_write R a h = h\<lparr>sepc := a\<rparr>) \<and>
     (\<forall>h. sepc_read R h = sepc h) \<and>
     (\<forall>h. stval_read R h = stval h) \<and>
     (\<forall>h. scause_bits R h = scause h) \<and>
     (\<forall>h. scause_is_interrupt R h = bit (scause h) 63) \<and>
     (\<forall>h. scause_code R h = unset_bit 63 (scause h))"

text \<open>A concrete crate with the documented behaviour, for witnesses.\<close>

definition riscv_documented :: riscv where
  "riscv_documented = \<lparr>
     sstatus_sie = (\<lambda>h. bit (sstatus h) 1),
     sstatus_spp = (\<lambda>h. if bit (sstatus h) 8 then Supervisor else User),
     sstatus_set_sie = (\<lambda>h. h\<lparr>sstatus := set_bit 1 (sstatus h)\<rparr>),
     sstatus_clear_sie = (\<lambda>h. h\<lparr>sstatus := unset_bit 1 (sstatus h)\<rparr>),
     sstatus_set_spie = (\<lambda>h. h\<lparr>sstatus := set_bit 5 (sstatus h)\<rparr>),
     sstatus_set_spp = (\<lambda>p h. h\<lparr>sstatus := (if p = Supervisor then set_bit 8 (sstatus h)
        else unset_bit 8 (sstatus h))\<rparr>),
     sie_set_sext = (\<lambda>h. h\<lparr>sie_reg := set_bit 9 (sie_reg h)\<rparr>),
     sie_set_ssoft = (\<lambda>h. h\<lparr>sie_reg := set_bit 1 (sie_reg h)\<rparr>),
     sie_set_stimer = (\<lambda>h. h\<lparr>sie_reg := set_bit 5 (sie_reg h)\<rparr>),
     stvec_write = (\<lambda>a h. h\<lparr>stvec := a\<rparr>),
     sepc_write = (\<lambda>a h. h\<lparr>sepc := a\<rparr>),
     sepc_read = sepc,
     stval_read = stval,
     scause_bits = scause,
     scause_is_interrupt = (\<lambda>h. bit (scause h) 63),
     scause_code = (\<lambda>h. unset_bit 63 (scause h))\<rparr>"

section \<open>Lemmas\<close>

lemma riscv_documented_ok: "riscv_ok riscv_documented"
  by (simp add: riscv_ok_def riscv_documented_def)

lemma intr_get_intr_on [simp]: "riscv_ok R \<Longrightarrow> intr_get R (intr_on R h)"
  by (simp add: riscv_ok_def intr_get_def intr_on_def bit_simps)

lemma intr_get_intr_off [simp]: "riscv_ok R \<Longrightarrow> \<not> intr_get R (intr_off R h)"
  by (simp add: riscv_ok_def intr_get_def intr_off_def bit_simps)

lemma hart_id_intr [simp]:
  "riscv_ok R \<Longrightarrow> hart_id (intr_on R h) = hart_id h"
  "riscv_ok R \<Longrightarrow> hart_id (intr_off R h) = hart_id h"
  by (simp_all add: riscv_ok_def intr_on_def intr_off_def hart_id_def)

lemma intr_off_idem:
  assumes "riscv_ok R" "\<not> intr_get R h"
  shows "intr_off R h = h"
proof -
  have "unset_bit 1 (sstatus h) = sstatus h"
    using assms by (intro bit_word_eqI) (auto simp: riscv_ok_def intr_get_def bit_simps)
  then show ?thesis using assms by (simp add: riscv_ok_def intr_off_def)
qed

lemma sstatus_intr_on_off:
  assumes "riscv_ok R" "intr_get R h"
  shows "sstatus (intr_on R (intr_off R h)) = sstatus h"
  using assms
  by (intro bit_word_eqI) (auto simp: riscv_ok_def intr_get_def intr_on_def intr_off_def bit_simps)

lemma build_satp_parts:
  assumes "unat mode < 16" "addr mod PAGE_SIZE = 0" "unat addr < 2 ^ 52"
  shows "\<exists>s. build_satp mode asid addr = Inr s \<and> drop_bit 60 s = mode \<and>
    take_bit 16 (drop_bit 44 s) = take_bit 16 asid \<and> push_bit 12 (take_bit 44 s) = addr"
proof -
  have m: "take_bit 4 mode = mode" using assms(1) by (simp add: word_unat_eq_iff unsigned_take_bit_eq take_bit_nat_eq_self)
  have a: "take_bit 52 addr = addr" using assms(3) by (simp add: word_unat_eq_iff unsigned_take_bit_eq take_bit_nat_eq_self)
  have al: "take_bit 12 addr = 0" using assms(2) by (simp add: consts_simps take_bit_eq_mod)
  have nums: "(0xffff :: usize) = mask 16" "(0xffffffffff :: usize) = mask 40" by (simp_all add: mask_eq_exp_minus_1)
  have mb: "bit mode k \<Longrightarrow> k < 4" for k by (metis m bit_take_bit_iff)
  have ab: "bit addr k \<Longrightarrow> 12 \<le> k \<and> k < 52" for k
    by (metis a al bit_take_bit_iff bit_0_eq bot_apply bot_bool_def linorder_not_less)
  let ?s = "(push_bit 60 mode OR push_bit 44 (asid AND 0xffff)) OR (drop_bit 12 addr AND 0xffffffffff)"
  have "drop_bit 60 ?s = mode" unfolding nums
    by (rule bit_word_eqI) (auto simp: bit_simps dest: mb ab)
  moreover have "take_bit 16 (drop_bit 44 ?s) = take_bit 16 asid" unfolding nums
    by (rule bit_word_eqI) (auto simp: bit_simps dest: mb ab)
  moreover have "push_bit 12 (take_bit 44 ?s) = addr" unfolding nums
  proof (rule bit_word_eqI)
    fix n :: nat
    show "bit (push_bit 12 (take_bit 44 ((push_bit 60 mode OR push_bit 44 (asid AND mask 16)) OR (drop_bit 12 addr AND mask 40)))) n = bit addr n"
    proof (cases "12 \<le> n")
      case True
      then obtain k where "n = 12 + k" using le_Suc_ex by blast
      then show ?thesis by (auto simp: bit_simps dest: mb ab)
    next
      case False
      then show ?thesis by (auto simp: bit_simps dest: ab)
    qed
  qed
  ultimately show ?thesis using assms(2) by (simp add: build_satp_def)
qed

section \<open>Properties\<close>

text \<open>\<open>build_satp\<close> packs its arguments into the fields of the \<open>satp\<close> register: mode, address
  space and page number can be read back, for page tables below 4 PiB; an unaligned table
  address panics.
\<close>

theorem build_satp_fields:
  assumes "unat mode < 16" "addr mod PAGE_SIZE = 0" "unat addr < 2 ^ 52"
  shows "\<exists>s. build_satp mode asid addr = Inr s \<and> drop_bit 60 s = mode \<and>
    take_bit 16 (drop_bit 44 s) = take_bit 16 asid \<and> push_bit 12 (take_bit 44 s) = addr"
  using assms by (rule build_satp_parts)

theorem build_satp_fields_witness:
  "\<exists>s. build_satp 8 0 0x80017000 = Inr s \<and> drop_bit 60 s = 8 \<and> push_bit 12 (take_bit 44 s) = 0x80017000"
  using build_satp_fields[of 8 "0x80017000" 0] by (auto simp: consts_simps)

end
