(* ===== verification/Locks.thy ===== *)
theory Locks
  imports Arch
begin

text \<open>
  The interrupt lock of \<open>process/cpu.rs\<close> and the spinlock of \<open>spinlock.rs\<close>. The first half
  is the sequential behaviour of each operation; the second half runs the instructions of
  \<open>Mutex::lock\<close> and of the guard's \<open>drop\<close> on all harts at once, one shared access per
  step, and proves mutual exclusion, the absence of panics and that a critical section
  behaves as if it ran alone.
\<close>

section \<open>The interrupt lock\<close>

record IntrLock =
  is_enabled_before :: bool
  cnt :: int
  il_hart_id :: usize

definition IntrLock_new :: IntrLock where
  "IntrLock_new = \<lparr>is_enabled_before = False, cnt = 0, il_hart_id = 23333\<rparr>"

definition IntrLock_lock :: "riscv \<Rightarrow> hart \<times> IntrLock \<Rightarrow> (hart \<times> IntrLock) res" where
  "IntrLock_lock R = (\<lambda>(h, l).
     let enabled = intr_get R h; h' = intr_off R h
     in rbind
          (if cnt l = 0 then Inr (l\<lparr>is_enabled_before := enabled, il_hart_id := hart_id h'\<rparr>)
           else rif enabled (Panic ''lock held but intr enabled'')
                 (rif (il_hart_id l \<noteq> hart_id h') (Panic ''lock on different hart'') (Inr l)))
          (\<lambda>l'. rif (2 ^ 63 \<le> cnt l' + 1) Overflow (Inr (h', l'\<lparr>cnt := cnt l' + 1\<rparr>))))"

definition IntrLockGuard_drop :: "riscv \<Rightarrow> hart \<times> IntrLock \<Rightarrow> (hart \<times> IntrLock) res" where
  "IntrLockGuard_drop R = (\<lambda>(h, l).
     rif (intr_get R h) (Panic ''{} intr enabled'')
       (rif (hart_id h \<noteq> il_hart_id l) (Panic ''unlock on different hart'')
         (rif (cnt l - 1 < - (2 ^ 63)) Overflow
           (let l' = l\<lparr>cnt := cnt l - 1\<rparr>;
                h' = (if cnt l' = 0 \<and> is_enabled_before l' then intr_on R h else h)
            in rif (cnt l' < 0) (Panic ''cnt < 0'') (Inr (h', l'))))))"

section \<open>The spinlock, one operation at a time\<close>

record 'a Mutex =
  m_lock :: u32
  m_name :: string
  m_hart :: i64
  m_data :: 'a

definition Mutex_new :: "'a \<Rightarrow> string \<Rightarrow> 'a Mutex" where
  "Mutex_new user_data nm = \<lparr>m_lock = 0, m_name = nm, m_hart = -1, m_data = user_data\<rparr>"

definition into_inner :: "'a Mutex \<Rightarrow> 'a" where
  "into_inner m = m_data m"

text \<open>
  \<open>obtain_lock\<close> spins on the lock word. \<open>None\<close> is one more turn of a loop that no other
  hart can end.
\<close>

definition obtain_lock :: "'a Mutex \<Rightarrow> 'a Mutex option" where
  "obtain_lock m =
     (let (old, new) = sync_lock_test_and_set (m_lock m) 1
      in if old \<noteq> 0 then None else Some (m\<lparr>m_lock := new\<rparr>))"

definition Mutex_holding :: "riscv \<Rightarrow> hart \<times> IntrLock \<Rightarrow> 'a Mutex \<Rightarrow> ((hart \<times> IntrLock) \<times> bool) res" where
  "Mutex_holding R c m =
     rbind (IntrLock_lock R c) (\<lambda>c1.
       let b = (m_lock m = 1 \<and> m_hart m = hart_id (fst c1))
       in rbind (IntrLockGuard_drop R c1) (\<lambda>c2. Inr (c2, b)))"

definition Mutex_lock :: "riscv \<Rightarrow> hart \<times> IntrLock \<Rightarrow> 'a Mutex \<Rightarrow> ((hart \<times> IntrLock) \<times> 'a Mutex) option res" where
  "Mutex_lock R c m =
     rbind (IntrLock_lock R c) (\<lambda>c1.
     rbind (Mutex_holding R c1 m) (\<lambda>(c2, held).
       rif held (Panic ''lock {}: hart {} already holding the lock!'')
         (case obtain_lock m of
            None \<Rightarrow> Inr None
          | Some m' \<Rightarrow>
              rif (m_lock m' \<noteq> 1) (Panic ''lock {}: not locked!'')
                (Inr (Some (c2, m'\<lparr>m_hart := hart_id (fst c2)\<rparr>))))))"

text \<open>
  Dropping a \<open>MutexGuard\<close> runs its \<open>drop\<close> and then drops its \<open>intr_lock\<close> field. A weak
  guard is the mutex itself: \<open>into_weak\<close> drops the guard, \<open>into_guard\<close> locks again.
\<close>

definition MutexGuard_drop :: "riscv \<Rightarrow> hart \<times> IntrLock \<Rightarrow> 'a Mutex \<Rightarrow> ((hart \<times> IntrLock) \<times> 'a Mutex) res" where
  "MutexGuard_drop R c m =
     rbind (Mutex_holding R c m) (\<lambda>(c1, held).
       rif (\<not> held) (Panic ''lock {}: unlock from another hart {}!'')
         (let m' = m\<lparr>m_hart := -1\<rparr>; m'' = m'\<lparr>m_lock := sync_lock_release (m_lock m')\<rparr>
          in rbind (IntrLockGuard_drop R c1) (\<lambda>c2. Inr (c2, m''))))"

definition into_weak :: "riscv \<Rightarrow> hart \<times> IntrLock \<Rightarrow> 'a Mutex \<Rightarrow> ((hart \<times> IntrLock) \<times> 'a Mutex) res" where
  "into_weak R c m = MutexGuard_drop R c m"

definition into_guard :: "riscv \<Rightarrow> hart \<times> IntrLock \<Rightarrow> 'a Mutex \<Rightarrow> ((hart \<times> IntrLock) \<times> 'a Mutex) option res" where
  "into_guard R c m = Mutex_lock R c m"

section \<open>The spinlock on all harts\<close>

text \<open>
  The same code as a program of single steps: every step of hart \<open>i\<close> is one access to shared
  memory (the lock word, the hart field, the data) or one call on the hart's own interrupt
  lock, and the steps of the harts interleave freely. \<open>L_\<close> locations belong to \<open>Mutex::lock\<close>,
  \<open>U_\<close> locations to the guard's \<open>drop\<close>; the \<open>Hold\<close>, \<open>Read\<close>, \<open>ReadHart\<close> and \<open>HoldEnd\<close> locations of
  each are the call of \<open>holding\<close>. The work under the guard is a list of updates of the data,
  one per step. A hart in \<open>Crit\<close> may also call \<open>lock\<close> again, which the code answers with a
  panic. The fences of the source (\<open>__sync_synchronize\<close>) make the interleaving of single
  accesses the right memory model for the lock.
\<close>

datatype lpc =
    Idle
  | L_Hold | L_Read | L_ReadHart | L_HoldEnd bool
  | L_Spin | L_Check | L_SetHart
  | Crit
  | U_Hold | U_Read | U_ReadHart | U_HoldEnd bool
  | U_Clear | U_Release | U_Intr
  | Stopped panic

primrec run_section :: "('d \<Rightarrow> 'd) list \<Rightarrow> 'd \<Rightarrow> 'd" where
  "run_section [] d = d"
| "run_section (f # fs) d = run_section fs (f d)"

record 'd locksys =
  s_lock :: u32
  s_hart :: i64
  s_data :: 'd
  s_abs :: 'd
  s_cpu :: "nat \<Rightarrow> hart \<times> IntrLock"
  s_pc :: "nat \<Rightarrow> lpc"
  s_own :: "nat \<Rightarrow> bool"
  s_prog :: "nat \<Rightarrow> ('d \<Rightarrow> 'd) list"

definition goto :: "nat \<Rightarrow> lpc \<Rightarrow> 'd locksys \<Rightarrow> 'd locksys" where
  "goto i l s = s\<lparr>s_pc := (s_pc s)(i := l)\<rparr>"

definition intr_call :: "nat \<Rightarrow> (hart \<times> IntrLock) res \<Rightarrow> lpc \<Rightarrow> 'd locksys \<Rightarrow> 'd locksys" where
  "intr_call i r l s =
     (case r of Inl p \<Rightarrow> goto i (Stopped p) s
      | Inr c \<Rightarrow> goto i l (s\<lparr>s_cpu := (s_cpu s)(i := c)\<rparr>))"

definition my_id :: "nat \<Rightarrow> 'd locksys \<Rightarrow> usize" where
  "my_id i s = hart_id (fst (s_cpu s i))"

inductive lock_step :: "riscv \<Rightarrow> ('d \<Rightarrow> 'd) list set \<Rightarrow> nat \<Rightarrow> 'd locksys \<Rightarrow> 'd locksys \<Rightarrow> bool"
  for R :: riscv and secs :: "('d \<Rightarrow> 'd) list set" and i :: nat where
  call_lock: "s_pc s i = Idle \<or> s_pc s i = Crit \<Longrightarrow>
    lock_step R secs i s (intr_call i (IntrLock_lock R (s_cpu s i)) L_Hold s)"
| hold_intr: "s_pc s i = L_Hold \<Longrightarrow>
    lock_step R secs i s (intr_call i (IntrLock_lock R (s_cpu s i)) L_Read s)"
| hold_read: "s_pc s i = L_Read \<Longrightarrow>
    lock_step R secs i s (goto i (if s_lock s = 1 then L_ReadHart else L_HoldEnd False) s)"
| hold_read_hart: "s_pc s i = L_ReadHart \<Longrightarrow>
    lock_step R secs i s (goto i (L_HoldEnd (s_hart s = my_id i s)) s)"
| hold_end: "s_pc s i = L_HoldEnd b \<Longrightarrow>
    lock_step R secs i s (intr_call i (IntrLockGuard_drop R (s_cpu s i))
      (if b then Stopped (Panic ''lock {}: hart {} already holding the lock!'') else L_Spin) s)"
| spin: "s_pc s i = L_Spin \<Longrightarrow> sync_lock_test_and_set (s_lock s) 1 = (old, new) \<Longrightarrow>
    lock_step R secs i s (goto i (if old \<noteq> 0 then L_Spin else L_Check) (s\<lparr>s_lock := new\<rparr>))"
| check: "s_pc s i = L_Check \<Longrightarrow>
    lock_step R secs i s (goto i (if s_lock s \<noteq> 1 then Stopped (Panic ''lock {}: not locked!'') else L_SetHart) s)"
| set_hart: "s_pc s i = L_SetHart \<Longrightarrow> p \<in> secs \<Longrightarrow>
    lock_step R secs i s (goto i Crit (s\<lparr>s_hart := my_id i s, s_own := (s_own s)(i := True),
      s_prog := (s_prog s)(i := p), s_abs := run_section p (s_abs s)\<rparr>))"
| work: "s_pc s i = Crit \<Longrightarrow> s_prog s i = f # fs \<Longrightarrow>
    lock_step R secs i s (s\<lparr>s_data := f (s_data s), s_prog := (s_prog s)(i := fs)\<rparr>)"
| drop_guard: "s_pc s i = Crit \<Longrightarrow> s_prog s i = [] \<Longrightarrow>
    lock_step R secs i s (goto i U_Hold s)"
| drop_intr: "s_pc s i = U_Hold \<Longrightarrow>
    lock_step R secs i s (intr_call i (IntrLock_lock R (s_cpu s i)) U_Read s)"
| drop_read: "s_pc s i = U_Read \<Longrightarrow>
    lock_step R secs i s (goto i (if s_lock s = 1 then U_ReadHart else U_HoldEnd False) s)"
| drop_read_hart: "s_pc s i = U_ReadHart \<Longrightarrow>
    lock_step R secs i s (goto i (U_HoldEnd (s_hart s = my_id i s)) s)"
| drop_end: "s_pc s i = U_HoldEnd b \<Longrightarrow>
    lock_step R secs i s (intr_call i (IntrLockGuard_drop R (s_cpu s i))
      (if b then U_Clear else Stopped (Panic ''lock {}: unlock from another hart {}!'')) s)"
| clear_hart: "s_pc s i = U_Clear \<Longrightarrow>
    lock_step R secs i s (goto i U_Release (s\<lparr>s_hart := -1\<rparr>))"
| release: "s_pc s i = U_Release \<Longrightarrow>
    lock_step R secs i s (goto i U_Intr (s\<lparr>s_lock := sync_lock_release (s_lock s), s_own := (s_own s)(i := False)\<rparr>))"
| drop_field: "s_pc s i = U_Intr \<Longrightarrow>
    lock_step R secs i s (intr_call i (IntrLockGuard_drop R (s_cpu s i)) Idle s)"

definition lock_init :: "'d \<Rightarrow> (nat \<Rightarrow> hart) \<Rightarrow> 'd locksys" where
  "lock_init d hs = \<lparr>s_lock = 0, s_hart = -1, s_data = d, s_abs = d,
     s_cpu = (\<lambda>i. (hs i, IntrLock_new)), s_pc = (\<lambda>_. Idle), s_own = (\<lambda>_. False), s_prog = (\<lambda>_. [])\<rparr>"

inductive lock_reach :: "riscv \<Rightarrow> ('d \<Rightarrow> 'd) list set \<Rightarrow> 'd \<Rightarrow> 'd locksys \<Rightarrow> bool"
  for R :: riscv and secs :: "('d \<Rightarrow> 'd) list set" and d :: 'd where
  start: "(\<forall>i<NCPUS. hart_id (hs i) = of_nat i) \<Longrightarrow> lock_reach R secs d (lock_init d hs)"
| step: "lock_reach R secs d s \<Longrightarrow> i < NCPUS \<Longrightarrow> lock_step R secs i s s' \<Longrightarrow> lock_reach R secs d s'"

definition lock_run :: "riscv \<Rightarrow> ('d \<Rightarrow> 'd) list set \<Rightarrow> nat \<Rightarrow> 'd locksys \<Rightarrow> 'd locksys \<Rightarrow> bool" where
  "lock_run R secs i = (lock_step R secs i)\<^sup>*\<^sup>*"

section \<open>What the lock promises\<close>

text \<open>
  The states reached by complete critical sections, one after the other.
\<close>

inductive serial :: "('d \<Rightarrow> 'd) list set \<Rightarrow> 'd \<Rightarrow> 'd \<Rightarrow> bool"
  for secs :: "('d \<Rightarrow> 'd) list set" and d :: 'd where
  serial_0: "serial secs d d"
| serial_section: "serial secs d x \<Longrightarrow> p \<in> secs \<Longrightarrow> serial secs d (run_section p x)"

text \<open>
  The state of a CPU that holds \<open>n\<close> guards and had interrupts \<open>e\<close> before the first one.
\<close>

definition guarded_cpu :: "riscv \<Rightarrow> bool \<Rightarrow> nat \<Rightarrow> hart \<times> IntrLock \<Rightarrow> bool" where
  "guarded_cpu R e n c \<longleftrightarrow> cnt (snd c) = int n \<and> int n < 2 ^ 62 \<and>
     (if n = 0 then intr_get R (fst c) = e
      else \<not> intr_get R (fst c) \<and> is_enabled_before (snd c) = e \<and>
        il_hart_id (snd c) = hart_id (fst c))"

text \<open>
  A hart has the lock from the successful exchange until the release. \<open>s_own\<close> is set from
  the moment the guard exists, \<open>s_abs\<close> is the data as if the whole section of the owner had
  already run.
\<close>

definition takes :: "lpc \<Rightarrow> bool" where
  "takes l \<longleftrightarrow> l \<in> {L_Check, L_SetHart}"

definition has_lock :: "'d locksys \<Rightarrow> nat \<Rightarrow> bool" where
  "has_lock s i \<longleftrightarrow> takes (s_pc s i) \<or> s_own s i"

definition relock_panic :: panic where
  "relock_panic = Panic ''lock {}: hart {} already holding the lock!''"

fun local_ok :: "lpc \<Rightarrow> bool \<Rightarrow> bool" where
  "local_ok Idle own = (\<not> own)"
| "local_ok (L_HoldEnd b) own = (b = own)"
| "local_ok L_Spin own = (\<not> own)"
| "local_ok L_Check own = (\<not> own)"
| "local_ok L_SetHart own = (\<not> own)"
| "local_ok Crit own = own"
| "local_ok U_Hold own = own"
| "local_ok U_Read own = own"
| "local_ok U_ReadHart own = own"
| "local_ok (U_HoldEnd b) own = (b \<and> own)"
| "local_ok U_Clear own = own"
| "local_ok U_Release own = own"
| "local_ok U_Intr own = (\<not> own)"
| "local_ok (Stopped p) own = (p = relock_panic \<and> own)"
| "local_ok _ own = True"

fun pc_guards :: "lpc \<Rightarrow> nat" where
  "pc_guards L_Hold = 1"
| "pc_guards L_Read = 2"
| "pc_guards L_ReadHart = 2"
| "pc_guards (L_HoldEnd b) = 2"
| "pc_guards L_Spin = 1"
| "pc_guards L_Check = 1"
| "pc_guards L_SetHart = 1"
| "pc_guards U_Read = 1"
| "pc_guards U_ReadHart = 1"
| "pc_guards (U_HoldEnd b) = 1"
| "pc_guards U_Intr = 1"
| "pc_guards (Stopped p) = 1"
| "pc_guards _ = 0"

definition guards :: "'d locksys \<Rightarrow> nat \<Rightarrow> nat" where
  "guards s i = pc_guards (s_pc s i) + (if s_own s i then 1 else 0)"

definition cpu_ok :: "riscv \<Rightarrow> 'd locksys \<Rightarrow> nat \<Rightarrow> bool" where
  "cpu_ok R s i \<longleftrightarrow> my_id i s = of_nat i \<and> (\<exists>e. guarded_cpu R e (guards s i) (s_cpu s i))"

fun releasing :: "lpc \<Rightarrow> bool" where
  "releasing U_Hold = True"
| "releasing U_Read = True"
| "releasing U_ReadHart = True"
| "releasing (U_HoldEnd b) = True"
| "releasing U_Clear = True"
| "releasing U_Release = True"
| "releasing _ = False"

definition lock_inv :: "riscv \<Rightarrow> 'd locksys \<Rightarrow> bool" where
  "lock_inv R s \<longleftrightarrow>
     (\<forall>i<NCPUS. local_ok (s_pc s i) (s_own s i) \<and> cpu_ok R s i) \<and>
     (\<forall>i<NCPUS. \<forall>j<NCPUS. has_lock s i \<longrightarrow> has_lock s j \<longrightarrow> i = j) \<and>
     s_lock s = (if \<exists>i<NCPUS. has_lock s i then 1 else 0) \<and>
     (\<forall>i<NCPUS. s_hart s = of_nat i \<longleftrightarrow> s_own s i \<and> s_pc s i \<noteq> U_Release) \<and>
     (\<forall>i<NCPUS. releasing (s_pc s i) \<longrightarrow> s_prog s i = []) \<and>
     (\<forall>i<NCPUS. s_own s i \<longrightarrow> run_section (s_prog s i) (s_data s) = s_abs s) \<and>
     ((\<forall>i<NCPUS. \<not> s_own s i) \<longrightarrow> s_data s = s_abs s)"

text \<open>The fields that one hart alone sees of the state, for runs in which only it moves.\<close>

definition hview :: "riscv \<Rightarrow> nat \<Rightarrow> bool \<Rightarrow> nat \<Rightarrow> lpc \<Rightarrow> u32 \<Rightarrow> i64 \<Rightarrow> 'd \<Rightarrow> ('d \<Rightarrow> 'd) list \<Rightarrow> 'd locksys \<Rightarrow> bool" where
  "hview R i e n l w h d p s \<longleftrightarrow> s_pc s i = l \<and> s_lock s = w \<and> s_hart s = h \<and> s_data s = d \<and>
     s_prog s i = p \<and> my_id i s = of_nat i \<and> guarded_cpu R e n (s_cpu s i)"

text \<open>Harts after boot: identifiers in \<open>tp\<close>, interrupts on.\<close>

definition boot_harts :: "nat \<Rightarrow> hart" where
  "boot_harts i = \<lparr>tp = of_nat i, satp = 0, sip = 0, sie_reg = 0, sstatus = 2, sepc = 0, scause = 0, stval = 0, stvec = 0\<rparr>"

section \<open>Lemmas on the interrupt lock\<close>

lemma IntrLock_lock_guarded:
  assumes "riscv_ok R" "guarded_cpu R e n c" "int (Suc n) < 2 ^ 62"
  shows "\<exists>c'. IntrLock_lock R c = Inr c' \<and> guarded_cpu R e (Suc n) c' \<and>
    hart_id (fst c') = hart_id (fst c)"
proof (cases c)
  case (Pair h l)
  then show ?thesis
    using assms by (cases "n = 0") (auto simp: IntrLock_lock_def guarded_cpu_def Let_def intr_off_idem)
qed

lemma IntrLockGuard_drop_guarded:
  assumes "riscv_ok R" "guarded_cpu R e (Suc n) c"
  shows "\<exists>c'. IntrLockGuard_drop R c = Inr c' \<and> guarded_cpu R e n c' \<and>
    hart_id (fst c') = hart_id (fst c)"
proof (cases c)
  case (Pair h l)
  then show ?thesis
    using assms by (cases "n = 0") (auto simp: IntrLockGuard_drop_def guarded_cpu_def Let_def rif_def)
qed

lemma Mutex_holding_guarded:
  assumes "riscv_ok R" "guarded_cpu R e n c" "int (Suc n) < 2 ^ 62"
  shows "\<exists>c'. Mutex_holding R c m = Inr (c', m_lock m = 1 \<and> m_hart m = hart_id (fst c)) \<and>
    guarded_cpu R e n c' \<and> hart_id (fst c') = hart_id (fst c)"
  using IntrLock_lock_guarded[OF assms] IntrLockGuard_drop_guarded[OF assms(1), of e n]
  by (fastforce simp: Mutex_holding_def)

section \<open>Lemmas on the interleaved spinlock\<close>

lemma lock_invD:
  assumes "lock_inv R s" "i < NCPUS"
  shows "local_ok (s_pc s i) (s_own s i)" "cpu_ok R s i"
    "s_hart s = of_nat i \<longleftrightarrow> s_own s i \<and> s_pc s i \<noteq> U_Release"
    "releasing (s_pc s i) \<Longrightarrow> s_prog s i = []"
    "s_own s i \<Longrightarrow> run_section (s_prog s i) (s_data s) = s_abs s"
    "has_lock s i \<Longrightarrow> s_lock s = 1" "my_id i s = of_nat i"
  using assms by (auto simp: lock_inv_def cpu_ok_def)

lemma lock_inv_cpuE:
  assumes "lock_inv R s" "i < NCPUS"
  obtains e where "guarded_cpu R e (guards s i) (s_cpu s i)"
  using lock_invD(2)[OF assms] by (auto simp: cpu_ok_def)

lemma lock_inv_local:
  assumes inv: "lock_inv R s" and i: "i < NCPUS"
    and l: "local_ok l (s_own s i)" "takes l = takes (s_pc s i)" "l \<noteq> U_Release" "s_pc s i \<noteq> U_Release"
      "releasing l \<longrightarrow> s_prog s i = []"
    and c: "guarded_cpu R e (pc_guards l + (if s_own s i then 1 else 0)) c" "hart_id (fst c) = my_id i s"
  shows "lock_inv R (goto i l (s\<lparr>s_cpu := (s_cpu s)(i := c)\<rparr>))"
proof -
  let ?s' = "goto i l (s\<lparr>s_cpu := (s_cpu s)(i := c)\<rparr>)"
  have h: "has_lock ?s' j = has_lock s j" for j
    using l(2) by (simp add: has_lock_def goto_def)
  have loc: "local_ok (s_pc ?s' j) (s_own ?s' j) \<and> cpu_ok R ?s' j" if "j < NCPUS" for j
  proof (cases "j = i")
    case True
    have "my_id i s = of_nat i" using inv i by (simp add: lock_inv_def cpu_ok_def)
    then show ?thesis using True l(1) c by (auto simp: goto_def cpu_ok_def guards_def my_id_def)
  next
    case False
    then show ?thesis using inv that
      by (simp add: lock_inv_def goto_def cpu_ok_def guards_def my_id_def)
  qed
  have hart: "s_hart ?s' = of_nat j \<longleftrightarrow> s_own ?s' j \<and> s_pc ?s' j \<noteq> U_Release" if "j < NCPUS" for j
    using inv that l(3,4) by (auto simp: lock_inv_def goto_def)
  have rel: "releasing (s_pc ?s' j) \<longrightarrow> s_prog ?s' j = []" if "j < NCPUS" for j
    using inv that l(5) by (auto simp: lock_inv_def goto_def)
  show ?thesis
    unfolding lock_inv_def h
    using loc hart rel inv by (simp add: lock_inv_def goto_def)
qed

lemma lock_inv_goto:
  assumes "lock_inv R s" and i: "i < NCPUS"
    and "local_ok l (s_own s i)" "takes l = takes (s_pc s i)" "l \<noteq> U_Release" "s_pc s i \<noteq> U_Release"
      "releasing l \<longrightarrow> s_prog s i = []" "pc_guards l = pc_guards (s_pc s i)"
  shows "lock_inv R (goto i l s)"
proof -
  obtain e where "guarded_cpu R e (guards s i) (s_cpu s i)"
    using lock_inv_cpuE[OF assms(1,2)] .
  then have "guarded_cpu R e (pc_guards l + (if s_own s i then 1 else 0)) (s_cpu s i)"
    using assms(8) by (simp add: guards_def)
  from lock_inv_local[OF assms(1-7) this] show ?thesis
    by (simp add: my_id_def)
qed

lemma lock_inv_intr_lock:
  assumes R: "riscv_ok R" and inv: "lock_inv R s" and i: "i < NCPUS"
    and l: "local_ok l (s_own s i)" "takes l = takes (s_pc s i)" "l \<noteq> U_Release" "s_pc s i \<noteq> U_Release"
      "releasing l \<longrightarrow> s_prog s i = []"
    and g: "pc_guards l = Suc (pc_guards (s_pc s i))"
  shows "lock_inv R (intr_call i (IntrLock_lock R (s_cpu s i)) l s)"
proof -
  obtain e where e: "guarded_cpu R e (guards s i) (s_cpu s i)"
    using lock_inv_cpuE[OF inv i] .
  have "pc_guards l \<le> 2" by (cases l) auto
  then have "int (Suc (guards s i)) < 2 ^ 62" using g by (simp add: guards_def)
  from IntrLock_lock_guarded[OF R e this] obtain c where
    c: "IntrLock_lock R (s_cpu s i) = Inr c" "guarded_cpu R e (Suc (guards s i)) c"
      "hart_id (fst c) = my_id i s" by (auto simp: my_id_def)
  have "guarded_cpu R e (pc_guards l + (if s_own s i then 1 else 0)) c"
    using c(2) g by (simp add: guards_def)
  from lock_inv_local[OF inv i l this c(3)] show ?thesis
    by (simp add: intr_call_def c(1))
qed

lemma lock_inv_intr_drop:
  assumes R: "riscv_ok R" and inv: "lock_inv R s" and i: "i < NCPUS"
    and l: "local_ok l (s_own s i)" "takes l = takes (s_pc s i)" "l \<noteq> U_Release" "s_pc s i \<noteq> U_Release"
      "releasing l \<longrightarrow> s_prog s i = []"
    and g: "pc_guards (s_pc s i) = Suc (pc_guards l)"
  shows "lock_inv R (intr_call i (IntrLockGuard_drop R (s_cpu s i)) l s)"
proof -
  obtain e where e: "guarded_cpu R e (guards s i) (s_cpu s i)"
    using lock_inv_cpuE[OF inv i] .
  then have "guarded_cpu R e (Suc (pc_guards l + (if s_own s i then 1 else 0))) (s_cpu s i)"
    using g by (simp add: guards_def)
  from IntrLockGuard_drop_guarded[OF R this] obtain c where
    c: "IntrLockGuard_drop R (s_cpu s i) = Inr c"
      "guarded_cpu R e (pc_guards l + (if s_own s i then 1 else 0)) c"
      "hart_id (fst c) = my_id i s" by (auto simp: my_id_def)
  from lock_inv_local[OF inv i l c(2,3)] show ?thesis
    by (simp add: intr_call_def c(1))
qed

lemma of_nat_hart_inj: "i < NCPUS \<Longrightarrow> j < NCPUS \<Longrightarrow> (of_nat i :: usize) = of_nat j \<longleftrightarrow> i = j"
  by (simp add: word_unat_eq_iff unat_of_nat consts_simps)

lemma of_nat_hart_neq: "i < NCPUS \<Longrightarrow> (-1 :: usize) \<noteq> of_nat i"
proof
  assume i: "i < NCPUS" and "(-1 :: usize) = of_nat i"
  then have "(of_nat (Suc i) :: usize) = 0" by (metis add.right_inverse of_nat_Suc)
  then show False using i of_nat_usize_eq_0[of "Suc i"] by (simp add: consts_simps del: of_nat_Suc)
qed

lemma lock_inv_unique: "lock_inv R s \<Longrightarrow> has_lock s i \<Longrightarrow> has_lock s j \<Longrightarrow> i < NCPUS \<Longrightarrow> j < NCPUS \<Longrightarrow> i = j"
  by (simp add: lock_inv_def)

lemma lock_inv_frame:
  assumes inv: "lock_inv R s" and i: "i < NCPUS"
    and o: "\<And>j. j \<noteq> i \<Longrightarrow> s_pc s' j = s_pc s j \<and> s_own s' j = s_own s j \<and> s_prog s' j = s_prog s j"
    and c: "s_cpu s' = s_cpu s"
    and l: "local_ok (s_pc s' i) (s_own s' i)" "guards s' i = guards s i"
      "releasing (s_pc s' i) \<longrightarrow> s_prog s' i = []"
    and hl: "s_lock s' = (if \<exists>i<NCPUS. has_lock s' i then 1 else 0)"
    and u: "\<And>j. j < NCPUS \<Longrightarrow> has_lock s' j \<Longrightarrow> j = i"
    and ha: "\<And>j. j < NCPUS \<Longrightarrow> s_hart s' = of_nat j \<longleftrightarrow> s_own s' j \<and> s_pc s' j \<noteq> U_Release"
    and d: "if s_own s' i then run_section (s_prog s' i) (s_data s') = s_abs s' else s_data s' = s_abs s'"
  shows "lock_inv R s'"
proof -
  have loc: "local_ok (s_pc s' j) (s_own s' j) \<and> cpu_ok R s' j \<and> (releasing (s_pc s' j) \<longrightarrow> s_prog s' j = [])" if "j < NCPUS" for j
  proof (cases "j = i")
    case True
    then show ?thesis using l c lock_invD(2)[OF inv i] by (simp add: cpu_ok_def my_id_def)
  next
    case False
    then show ?thesis using o[OF False] c lock_invD[OF inv that]
      by (simp add: cpu_ok_def my_id_def guards_def)
  qed
  have own: "\<not> s_own s' j" if "j < NCPUS" "j \<noteq> i" for j
    using u[OF that(1)] that(2) by (auto simp: has_lock_def)
  have un: "a = b" if "a < NCPUS" "b < NCPUS" "has_lock s' a" "has_lock s' b" for a b
    using u[OF that(1,3)] u[OF that(2,4)] by simp
  have run: "run_section (s_prog s' j) (s_data s') = s_abs s'" if "j < NCPUS" "s_own s' j" for j
    using own[OF that(1)] that(2) d by (cases "j = i") auto
  have idle: "s_data s' = s_abs s'" if "\<forall>j<NCPUS. \<not> s_own s' j"
    using that i d by simp
  show ?thesis
    unfolding lock_inv_def using loc un hl ha run idle by simp
qed

lemma lock_inv_spin:
  assumes inv: "lock_inv R s" and i: "i < NCPUS" and pc: "s_pc s i = L_Spin" and w: "s_lock s = 0"
  shows "lock_inv R (goto i L_Check (s\<lparr>s_lock := 1\<rparr>))"
proof -
  have none: "\<not> has_lock s j" if "j < NCPUS" for j
    using lock_invD(6)[OF inv that] w by auto
  have o: "\<not> s_own s j" if "j < NCPUS" for j using none[OF that] by (simp add: has_lock_def)
  have d: "s_data s = s_abs s" using inv o by (simp add: lock_inv_def)
  have h: "has_lock (goto i L_Check (s\<lparr>s_lock := 1\<rparr>)) j \<longleftrightarrow> j = i" if "j < NCPUS" for j
    using none[OF that] by (auto simp: has_lock_def goto_def takes_def)
  show ?thesis
  proof (rule lock_inv_frame[OF inv i])
    show "s_lock (goto i L_Check (s\<lparr>s_lock := 1\<rparr>)) =
      (if \<exists>ia<NCPUS. has_lock (goto i L_Check (s\<lparr>s_lock := 1\<rparr>)) ia then 1 else 0)"
      using h i by (auto simp: goto_def)
    show "\<And>j. j < NCPUS \<Longrightarrow> has_lock (goto i L_Check (s\<lparr>s_lock := 1\<rparr>)) j \<Longrightarrow> j = i" using h by simp
    show "\<And>j. j < NCPUS \<Longrightarrow> (s_hart (goto i L_Check (s\<lparr>s_lock := 1\<rparr>)) = of_nat j) =
      (s_own (goto i L_Check (s\<lparr>s_lock := 1\<rparr>)) j \<and> s_pc (goto i L_Check (s\<lparr>s_lock := 1\<rparr>)) j \<noteq> U_Release)"
      using lock_invD(3)[OF inv] o by (simp add: goto_def)
  qed (use o[OF i] d pc in \<open>auto simp: goto_def guards_def\<close>)
qed

lemma lock_inv_alone:
  assumes "lock_inv R s" "i < NCPUS" "has_lock s i" "j < NCPUS" "j \<noteq> i"
  shows "\<not> has_lock s j" "\<not> s_own s j" "\<not> takes (s_pc s j)"
proof -
  show "\<not> has_lock s j" using lock_inv_unique[OF assms(1,3)] assms by blast
  then show "\<not> s_own s j" "\<not> takes (s_pc s j)" by (simp_all add: has_lock_def)
qed

lemma lock_inv_set_hart:
  assumes inv: "lock_inv R s" and i: "i < NCPUS" and pc: "s_pc s i = L_SetHart"
  shows "lock_inv R (goto i Crit (s\<lparr>s_hart := my_id i s, s_own := (s_own s)(i := True),
      s_prog := (s_prog s)(i := p), s_abs := run_section p (s_abs s)\<rparr>))" (is "lock_inv R ?s'")
proof -
  have hi: "has_lock s i" using pc by (simp add: has_lock_def takes_def)
  note al = lock_inv_alone[OF inv i hi]
  have own: "\<not> s_own s j" if "j < NCPUS" for j
    using al(2)[OF that] lock_invD(1)[OF inv i] pc by (cases "j = i") auto
  have d: "s_data s = s_abs s" using inv own by (simp add: lock_inv_def)
  have h: "has_lock ?s' j \<longleftrightarrow> j = i" if "j < NCPUS" for j
    using al(1)[OF that] by (cases "j = i") (auto simp: has_lock_def goto_def takes_def)
  show ?thesis
  proof (rule lock_inv_frame[OF inv i])
    show "s_lock ?s' = (if \<exists>ia<NCPUS. has_lock ?s' ia then 1 else 0)"
      using h i lock_invD(6)[OF inv i hi] by (auto simp: goto_def)
    show "\<And>j. j < NCPUS \<Longrightarrow> has_lock ?s' j \<Longrightarrow> j = i" using h by simp
    show "(s_hart ?s' = of_nat j) = (s_own ?s' j \<and> s_pc ?s' j \<noteq> U_Release)" if "j < NCPUS" for j
      using own[OF that] lock_invD(7)[OF inv i] of_nat_hart_inj[OF i that] by (auto simp: goto_def)
  qed (use own[OF i] d pc in \<open>auto simp: goto_def guards_def\<close>)
qed

lemma lock_inv_work:
  assumes inv: "lock_inv R s" and i: "i < NCPUS" and pc: "s_pc s i = Crit" and pr: "s_prog s i = f # fs"
  shows "lock_inv R (s\<lparr>s_data := f (s_data s), s_prog := (s_prog s)(i := fs)\<rparr>)" (is "lock_inv R ?s'")
proof -
  have own: "s_own s i" using lock_invD(1)[OF inv i] pc by simp
  then have hi: "has_lock s i" by (simp add: has_lock_def)
  have h: "has_lock ?s' j = has_lock s j" for j by (simp add: has_lock_def)
  show ?thesis
  proof (rule lock_inv_frame[OF inv i])
    show "s_lock ?s' = (if \<exists>ia<NCPUS. has_lock ?s' ia then 1 else 0)"
      using inv h by (simp add: lock_inv_def)
    show "\<And>j. j < NCPUS \<Longrightarrow> has_lock ?s' j \<Longrightarrow> j = i" using h lock_inv_alone(1)[OF inv i hi] by (metis (full_types))
    show "(s_hart ?s' = of_nat j) = (s_own ?s' j \<and> s_pc ?s' j \<noteq> U_Release)" if "j < NCPUS" for j
      using lock_invD(3)[OF inv that] by simp
  qed (use own pc pr lock_invD(5)[OF inv i own] in \<open>auto simp: guards_def\<close>)
qed

lemma lock_inv_clear:
  assumes inv: "lock_inv R s" and i: "i < NCPUS" and pc: "s_pc s i = U_Clear"
  shows "lock_inv R (goto i U_Release (s\<lparr>s_hart := -1\<rparr>))" (is "lock_inv R ?s'")
proof -
  have own: "s_own s i" using lock_invD(1)[OF inv i] pc by simp
  then have hi: "has_lock s i" by (simp add: has_lock_def)
  have h: "has_lock ?s' j = has_lock s j" for j using pc by (simp add: has_lock_def goto_def takes_def)
  show ?thesis
  proof (rule lock_inv_frame[OF inv i])
    show "s_lock ?s' = (if \<exists>ia<NCPUS. has_lock ?s' ia then 1 else 0)"
      unfolding h using inv by (simp add: lock_inv_def goto_def)
    show "\<And>j. j < NCPUS \<Longrightarrow> has_lock ?s' j \<Longrightarrow> j = i" using h lock_inv_alone(1)[OF inv i hi] by (metis (full_types))
    show "(s_hart ?s' = of_nat j) = (s_own ?s' j \<and> s_pc ?s' j \<noteq> U_Release)" if "j < NCPUS" for j
      using of_nat_hart_neq[OF that] lock_inv_alone(2)[OF inv i hi that] by (auto simp: goto_def)
  qed (use own pc lock_invD(4,5)[OF inv i] in \<open>auto simp: guards_def goto_def\<close>)
qed

lemma lock_inv_release:
  assumes inv: "lock_inv R s" and i: "i < NCPUS" and pc: "s_pc s i = U_Release"
  shows "lock_inv R (goto i U_Intr (s\<lparr>s_lock := sync_lock_release (s_lock s), s_own := (s_own s)(i := False)\<rparr>))"
    (is "lock_inv R ?s'")
proof -
  have own: "s_own s i" using lock_invD(1)[OF inv i] pc by simp
  then have hi: "has_lock s i" by (simp add: has_lock_def)
  note al = lock_inv_alone[OF inv i hi]
  have h: "\<not> has_lock ?s' j" if "j < NCPUS" for j
    using al[OF that] by (auto simp: has_lock_def goto_def takes_def)
  show ?thesis
  proof (rule lock_inv_frame[OF inv i])
    show "s_lock ?s' = (if \<exists>ia<NCPUS. has_lock ?s' ia then 1 else 0)"
      using h by (auto simp: goto_def sync_lock_release_def)
    show "\<And>j. j < NCPUS \<Longrightarrow> has_lock ?s' j \<Longrightarrow> j = i" using h by simp
    show "(s_hart ?s' = of_nat j) = (s_own ?s' j \<and> s_pc ?s' j \<noteq> U_Release)" if "j < NCPUS" for j
      using lock_invD(3)[OF inv that] pc al(2)[OF that] by (auto simp: goto_def)
  qed (use own pc lock_invD(4,5)[OF inv i] in \<open>auto simp: guards_def goto_def\<close>)
qed

lemma lock_inv_step:
  assumes R: "riscv_ok R" and inv: "lock_inv R s" and i: "i < NCPUS" and st: "lock_step R secs i s s'"
  shows "lock_inv R s'"
  using st
proof cases
  case call_lock
  then show ?thesis
    by (auto simp: takes_def intro!: lock_inv_intr_lock[OF R inv i])
next
  case hold_intr
  then show ?thesis by (auto simp: takes_def intro!: lock_inv_intr_lock[OF R inv i])
next
  case hold_read
  have "s_lock s \<noteq> 1 \<Longrightarrow> \<not> s_own s i" using lock_invD(6)[OF inv i] by (auto simp: has_lock_def)
  then show ?thesis using hold_read by (auto simp: takes_def intro!: lock_inv_goto[OF inv i])
next
  case hold_read_hart
  then show ?thesis using lock_invD(3,7)[OF inv i] by (auto simp: takes_def intro!: lock_inv_goto[OF inv i])
next
  case (hold_end b)
  then show ?thesis using lock_invD(1)[OF inv i]
    by (auto simp: takes_def relock_panic_def intro!: lock_inv_intr_drop[OF R inv i])
next
  case (spin old new)
  show ?thesis
  proof (cases "s_lock s = 0")
    case True
    then show ?thesis using spin lock_inv_spin[OF inv i] by (simp add: sync_lock_test_and_set_def)
  next
    case False
    moreover have "s_lock s = (if \<exists>i<NCPUS. has_lock s i then 1 else 0)"
      using inv unfolding lock_inv_def by (elim conjE)
    ultimately have "s_lock s = 1" by presburger
    then have "s\<lparr>s_lock := 1\<rparr> = s" by simp
    then have "s' = goto i L_Spin s" using False spin by (simp add: sync_lock_test_and_set_def)
    then show ?thesis using spin(2) lock_invD(1)[OF inv i]
      by (auto simp: takes_def intro!: lock_inv_goto[OF inv i])
  qed
next
  case check
  then show ?thesis using lock_invD(1,6)[OF inv i]
    by (auto simp: takes_def has_lock_def intro!: lock_inv_goto[OF inv i])
next
  case (set_hart p)
  then show ?thesis using lock_inv_set_hart[OF inv i] by simp
next
  case (work f fs)
  then show ?thesis using lock_inv_work[OF inv i] by simp
next
  case drop_guard
  then show ?thesis using lock_invD(1)[OF inv i] by (auto simp: takes_def intro!: lock_inv_goto[OF inv i])
next
  case drop_intr
  then show ?thesis using lock_invD(1,4)[OF inv i] by (auto simp: takes_def intro!: lock_inv_intr_lock[OF R inv i])
next
  case drop_read
  then show ?thesis using lock_invD(1,4,6)[OF inv i] by (auto simp: takes_def has_lock_def intro!: lock_inv_goto[OF inv i])
next
  case drop_read_hart
  then show ?thesis using lock_invD(1,3,4,7)[OF inv i] by (auto simp: takes_def intro!: lock_inv_goto[OF inv i])
next
  case (drop_end b)
  then show ?thesis using lock_invD(1,4)[OF inv i] by (auto simp: takes_def intro!: lock_inv_intr_drop[OF R inv i])
next
  case clear_hart
  then show ?thesis using lock_inv_clear[OF inv i] by simp
next
  case release
  then show ?thesis using lock_inv_release[OF inv i] by simp
next
  case drop_field
  then show ?thesis using lock_invD(1)[OF inv i] by (auto simp: takes_def intro!: lock_inv_intr_drop[OF R inv i])
qed


lemma lock_inv_init:
  assumes "\<forall>i<NCPUS. hart_id (hs i) = of_nat i"
  shows "lock_inv R (lock_init d hs)"
proof -
  have c: "cpu_ok R (lock_init d hs) i" if "i < NCPUS" for i
    using assms that
    by (auto simp: cpu_ok_def lock_init_def guards_def my_id_def guarded_cpu_def IntrLock_new_def)
  have "\<not> has_lock (lock_init d hs) i" for i by (simp add: has_lock_def lock_init_def takes_def)
  then show ?thesis
    unfolding lock_inv_def using c of_nat_hart_neq by (simp add: lock_init_def)
qed

lemma lock_reach_inv:
  assumes "riscv_ok R" "lock_reach R secs d s"
  shows "lock_inv R s"
  using assms(2)
proof induction
  case (start hs)
  then show ?case by (rule lock_inv_init)
next
  case (step s i s')
  then show ?case using lock_inv_step[OF assms(1)] by blast
qed

lemma s_abs_intr_call [simp]: "s_abs (intr_call i r l s) = s_abs s"
  by (simp add: intr_call_def goto_def split: sum.split)

lemma lock_reach_serial:
  assumes "lock_reach R secs d s"
  shows "serial secs d (s_abs s)"
  using assms
proof induction
  case (start hs)
  then show ?case by (simp add: lock_init_def serial_0)
next
  case (step s i s')
  from step.hyps(3) step.IH show ?case
    by cases (auto simp: goto_def intro: serial_section)
qed

subsection \<open>Runs of a single hart\<close>

lemma hview_goto:
  "hview R i e n l w h d p (goto i l' s) \<longleftrightarrow> l' = l \<and> hview R i e n (s_pc s i) w h d p s"
  by (auto simp: hview_def goto_def my_id_def)

lemma hview_lock:
  assumes "riscv_ok R" "hview R i e n l w h d p s" "n < 100"
  shows "hview R i e (Suc n) l' w h d p (intr_call i (IntrLock_lock R (s_cpu s i)) l' s)"
proof -
  have "guarded_cpu R e n (s_cpu s i)" using assms(2) by (simp add: hview_def)
  from IntrLock_lock_guarded[OF assms(1) this] assms(3) obtain c where
    "IntrLock_lock R (s_cpu s i) = Inr c" "guarded_cpu R e (Suc n) c" "hart_id (fst c) = my_id i s"
    by (auto simp: my_id_def)
  then show ?thesis using assms(2) by (auto simp: hview_def intr_call_def goto_def my_id_def)
qed

lemma hview_drop:
  assumes "riscv_ok R" "hview R i e (Suc n) l w h d p s"
  shows "hview R i e n l' w h d p (intr_call i (IntrLockGuard_drop R (s_cpu s i)) l' s)"
proof -
  have "guarded_cpu R e (Suc n) (s_cpu s i)" using assms(2) by (simp add: hview_def)
  from IntrLockGuard_drop_guarded[OF assms(1) this] obtain c where
    "IntrLockGuard_drop R (s_cpu s i) = Inr c" "guarded_cpu R e n c" "hart_id (fst c) = my_id i s"
    by (auto simp: my_id_def)
  then show ?thesis using assms(2) by (auto simp: hview_def intr_call_def goto_def my_id_def)
qed

lemma lock_run_refl [simp]: "lock_run R secs i s s"
  by (simp add: lock_run_def)

lemma lock_run_step: "lock_step R secs i s s' \<Longrightarrow> lock_run R secs i s' s'' \<Longrightarrow> lock_run R secs i s s''"
  by (simp add: lock_run_def converse_rtranclp_into_rtranclp)

lemma lock_run_trans: "lock_run R secs i s s' \<Longrightarrow> lock_run R secs i s' s'' \<Longrightarrow> lock_run R secs i s s''"
  by (simp add: lock_run_def)

lemma lock_reach_run:
  assumes "lock_run R secs i s s'" "lock_reach R secs d s" "i < NCPUS"
  shows "lock_reach R secs d s'"
  using assms(1)[unfolded lock_run_def] assms(2)
  by induction (auto intro: lock_reach.step[OF _ assms(3)])

lemma acquire_runs:
  assumes R: "riscv_ok R" and v: "hview R i e 0 Idle 0 h d q s" and p: "p \<in> secs" and i: "i < NCPUS"
  shows "\<exists>s'. lock_run R secs i s s' \<and> hview R i e 1 Crit 1 (of_nat i) d p s'"
proof -
  define s1 where "s1 = intr_call i (IntrLock_lock R (s_cpu s i)) L_Hold s"
  define s2 where "s2 = intr_call i (IntrLock_lock R (s_cpu s1 i)) L_Read s1"
  define s3 where "s3 = goto i (L_HoldEnd False) s2"
  define s4 where "s4 = intr_call i (IntrLockGuard_drop R (s_cpu s3 i)) L_Spin s3"
  define s5 where "s5 = goto i L_Check (s4\<lparr>s_lock := 1\<rparr>)"
  define s6 where "s6 = goto i L_SetHart s5"
  define s7 where "s7 = goto i Crit (s6\<lparr>s_hart := my_id i s6, s_own := (s_own s6)(i := True),
      s_prog := (s_prog s6)(i := p), s_abs := run_section p (s_abs s6)\<rparr>)"
  have v1: "hview R i e 1 L_Hold 0 h d q s1"
    unfolding s1_def using hview_lock[OF R v] by simp
  have v2: "hview R i e 2 L_Read 0 h d q s2"
    unfolding s2_def using hview_lock[OF R v1] by (simp add: eval_nat_numeral)
  have v3: "hview R i e (Suc 1) (L_HoldEnd False) 0 h d q s3"
    unfolding s3_def hview_goto using v2 by (simp add: hview_def eval_nat_numeral)
  have v4: "hview R i e 1 L_Spin 0 h d q s4"
    unfolding s4_def by (rule hview_drop[OF R v3])
  have v5: "hview R i e 1 L_Check 1 h d q s5"
    unfolding s5_def hview_goto using v4 by (simp add: hview_def my_id_def)
  have v6: "hview R i e 1 L_SetHart 1 h d q s6"
    unfolding s6_def hview_goto using v5 by (simp add: hview_def)
  have v7: "hview R i e 1 Crit 1 (of_nat i) d p s7"
    unfolding s7_def hview_goto using v6 by (simp add: hview_def my_id_def)
  have "lock_step R secs i s s1"
    unfolding s1_def by (rule call_lock) (use v in \<open>simp add: hview_def\<close>)
  moreover have "lock_step R secs i s1 s2"
    unfolding s2_def by (rule hold_intr) (use v1 in \<open>simp add: hview_def\<close>)
  moreover have "lock_step R secs i s2 s3"
    using hold_read[of s2 i R secs] v2 by (simp add: hview_def s3_def)
  moreover have "lock_step R secs i s3 s4"
    using hold_end[of s3 i False R secs] v3 by (simp add: hview_def s4_def)
  moreover have "lock_step R secs i s4 s5"
    using spin[of s4 i 0 1 R secs] v4 by (simp add: hview_def s5_def sync_lock_test_and_set_def)
  moreover have "lock_step R secs i s5 s6"
    using check[of s5 i R secs] v5 by (simp add: hview_def s6_def)
  moreover have "lock_step R secs i s6 s7"
    unfolding s7_def by (rule set_hart) (use v6 p in \<open>simp_all add: hview_def\<close>)
  ultimately have "lock_run R secs i s s7"
    by (meson lock_run_step lock_run_refl)
  then show ?thesis using v7 by blast
qed

lemma section_runs:
  assumes "hview R i e 1 Crit 1 (of_nat i) d p s"
  shows "\<exists>s'. lock_run R secs i s s' \<and> hview R i e 1 Crit 1 (of_nat i) (run_section p d) [] s'"
  using assms
proof (induction p arbitrary: d s)
  case Nil
  then show ?case using lock_run_refl by fastforce
next
  case (Cons f p)
  let ?s = "s\<lparr>s_data := f (s_data s), s_prog := (s_prog s)(i := p)\<rparr>"
  have st: "lock_step R secs i s ?s" by (rule work) (use Cons.prems in \<open>simp_all add: hview_def\<close>)
  have "hview R i e 1 Crit 1 (of_nat i) (f d) p ?s" using Cons.prems by (simp add: hview_def my_id_def)
  from Cons.IH[OF this] show ?case using lock_run_step[OF st] by auto
qed

lemma release_runs:
  assumes R: "riscv_ok R" and v: "hview R i e 1 Crit 1 (of_nat i) d [] s"
  shows "\<exists>s'. lock_run R secs i s s' \<and> hview R i e 0 Idle 0 (-1) d [] s'"
proof -
  define s1 where "s1 = goto i U_Hold s"
  define s2 where "s2 = intr_call i (IntrLock_lock R (s_cpu s1 i)) U_Read s1"
  define s3 where "s3 = goto i U_ReadHart s2"
  define s4 where "s4 = goto i (U_HoldEnd True) s3"
  define s5 where "s5 = intr_call i (IntrLockGuard_drop R (s_cpu s4 i)) U_Clear s4"
  define s6 where "s6 = goto i U_Release (s5\<lparr>s_hart := -1\<rparr>)"
  define s7 where "s7 = goto i U_Intr (s6\<lparr>s_lock := sync_lock_release (s_lock s6), s_own := (s_own s6)(i := False)\<rparr>)"
  define s8 where "s8 = intr_call i (IntrLockGuard_drop R (s_cpu s7 i)) Idle s7"
  have v1: "hview R i e 1 U_Hold 1 (of_nat i) d [] s1"
    unfolding s1_def hview_goto using v by (simp add: hview_def)
  have v2: "hview R i e (Suc 1) U_Read 1 (of_nat i) d [] s2"
    unfolding s2_def using hview_lock[OF R v1] by simp
  have v3: "hview R i e (Suc 1) U_ReadHart 1 (of_nat i) d [] s3"
    unfolding s3_def hview_goto using v2 by (simp add: hview_def)
  have v4: "hview R i e (Suc 1) (U_HoldEnd True) 1 (of_nat i) d [] s4"
    unfolding s4_def hview_goto using v3 by (simp add: hview_def)
  have v5: "hview R i e 1 U_Clear 1 (of_nat i) d [] s5"
    unfolding s5_def by (rule hview_drop[OF R v4])
  have v6: "hview R i e 1 U_Release 1 (-1) d [] s6"
    unfolding s6_def hview_goto using v5 by (simp add: hview_def my_id_def)
  have v7: "hview R i e (Suc 0) U_Intr 0 (-1) d [] s7"
    unfolding s7_def hview_goto using v6 by (simp add: hview_def my_id_def sync_lock_release_def)
  have v8: "hview R i e 0 Idle 0 (-1) d [] s8"
    unfolding s8_def by (rule hview_drop[OF R v7])
  have "lock_step R secs i s s1"
    unfolding s1_def by (rule drop_guard) (use v in \<open>simp_all add: hview_def\<close>)
  moreover have "lock_step R secs i s1 s2"
    unfolding s2_def by (rule drop_intr) (use v1 in \<open>simp add: hview_def\<close>)
  moreover have "lock_step R secs i s2 s3"
    using drop_read[of s2 i R secs] v2 by (simp add: hview_def s3_def)
  moreover have "lock_step R secs i s3 s4"
    using drop_read_hart[of s3 i R secs] v3 by (simp add: hview_def s4_def)
  moreover have "lock_step R secs i s4 s5"
    using drop_end[of s4 i True R secs] v4 by (simp add: hview_def s5_def)
  moreover have "lock_step R secs i s5 s6"
    unfolding s6_def by (rule clear_hart) (use v5 in \<open>simp add: hview_def\<close>)
  moreover have "lock_step R secs i s6 s7"
    unfolding s7_def by (rule release) (use v6 in \<open>simp add: hview_def\<close>)
  moreover have "lock_step R secs i s7 s8"
    unfolding s8_def by (rule drop_field) (use v7 in \<open>simp add: hview_def\<close>)
  ultimately have "lock_run R secs i s s8"
    by (meson lock_run_step lock_run_refl)
  then show ?thesis using v8 by blast
qed


lemma lock_runs:
  assumes "riscv_ok R" "hview R i e 0 Idle 0 h d q s" "p \<in> secs" "i < NCPUS"
  shows "\<exists>s'. lock_run R secs i s s' \<and> hview R i e 0 Idle 0 (-1) (run_section p d) [] s'"
proof -
  obtain s1 where 1: "lock_run R secs i s s1" "hview R i e 1 Crit 1 (of_nat i) d p s1"
    using acquire_runs[OF assms] by blast
  obtain s2 where 2: "lock_run R secs i s1 s2" "hview R i e 1 Crit 1 (of_nat i) (run_section p d) [] s2"
    using section_runs[OF 1(2)] by blast
  obtain s3 where 3: "lock_run R secs i s2 s3" "hview R i e 0 Idle 0 (-1) (run_section p d) [] s3"
    using release_runs[OF assms(1) 2(2)] by blast
  show ?thesis using lock_run_trans[OF lock_run_trans[OF 1(1) 2(1)] 3(1)] 3(2) by blast
qed

lemma lock_reach_free:
  assumes "riscv_ok R" "lock_reach R secs d s" "s_lock s = 0"
  shows "serial secs d (s_data s)"
proof -
  have inv: "lock_inv R s" by (rule lock_reach_inv[OF assms(1,2)])
  have "\<not> s_own s i" if "i < NCPUS" for i
    using lock_invD(6)[OF inv that] assms(3) by (auto simp: has_lock_def)
  then have "s_data s = s_abs s" using inv by (simp add: lock_inv_def)
  then show ?thesis using lock_reach_serial[OF assms(2)] by simp
qed

lemma hview_boot:
  "hview riscv_documented i True 0 Idle 0 (-1) d [] (lock_init d boot_harts)"
  by (simp add: hview_def lock_init_def my_id_def boot_harts_def hart_id_def guarded_cpu_def
      IntrLock_new_def intr_get_def riscv_documented_def bit_simps)

lemma lock_reach_boot: "lock_reach R secs d (lock_init d boot_harts)"
  by (rule lock_reach.start) (simp add: boot_harts_def hart_id_def)

lemma lock_reach_crit:
  "p \<in> secs \<Longrightarrow> i < NCPUS \<Longrightarrow> \<exists>s. lock_reach riscv_documented secs d s \<and>
     hview riscv_documented i True 1 Crit 1 (of_nat i) d p s"
  using acquire_runs[OF riscv_documented_ok hview_boot, of p secs i d]
    lock_reach_run[OF _ lock_reach_boot, of riscv_documented secs i d] by blast

section \<open>Data behind a lock\<close>

text \<open>
  The contract of a mutex towards the data it guards: when every critical section keeps an
  invariant, the invariant holds whenever the lock is free and whenever a hart has just
  obtained it, whatever the other harts do.
\<close>

locale guarded_data =
  fixes secs :: "('d \<Rightarrow> 'd) list set" and I :: "'d \<Rightarrow> bool"
  assumes section_keeps: "p \<in> secs \<Longrightarrow> I x \<Longrightarrow> I (run_section p x)"
begin

lemma serial_keeps: "serial secs d x \<Longrightarrow> I d \<Longrightarrow> I x"
  by (induction rule: serial.induct) (auto intro: section_keeps)

lemma free_invariant:
  assumes "riscv_ok R" "lock_reach R secs d s" "I d" "s_lock s = 0"
  shows "I (s_data s)"
  using serial_keeps[OF lock_reach_free[OF assms(1,2,4)] assms(3)] .

lemma acquired_invariant:
  assumes R: "riscv_ok R" and r: "lock_reach R secs d s" and I: "I d"
    and i: "i < NCPUS" and pc: "s_pc s i = L_Check \<or> s_pc s i = L_SetHart"
  shows "I (s_data s)"
proof -
  have inv: "lock_inv R s" by (rule lock_reach_inv[OF R r])
  have hi: "has_lock s i" using pc by (auto simp: has_lock_def takes_def)
  have "\<not> s_own s j" if "j < NCPUS" for j
    using lock_inv_alone(2)[OF inv i hi that] lock_invD(1)[OF inv i] pc by (cases "j = i") auto
  then have "s_data s = s_abs s" using inv by (simp add: lock_inv_def)
  then show ?thesis using serial_keeps[OF lock_reach_serial[OF r] I] by simp
qed

end

section \<open>Properties\<close>

text \<open>C2: Mutual exclusion. On any interleaving of the harts, a hart inside the critical section
  holds the lock word and its own number is in the hart field, its interrupts are off, and
  no other hart is inside.
\<close>

theorem mutex_mutual_exclusion:
  assumes "riscv_ok R" "lock_reach R secs d s" "i < NCPUS" "s_pc s i = Crit"
  shows "s_lock s = 1 \<and> s_hart s = of_nat i \<and> \<not> intr_get R (fst (s_cpu s i)) \<and>
    (\<forall>j<NCPUS. s_pc s j = Crit \<longrightarrow> j = i)"
proof -
  have inv: "lock_inv R s" by (rule lock_reach_inv[OF assms(1,2)])
  have crit: "has_lock s j" if "j < NCPUS" "s_pc s j = Crit" for j
    using lock_invD(1)[OF inv that(1)] that(2) by (simp add: has_lock_def)
  obtain e where e: "guarded_cpu R e (guards s i) (s_cpu s i)"
    using lock_inv_cpuE[OF inv assms(3)] .
  have "guards s i \<noteq> 0" using lock_invD(1)[OF inv assms(3)] assms(4) by (simp add: guards_def)
  then have "\<not> intr_get R (fst (s_cpu s i))" using e by (simp add: guarded_cpu_def)
  moreover have "s_lock s = 1" "s_hart s = of_nat i"
    using lock_invD(1,3,6)[OF inv assms(3)] crit assms(3,4) by auto
  ultimately show ?thesis
    using lock_inv_unique[OF inv] crit assms(3,4) by auto
qed

theorem mutex_mutual_exclusion_witness:
  "\<exists>s. lock_reach riscv_documented {[Suc, Suc]} (0::nat) s \<and> s_pc s 3 = Crit \<and>
     s_lock s = 1 \<and> (\<forall>j<NCPUS. s_pc s j = Crit \<longrightarrow> j = 3)"
proof -
  have 3: "3 < NCPUS" by (simp add: consts_simps)
  obtain s where s: "lock_reach riscv_documented {[Suc, Suc]} 0 s" "s_pc s 3 = Crit"
    using lock_reach_crit[of "[Suc, Suc]" "{[Suc, Suc]}" 3 0] 3 by (auto simp: hview_def)
  then show ?thesis
    using mutex_mutual_exclusion[OF riscv_documented_ok s(1) 3 s(2)] by blast
qed



text \<open>C10: A hart that calls \<open>lock\<close> while the lock is free and runs undisturbed obtains it, runs its
  section on the data, releases the lock and has its interrupt enable bit back.
\<close>

theorem mutex_section_completes:
  assumes R: "riscv_ok R" and r: "lock_reach R secs d0 s" and i: "i < NCPUS"
    and "s_pc s i = Idle" "s_lock s = 0" "p \<in> secs"
  shows "\<exists>s'. lock_run R secs i s s' \<and> s_pc s' i = Idle \<and> s_lock s' = 0 \<and>
    s_data s' = run_section p (s_data s) \<and>
    intr_get R (fst (s_cpu s' i)) = intr_get R (fst (s_cpu s i))"
proof -
  have inv: "lock_inv R s" by (rule lock_reach_inv[OF R r])
  have "\<not> s_own s i" using lock_invD(1)[OF inv i] assms(4) by simp
  then obtain e where e: "guarded_cpu R e 0 (s_cpu s i)"
    using lock_inv_cpuE[OF inv i] assms(4) by (auto simp: guards_def)
  then have v: "hview R i e 0 Idle 0 (s_hart s) (s_data s) (s_prog s i) s"
    using assms(4,5) lock_invD(7)[OF inv i] by (simp add: hview_def)
  show ?thesis
    using lock_runs[OF R v assms(6) i] e by (auto simp: hview_def guarded_cpu_def)
qed

theorem mutex_section_completes_witness:
  "\<exists>s'. lock_run riscv_documented {[Suc, Suc]} 3 (lock_init 5 boot_harts) s' \<and> s_data s' = 7"
  using mutex_section_completes[OF riscv_documented_ok lock_reach_boot[of _ "{[Suc, Suc]}" 5],
      where i = 3 and p = "[Suc, Suc]"]
  by (auto simp: consts_simps lock_init_def)

text \<open>On one hart: locking a free mutex succeeds, locking it again with the guard alive panics,
  and dropping the guard gives back the mutex free with the updated data, the nesting depth
  of the interrupt lock and the remembered interrupt state unchanged.
\<close>

theorem mutex_lock_drop_roundtrip:
  assumes R: "riscv_ok R" and g: "guarded_cpu R e n c" and n: "n < 2 ^ 60" and m: "m_lock m = 0"
  shows "\<exists>c1 c2 m1. Mutex_lock R c m = Inr (Some (c1, m1)) \<and> m_data m1 = m_data m \<and>
    Mutex_lock R c1 m1 = Inl relock_panic \<and>
    MutexGuard_drop R c1 (m1\<lparr>m_data := x\<rparr>) = Inr (c2, m\<lparr>m_hart := -1, m_data := x\<rparr>) \<and>
    guarded_cpu R e n c2 \<and> hart_id (fst c2) = hart_id (fst c)"
proof -
  have b: "int (Suc n) < 2 ^ 62" "int (Suc (Suc n)) < 2 ^ 62" "int (Suc (Suc (Suc n))) < 2 ^ 62"
    using n by simp_all
  obtain c0 where c0: "IntrLock_lock R c = Inr c0" "guarded_cpu R e (Suc n) c0" "hart_id (fst c0) = hart_id (fst c)"
    using IntrLock_lock_guarded[OF R g b(1)] by blast
  obtain c1 where c1: "Mutex_holding R c0 m = Inr (c1, False)" "guarded_cpu R e (Suc n) c1"
      "hart_id (fst c1) = hart_id (fst c)"
    using Mutex_holding_guarded[OF R c0(2) b(2), of m] m c0(3) by auto
  define m1 where "m1 = m\<lparr>m_lock := 1, m_hart := hart_id (fst c)\<rparr>"
  have lock: "Mutex_lock R c m = Inr (Some (c1, m1))"
    using c0 c1 m by (simp add: Mutex_lock_def obtain_lock_def sync_lock_test_and_set_def m1_def)
  obtain c3 where c3: "IntrLock_lock R c1 = Inr c3" "guarded_cpu R e (Suc (Suc n)) c3" "hart_id (fst c3) = hart_id (fst c)"
    using IntrLock_lock_guarded[OF R c1(2) b(2)] c1(3) by auto
  have again: "Mutex_lock R c1 m1 = Inl relock_panic"
    using Mutex_holding_guarded[OF R c3(2) b(3), of m1] c3
    by (auto simp: Mutex_lock_def m1_def relock_panic_def)
  obtain c4 where c4: "Mutex_holding R c1 (m1\<lparr>m_data := x\<rparr>) = Inr (c4, True)" "guarded_cpu R e (Suc n) c4"
      "hart_id (fst c4) = hart_id (fst c)"
    using Mutex_holding_guarded[OF R c1(2) b(2), of "m1\<lparr>m_data := x\<rparr>"] c1(3) by (auto simp: m1_def)
  obtain c2 where c2: "IntrLockGuard_drop R c4 = Inr c2" "guarded_cpu R e n c2" "hart_id (fst c2) = hart_id (fst c)"
    using IntrLockGuard_drop_guarded[OF R c4(2)] c4(3) by auto
  have "MutexGuard_drop R c1 (m1\<lparr>m_data := x\<rparr>) = Inr (c2, m\<lparr>m_hart := -1, m_data := x\<rparr>)"
    using c4(1) c2(1) m by (simp add: MutexGuard_drop_def m1_def sync_lock_release_def)
  moreover have "m_data m1 = m_data m" by (simp add: m1_def)
  ultimately show ?thesis using lock again c2(2,3) by blast
qed

theorem mutex_lock_drop_roundtrip_witness:
  "\<exists>c1 c2 m1. Mutex_lock riscv_documented (boot_harts 2, IntrLock_new) (Mutex_new (7::nat) ''pool'') = Inr (Some (c1, m1)) \<and>
    Mutex_lock riscv_documented c1 m1 = Inl relock_panic \<and>
    MutexGuard_drop riscv_documented c1 (m1\<lparr>m_data := 8\<rparr>) = Inr (c2, Mutex_new 8 ''pool'') \<and>
    intr_get riscv_documented (fst c2)"
proof -
  have "guarded_cpu riscv_documented True 0 (boot_harts 2, IntrLock_new)"
    using hview_boot[of 2 "0 :: nat"] by (simp add: hview_def lock_init_def)
  from mutex_lock_drop_roundtrip[OF riscv_documented_ok this, of "Mutex_new (7 :: nat) ''pool''" 8]
  show ?thesis by (auto simp: Mutex_new_def guarded_cpu_def)
qed

end
