(* ===== verification/Heap.thy ===== *)
theory Heap
  imports Mem Locks
begin

text \<open>
  The global allocator of \<open>mem.rs\<close>: \<open>OsAllocator\<close> runs every \<open>allocate\<close> and \<open>deallocate\<close> as a
  critical section of the mutex \<open>__ALLOC\<close>. The sections below are those of
  \<open>GlobalAlloc::alloc\<close> and \<open>GlobalAlloc::dealloc\<close>, with the blocks handed out as ghost state next
  to the allocator. A section that panics stops its hart with the lock held; here it
  leaves the data as it is.
\<close>

type_synonym heap = "Allocator \<times> (usize \<rightharpoonup> nat)"

definition alloc_section :: "Layout \<Rightarrow> heap \<Rightarrow> heap" where
  "alloc_section l = (\<lambda>(A, M). case os_alloc A l of
      Inl p \<Rightarrow> (A, M)
    | Inr (A', a) \<Rightarrow> (A', M(a \<mapsto> pages_for (layout_size l))))"

text \<open>\<open>dealloc\<close> may only be called with a block that is handed out.\<close>

definition dealloc_section :: "usize \<Rightarrow> Layout \<Rightarrow> heap \<Rightarrow> heap" where
  "dealloc_section a l = (\<lambda>(A, M). if a \<in> dom M then
      (case os_dealloc A a l of Inl p \<Rightarrow> (A, M) | Inr A' \<Rightarrow> (A', M(a := None)))
    else (A, M))"

definition heap_sections :: "(heap \<Rightarrow> heap) list set" where
  "heap_sections = {[alloc_section l] | l. 0 < unat (layout_size l)} \<union> {[dealloc_section a l] | a l. True}"

definition heap_ok :: "heap \<Rightarrow> bool" where
  "heap_ok = (\<lambda>(A, M). owns A M)"

section \<open>Lemmas\<close>

lemma heap_ok_alloc: "heap_ok h \<Longrightarrow> 0 < unat (layout_size l) \<Longrightarrow> heap_ok (alloc_section l h)"
  by (cases h) (auto simp: heap_ok_def alloc_section_def os_alloc_def split: sum.split dest: fs.alloc_new)

lemma heap_ok_dealloc:
  assumes "heap_ok h"
  shows "heap_ok (dealloc_section a l h)"
proof -
  obtain A M where h: "h = (A, M)" by (cases h)
  then have o: "owns A M" using assms by (simp add: heap_ok_def)
  show ?thesis
  proof (cases "M a")
    case None
    then show ?thesis using assms h by (auto simp: dealloc_section_def)
  next
    case (Some n)
    then obtain A' where "deallocate A a = Inr A'" "owns A' (M(a := None))"
      using fs.dealloc_old[OF o] by blast
    then show ?thesis using Some h by (simp add: dealloc_section_def os_dealloc_def heap_ok_def domIff)
  qed
qed

interpretation heap: guarded_data heap_sections heap_ok
  by unfold_locales (auto simp: heap_sections_def heap_ok_alloc heap_ok_dealloc)

lemma heap_ok_start: "heap_ok (Allocator_new\<lparr>base_addr := 0x80100000\<rparr>, Map.empty)"
  using owns_example by (simp add: heap_ok_def)

section \<open>Properties\<close>

text \<open>C9: With any number of harts allocating and freeing at the same time through the global
  allocator, the blocks that are handed out are page aligned and disjoint whenever the
  allocator's lock is free.
\<close>

theorem heap_blocks_disjoint_on_all_harts:
  assumes "riscv_ok R" "lock_reach R heap_sections (A0, M0) s" "owns A0 M0" "s_lock s = 0"
    and "s_data s = (A, M)" "M p = Some n" "M q = Some m" "p \<noteq> q"
  shows "unat p mod 4096 = 0 \<and> (unat p + n * 4096 \<le> unat q \<or> unat q + m * 4096 \<le> unat p)"
proof -
  have "heap_ok (s_data s)"
    using heap.free_invariant[OF assms(1,2) _ assms(4)] assms(3) by (simp add: heap_ok_def)
  then have o: "owns A M" by (simp add: assms(5) heap_ok_def)
  show ?thesis
    using fs.owned_aligned[OF o assms(6)] fs.owned_apart[OF o assms(6,7)]
      fs.owned_apart[OF o assms(7,6)] assms(8) by (auto simp: linorder_neq_iff)
qed

theorem heap_blocks_disjoint_on_all_harts_witness:
  "\<exists>A0 M0 s A M p q. lock_reach riscv_documented heap_sections (A0, M0) s \<and> s_lock s = 0 \<and>
    s_data s = (A, M) \<and> M p = Some 1 \<and> M q = Some 2 \<and>
    (unat p + 4096 \<le> unat q \<or> unat q + 8192 \<le> unat p)"
proof -
  let ?l = "\<lparr>layout_size = 8192, layout_align = 4096\<rparr>"
  obtain A1 where A1: "allocate (Allocator_new\<lparr>base_addr := 0x80100000\<rparr>) 4096 = Inr (A1, 0x80100000)"
      "alloc_rel A1 [0 \<mapsto> 1]"
    using allocate_new_example[of 4096] by (auto simp: pages_for_def MAX_PAGE_num)
  have own: "owns A1 [0x80100000 \<mapsto> 1]"
    using fs.alloc_new[OF owns_example A1(1)] by (simp add: pages_for_def)
  have "room [0 \<mapsto> 1] 2 1" by (auto simp: room_def covered_def MAX_PAGE_num split: if_splits)
  moreover have "\<not> room [0 \<mapsto> 1] 2 0"
    by (auto simp: room_def covered_def intro!: exI[of _ "0 :: nat"])
  ultimately obtain A2 q where A2: "allocate A1 8192 = Inr (A2, q)"
    using allocate_fit[OF A1(2), of 8192 2 1] by (auto simp: pages_for_def)
  have q: "q \<noteq> 0x80100000" using fs.alloc_new[OF own A2] by (auto split: if_splits)
  have 4: "4 < NCPUS" by (simp add: consts_simps)
  have "[alloc_section ?l] \<in> heap_sections" unfolding heap_sections_def by fastforce
  from lock_runs[OF riscv_documented_ok hview_boot this 4, of "(A1, [0x80100000 \<mapsto> 1])"]
  obtain s where run: "lock_run riscv_documented heap_sections 4 (lock_init (A1, [0x80100000 \<mapsto> 1]) boot_harts) s"
    and s: "s_lock s = 0" "s_data s = (A2, [0x80100000 \<mapsto> 1, q \<mapsto> 2])"
    by (auto simp: hview_def alloc_section_def os_alloc_def A2 pages_for_def)
  have reach: "lock_reach riscv_documented heap_sections (A1, [0x80100000 \<mapsto> 1]) s"
    by (rule lock_reach_run[OF run lock_reach_boot 4])
  show ?thesis
    using heap_blocks_disjoint_on_all_harts[OF riscv_documented_ok reach own s,
        where p = "0x80100000" and n = 1 and q = q and m = 2] q reach s
    by (intro exI[of _ A1] exI[of _ "[0x80100000 \<mapsto> 1]"] exI[of _ s] exI[of _ A2]
        exI[of _ "[0x80100000 \<mapsto> 1, q \<mapsto> 2]"] exI[of _ "0x80100000"] exI[of _ q]) simp
qed

end
