(* ===== verification/Page.thy ===== *)
theory Page
  imports Mem Arch
begin

text \<open>
  \<open>kernel/src/page.rs\<close>: Sv39 page tables in physical memory. A frame is named by its address
  and read as 512 cells of eight bytes; an entry of a table is one cell. Tables and user
  pages are boxes, so creating and dropping them are calls of the frame allocator.
\<close>

section \<open>Entries\<close>

datatype EntryAttributes = EA_D | EA_A | EA_G | EA_U | EA_X | EA_W | EA_R | EA_V | EA_RW | EA_RX | EA_UR | EA_URW | EA_URX

text \<open>\<open>EntryAttributes::X as usize\<close>\<close>

primrec attr :: "EntryAttributes \<Rightarrow> usize" where
  "attr EA_D = push_bit 7 1"
| "attr EA_A = push_bit 6 1"
| "attr EA_G = push_bit 5 1"
| "attr EA_U = push_bit 4 1"
| "attr EA_X = push_bit 3 1"
| "attr EA_W = push_bit 2 1"
| "attr EA_R = push_bit 1 1"
| "attr EA_V = push_bit 0 1"
| "attr EA_RW = push_bit 1 0b11"
| "attr EA_RX = push_bit 1 0b101"
| "attr EA_UR = 0b10010"
| "attr EA_URW = 0b10110"
| "attr EA_URX = 0b11010"

type_synonym Entry = usize

definition is_d :: "Entry \<Rightarrow> bool" where
  "is_d e = (e AND attr EA_D \<noteq> 0)"

definition is_a :: "Entry \<Rightarrow> bool" where
  "is_a e = (e AND attr EA_A \<noteq> 0)"

definition is_g :: "Entry \<Rightarrow> bool" where
  "is_g e = (e AND attr EA_G \<noteq> 0)"

definition is_u :: "Entry \<Rightarrow> bool" where
  "is_u e = (e AND attr EA_U \<noteq> 0)"

definition is_x :: "Entry \<Rightarrow> bool" where
  "is_x e = (e AND attr EA_X \<noteq> 0)"

definition is_w :: "Entry \<Rightarrow> bool" where
  "is_w e = (e AND attr EA_W \<noteq> 0)"

definition is_r :: "Entry \<Rightarrow> bool" where
  "is_r e = (e AND attr EA_R \<noteq> 0)"

definition is_v :: "Entry \<Rightarrow> bool" where
  "is_v e = (e AND attr EA_V \<noteq> 0)"

definition is_leaf :: "Entry \<Rightarrow> bool" where
  "is_leaf e = (e AND 0xe \<noteq> 0)"

definition Entry_paddr :: "Entry \<Rightarrow> usize" where
  "Entry_paddr e = push_bit 2 (e AND NOT 0x3ff)"

definition Entry_flags :: "Entry \<Rightarrow> usize" where
  "Entry_flags e = e AND 0x3ff"

definition Entry_new :: "usize \<Rightarrow> usize \<Rightarrow> Entry" where
  "Entry_new ppn flags = drop_bit 2 (ppn AND NOT 0xfff) OR flags"

definition ppn0 :: "usize \<Rightarrow> usize" where
  "ppn0 a = drop_bit 12 a AND 0x1ff"

definition ppn1 :: "usize \<Rightarrow> usize" where
  "ppn1 a = drop_bit 21 a AND 0x1ff"

definition ppn2 :: "usize \<Rightarrow> usize" where
  "ppn2 a = drop_bit 30 a AND 0x3ffffff"

definition PPN_idx :: "usize \<Rightarrow> nat \<Rightarrow> usize res" where
  "PPN_idx a k = (if k = 0 then Inr (ppn0 a) else if k = 1 then Inr (ppn1 a)
     else if k = 2 then Inr (ppn2 a) else Inl Unreachable)"

definition vpn0 :: "usize \<Rightarrow> usize" where
  "vpn0 a = drop_bit 12 a AND 0x1ff"

definition vpn1 :: "usize \<Rightarrow> usize" where
  "vpn1 a = drop_bit 21 a AND 0x1ff"

definition vpn2 :: "usize \<Rightarrow> usize" where
  "vpn2 a = drop_bit 30 a AND 0x1ff"

definition VPN_idx :: "usize \<Rightarrow> nat \<Rightarrow> usize res" where
  "VPN_idx a k = (if k = 0 then Inr (vpn0 a) else if k = 1 then Inr (vpn1 a)
     else if k = 2 then Inr (vpn2 a) else Inl Unreachable)"

section \<open>Physical memory\<close>

type_synonym cells = "usize \<Rightarrow> nat \<Rightarrow> usize"

record kmem =
  alc :: Allocator
  mem :: cells

definition TABLE_ENTRY_CNT :: nat where
  "TABLE_ENTRY_CNT = 512"

definition upd_cell :: "usize \<Rightarrow> nat \<Rightarrow> usize \<Rightarrow> cells \<Rightarrow> cells" where
  "upd_cell t k e c = c(t := (c t)(k := e))"

definition set_entry :: "usize \<Rightarrow> nat \<Rightarrow> Entry \<Rightarrow> kmem \<Rightarrow> kmem" where
  "set_entry t k e m = m\<lparr>mem := upd_cell t k e (mem m)\<rparr>"

text \<open>
  A box of 4096 bytes: a frame from the allocator, filled with the value that is moved into
  it. \<open>Table::new()\<close> and \<open>Page::new()\<close> are all zero.
\<close>

definition box_frame :: "(nat \<Rightarrow> usize) \<Rightarrow> kmem \<Rightarrow> (kmem \<times> usize) res" where
  "box_frame contents m =
     rbind (os_alloc (alc m) \<lparr>layout_size = PAGE_SIZE, layout_align = PAGE_SIZE\<rparr>) (\<lambda>(al, p).
       Inr (m\<lparr>alc := al, mem := (mem m)(p := contents)\<rparr>, p))"

definition free_frame :: "usize \<Rightarrow> kmem \<Rightarrow> kmem res" where
  "free_frame p m =
     rbind (os_dealloc (alc m) p \<lparr>layout_size = PAGE_SIZE, layout_align = PAGE_SIZE\<rparr>) (\<lambda>al.
       Inr (m\<lparr>alc := al\<rparr>))"

definition Table_new :: "nat \<Rightarrow> Entry" where
  "Table_new = (\<lambda>i. 0)"

definition Page_new :: "kmem \<Rightarrow> (kmem \<times> usize) res" where
  "Page_new m = box_frame (\<lambda>i. 0) m"

definition clone_page :: "usize \<Rightarrow> kmem \<Rightarrow> (kmem \<times> usize) res" where
  "clone_page src m =
     rbind (Page_new m) (\<lambda>(m', pg). Inr (m'\<lparr>mem := (mem m')(pg := mem m' src)\<rparr>, pg))"

section \<open>Mapping\<close>

text \<open>\<open>entry.add(k).as_mut().unwrap()\<close>: the null pointer has no reference.\<close>

definition entry_ref :: "usize \<Rightarrow> usize \<Rightarrow> (usize \<times> nat) res" where
  "entry_ref t k = rif (t + k * 8 = 0) Unwrap (Inr (t, unat k))"

primrec map_walk :: "usize \<Rightarrow> nat list \<Rightarrow> usize \<times> nat \<Rightarrow> kmem \<Rightarrow> (kmem \<times> usize \<times> nat) res" where
  "map_walk va [] v m = Inr (m, v)"
| "map_walk va (lvl # lvls) v m =
     rbind (if \<not> is_v (mem m (fst v) (snd v))
            then rbind (box_frame Table_new m) (\<lambda>(m', page).
                   Inr (set_entry (fst v) (snd v) (Entry_new page (attr EA_V)) m'))
            else Inr m) (\<lambda>m'.
     rbind (VPN_idx va lvl) (\<lambda>k.
     rbind (entry_ref (Entry_paddr (mem m' (fst v) (snd v))) k) (\<lambda>v'.
       map_walk va lvls v' m')))"

definition map_addr :: "usize \<Rightarrow> usize \<Rightarrow> usize \<Rightarrow> usize \<Rightarrow> nat \<Rightarrow> kmem \<Rightarrow> kmem res" where
  "map_addr tbl vaddr paddr flags level m =
     rif (paddr mod PAGE_SIZE \<noteq> 0) (Panic ''paddr {:x} not aligned'')
    (rif (vaddr mod PAGE_SIZE \<noteq> 0) (Panic ''vaddr {:x} not aligned'')
      (rbind (map_walk vaddr (rev [level..<2]) (tbl, unat (vpn2 vaddr)) m) (\<lambda>(m', v).
         Inr (set_entry (fst v) (snd v) (Entry_new paddr (flags OR attr EA_V)) m'))))"

definition Table_map :: "usize \<Rightarrow> usize \<Rightarrow> usize \<Rightarrow> usize \<Rightarrow> kmem \<Rightarrow> kmem res" where
  "Table_map tbl vaddr pg flags m =
     rif (flags AND attr EA_U = 0) (Panic ''you may only map user page'')
       (map_addr tbl vaddr pg flags 0 m)"

definition kernel_map :: "usize \<Rightarrow> usize \<Rightarrow> usize \<Rightarrow> usize \<Rightarrow> kmem \<Rightarrow> kmem res" where
  "kernel_map tbl vaddr paddr flags m =
     rif (flags AND attr EA_U \<noteq> 0) (Panic ''you may only map kernel page'')
       (map_addr tbl vaddr paddr flags 0 m)"

primrec paddr_walk :: "usize \<Rightarrow> nat list \<Rightarrow> usize \<times> nat \<Rightarrow> kmem \<Rightarrow> usize option res" where
  "paddr_walk va [] v m = Inr (Some (Entry_paddr (mem m (fst v) (snd v))))"
| "paddr_walk va (lvl # lvls) v m =
     (if \<not> is_v (mem m (fst v) (snd v)) then Inr None
      else rbind (VPN_idx va lvl) (\<lambda>k.
           rbind (entry_ref (Entry_paddr (mem m (fst v) (snd v))) k) (\<lambda>v'.
             paddr_walk va lvls v' m)))"

definition paddr_of :: "usize \<Rightarrow> usize \<Rightarrow> kmem \<Rightarrow> usize option res" where
  "paddr_of tbl vaddr m =
     rif (vaddr mod PAGE_SIZE \<noteq> 0) (Panic ''vaddr {:x} not aligned'')
       (paddr_walk vaddr (rev [0..<2]) (tbl, unat (vpn2 vaddr)) m)"

definition id_map_range :: "usize \<Rightarrow> usize \<Rightarrow> usize \<Rightarrow> usize \<Rightarrow> kmem \<Rightarrow> kmem res" where
  "id_map_range tbl start stop bits m =
     rbind (align_val_down start PAGE_ORDER) (\<lambda>memaddr.
     rbind (align_val stop 12) (\<lambda>stop'.
     rbind (sub_chk stop' memaddr) (\<lambda>len.
     rbind (rfor 0 (unat (len div PAGE_SIZE)) (\<lambda>_ (a, m).
         rbind (map_addr tbl a a bits 0 m) (\<lambda>m'.
         rbind (add_chk a PAGE_SIZE) (\<lambda>a'. Inr (a', m')))) (memaddr, m)) (\<lambda>(a, m').
       Inr m'))))"

definition map_range :: "usize \<Rightarrow> usize \<Rightarrow> usize \<Rightarrow> usize \<Rightarrow> usize \<Rightarrow> kmem \<Rightarrow> kmem res" where
  "map_range tbl start stop vaddr_start bits m =
     (let memaddr = start AND NOT (PAGE_SIZE - 1); vaddr = vaddr_start AND NOT (PAGE_SIZE - 1)
      in rbind (align_val stop 12) (\<lambda>stop'.
         rbind (sub_chk stop' memaddr) (\<lambda>len.
         rbind (rfor 0 (unat (len div PAGE_SIZE)) (\<lambda>_ (a, va, m).
             rbind (map_addr tbl va a bits 0 m) (\<lambda>m'.
             rbind (add_chk a (push_bit 12 1)) (\<lambda>a'.
             rbind (add_chk va (push_bit 12 1)) (\<lambda>va'. Inr (a', va', m'))))) (memaddr, vaddr, m)) (\<lambda>(a, va, m').
           Inr m'))))"

section \<open>Walks over a whole table\<close>

text \<open>
  \<open>_walk\<close> prints one line per valid entry: the number of dots, the index, the virtual and the
  physical address and, for a leaf, its flags.
\<close>

datatype walk_line = Sub nat nat usize usize | Leaf nat nat usize usize string

definition flag_text :: "Entry \<Rightarrow> string" where
  "flag_text v = (if is_u v then ''U'' else []) @ (if is_r v then ''R'' else []) @
     (if is_w v then ''W'' else []) @ (if is_x v then ''X'' else [])"

definition walk_leaf :: "nat \<Rightarrow> usize \<Rightarrow> nat \<Rightarrow> Entry \<Rightarrow> walk_line" where
  "walk_leaf level vpn i v =
     Leaf (2 - level) i (push_bit 12 (push_bit 9 vpn OR of_nat i)) (Entry_paddr v) (flag_text v)"

primrec walk_level :: "nat \<Rightarrow> usize \<Rightarrow> usize \<Rightarrow> kmem \<Rightarrow> walk_line list res" where
  "walk_level 0 vpn t m = rfor 0 TABLE_ENTRY_CNT (\<lambda>i out. let v = mem m t i in
     if is_v v then
       if \<not> is_leaf v then rif (Entry_paddr v = 0) Unwrap (Inl Overflow)
       else Inr (out @ [walk_leaf 0 vpn i v])
     else Inr out) []"
| "walk_level (Suc level) vpn t m = rfor 0 TABLE_ENTRY_CNT (\<lambda>i out. let v = mem m t i in
     if is_v v then
       if \<not> is_leaf v then
         rif (2 < Suc level) Overflow
         (rif (Entry_paddr v = 0) Unwrap
         (rbind (walk_level level (push_bit 9 vpn OR of_nat i) (Entry_paddr v) m) (\<lambda>sub.
            Inr (out @ Sub (2 - Suc level) i
              (push_bit (9 * Suc level + 12) (push_bit 9 vpn OR of_nat i)) (Entry_paddr v) # sub))))
       else rif (2 < Suc level) Overflow (Inr (out @ [walk_leaf (Suc level) vpn i v]))
     else Inr out) []"

definition walk :: "usize \<Rightarrow> kmem \<Rightarrow> walk_line list res" where
  "walk t m = walk_level 2 0 t m"

text \<open>
  \<open>drop_walk\<close> takes a sub-table back into a box, walks it with \<open>level - 1\<close> and then drops the
  box, which runs \<open>Table::drop\<close>, that is \<open>drop_walk(2)\<close>, on the same table once more before the
  frame is freed. The first argument bounds the nesting of the calls.
\<close>

primrec drop_walk :: "nat \<Rightarrow> nat \<Rightarrow> usize \<Rightarrow> kmem \<Rightarrow> kmem res" where
  "drop_walk 0 level t m = Inl Recursion"
| "drop_walk (Suc n) level t m = rfor 0 TABLE_ENTRY_CNT (\<lambda>i m. let v = mem m t i in
     if is_v v then
       if is_leaf v then (if is_u v then free_frame (Entry_paddr v) m else Inr m)
       else rif (level = 0) Overflow
         (rbind (drop_walk n (level - 1) (Entry_paddr v) m) (\<lambda>m1.
          rbind (drop_walk n 2 (Entry_paddr v) m1) (\<lambda>m2.
            free_frame (Entry_paddr v) m2)))
     else Inr m) m"

definition Table_drop :: "nat \<Rightarrow> usize \<Rightarrow> kmem \<Rightarrow> kmem res" where
  "Table_drop n t m = drop_walk n 2 t m"

text \<open>Dropping a \<open>Box<Table>\<close>: \<open>Table::drop\<close>, then the frame.\<close>

definition drop_box_table :: "nat \<Rightarrow> usize \<Rightarrow> kmem \<Rightarrow> kmem res" where
  "drop_box_table n t m = rbind (Table_drop n t m) (free_frame t)"

text \<open>\<open>clone_walk\<close> fills a table on the stack and boxes it at the end.\<close>

primrec clone_walk :: "nat \<Rightarrow> usize \<Rightarrow> kmem \<Rightarrow> (kmem \<times> usize) res" where
  "clone_walk 0 t m = rbind (rfor 0 TABLE_ENTRY_CNT (\<lambda>i (m, pgtable). let v = mem m t i in
     if is_v v then
       if is_leaf v then
         if is_u v then rbind (clone_page (Entry_paddr v) m) (\<lambda>(m', pg).
           Inr (m', pgtable(i := Entry_new pg (Entry_flags v))))
         else Inr (m, pgtable)
       else rif (Entry_paddr v = 0) Unwrap (Inl Overflow)
     else Inr (m, pgtable)) (m, Table_new)) (\<lambda>(m', pgtable). box_frame pgtable m')"
| "clone_walk (Suc level) t m = rbind (rfor 0 TABLE_ENTRY_CNT (\<lambda>i (m, pgtable). let v = mem m t i in
     if is_v v then
       if is_leaf v then
         if is_u v then rbind (clone_page (Entry_paddr v) m) (\<lambda>(m', pg).
           Inr (m', pgtable(i := Entry_new pg (Entry_flags v))))
         else Inr (m, pgtable)
       else rif (Entry_paddr v = 0) Unwrap
         (rbind (clone_walk level (Entry_paddr v) m) (\<lambda>(m', pg).
           Inr (m', pgtable(i := Entry_new pg (Entry_flags v)))))
     else Inr (m, pgtable)) (m, Table_new)) (\<lambda>(m', pgtable). box_frame pgtable m')"

definition Table_clone :: "usize \<Rightarrow> kmem \<Rightarrow> (kmem \<times> usize) res" where
  "Table_clone t m = clone_walk 2 t m"

primrec unmap_user :: "nat \<Rightarrow> usize \<Rightarrow> kmem \<Rightarrow> kmem res" where
  "unmap_user 0 t m = Inl Recursion"
| "unmap_user (Suc n) t m = rfor 0 TABLE_ENTRY_CNT (\<lambda>i m. let v = mem m t i in
     if is_v v then
       if is_leaf v then
         (if is_u v then rbind (free_frame (Entry_paddr v) m) (\<lambda>m'. Inr (set_entry t i 0 m'))
          else Inr m)
       else rif (Entry_paddr v = 0) Unwrap (unmap_user n (Entry_paddr v) m)
     else Inr m) m"

section \<open>The kernel page table\<close>

text \<open>
  The page table part of \<open>mem::init\<close>; \<open>kp\<close> is the address of the static \<open>KERNEL_PGTABLE\<close>.
\<close>

definition init_pgtable :: "linker \<Rightarrow> usize \<Rightarrow> kmem \<Rightarrow> kmem res" where
  "init_pgtable l kp m =
     rbind (id_map_range kp (TEXT_START l) (TEXT_END l) (attr EA_RX) m) (\<lambda>m.
     rbind (id_map_range kp (RODATA_START l) (RODATA_END l) (attr EA_RX) m) (\<lambda>m.
     rbind (id_map_range kp (DATA_START l) (DATA_END l) (attr EA_RW) m) (\<lambda>m.
     rbind (id_map_range kp (BSS_START l) (BSS_END l) (attr EA_RW) m) (\<lambda>m.
     rbind (id_map_range kp (KERNEL_STACK_START l) (KERNEL_STACK_END l) (attr EA_RW) m) (\<lambda>m.
     rbind (kernel_map kp UART_BASE_ADDR UART_BASE_ADDR (attr EA_RW) m) (\<lambda>m.
     rbind (kernel_map kp VIRTIO_MMIO_BASE VIRTIO_MMIO_BASE (attr EA_RW) m) (\<lambda>m.
     rbind (kernel_map kp TRAMPOLINE_START (TRAMPOLINE_TEXT_START l) (attr EA_RX) m) (\<lambda>m.
     rbind (add_chk (HEAP_START l) (HEAP_SIZE l)) (\<lambda>heap_end.
     rbind (id_map_range kp (HEAP_START l) heap_end (attr EA_RW) m) (\<lambda>m.
     rbind (id_map_range kp CLINT_BASE (CLINT_BASE + 0x10000) (attr EA_RW) m) (\<lambda>m.
       id_map_range kp PLIC_BASE (PLIC_BASE + 0x400000) (attr EA_RW) m)))))))))))"

definition mem_init :: "linker \<Rightarrow> usize \<Rightarrow> kmem \<Rightarrow> kmem res" where
  "mem_init l kp m = rbind (init_allocator l (alc m)) (\<lambda>al. init_pgtable l kp (m\<lparr>alc := al\<rparr>))"

text \<open>\<open>hartinit\<close> also flushes the translation caches (\<open>sfence.vma\<close>), which the model does not have.\<close>

definition hartinit :: "usize \<Rightarrow> hart \<Rightarrow> hart res" where
  "hartinit kp h = rbind (build_satp 8 0 kp) (\<lambda>satp_val. Inr (h\<lparr>satp := satp_val\<rparr>))"

end
