(* ===== verification/PageTree.thy ===== *)
theory PageTree
  imports Page
begin

text \<open>
  The tables of \<open>page.rs\<close> as trees in physical memory: the entry format, the invariant
  \<open>aspace\<close> of an address space, and the two changes a mapping makes to it, linking a new
  table and writing a leaf entry. The main lemma is \<open>map_addr_ok\<close>.
\<close>

section \<open>Definitions\<close>

text \<open>
  Flags that fit in the low ten bits of an entry, page addresses, and the flags of a leaf.
\<close>

definition small_flags :: "usize \<Rightarrow> bool" where
  "small_flags f \<longleftrightarrow> f AND NOT 0x3ff = 0"

definition page_aligned :: "usize \<Rightarrow> bool" where
  "page_aligned a \<longleftrightarrow> a mod PAGE_SIZE = 0"

definition page_flags :: "usize \<Rightarrow> bool" where
  "page_flags f \<longleftrightarrow> small_flags f \<and> is_leaf f"

text \<open>
  \<open>tb c r p\<close>: the table reached from the root \<open>r\<close> along the indices \<open>p\<close>. Tables sit at paths of
  length at most two; the third index selects a leaf entry. \<open>tree_ok\<close>: no table is reached
  twice. \<open>lookup\<close> is the address space as a map from paths of length three to leaf entries.
\<close>

fun tb :: "cells \<Rightarrow> usize \<Rightarrow> nat list \<Rightarrow> usize option" where
  "tb c r [] = Some r"
| "tb c r (i # p) = (if is_v (c r i) then tb c (Entry_paddr (c r i)) p else None)"

definition path :: "nat \<Rightarrow> nat list \<Rightarrow> bool" where
  "path n p \<longleftrightarrow> length p \<le> n \<and> (\<forall>i\<in>set p. i < TABLE_ENTRY_CNT)"

definition tree_ok :: "cells \<Rightarrow> usize \<Rightarrow> bool" where
  "tree_ok c r \<longleftrightarrow> (\<forall>p q t. path 2 p \<longrightarrow> path 2 q \<longrightarrow> tb c r p = Some t \<longrightarrow> tb c r q = Some t \<longrightarrow> p = q)"

definition tables :: "cells \<Rightarrow> usize \<Rightarrow> usize set" where
  "tables c r = {t. \<exists>p. path 2 p \<and> tb c r p = Some t}"

definition lookup :: "cells \<Rightarrow> usize \<Rightarrow> nat list \<rightharpoonup> Entry" where
  "lookup c r p =
     (if length p = 3 \<and> path 3 p then
        case tb c r (butlast p) of
          None \<Rightarrow> None
        | Some t \<Rightarrow> if is_v (c t (last p)) then Some (c t (last p)) else None
      else None)"

definition vpath :: "usize \<Rightarrow> nat list" where
  "vpath va = [unat (vpn2 va), unat (vpn1 va), unat (vpn0 va)]"

text \<open>
  The invariant of an address space with root \<open>r\<close>; \<open>M\<close> are the blocks the allocator has handed
  out. Every table but the root is a block of one page; the root is a block or lies below
  the heap; entries above the last level are pointers, entries of the last level leaves.
\<close>

definition root_ok :: "kmem \<Rightarrow> (usize \<rightharpoonup> nat) \<Rightarrow> usize \<Rightarrow> bool" where
  "root_ok m M r \<longleftrightarrow> M r = Some 1 \<or> unat r + 4096 \<le> unat (base_addr (alc m))"

definition levels_ok :: "cells \<Rightarrow> usize \<Rightarrow> bool" where
  "levels_ok c r \<longleftrightarrow> (\<forall>p t i. path 2 p \<longrightarrow> tb c r p = Some t \<longrightarrow> i < TABLE_ENTRY_CNT \<longrightarrow> is_v (c t i) \<longrightarrow>
     (is_leaf (c t i) \<longleftrightarrow> length p = 2))"

definition aspace :: "usize \<Rightarrow> kmem \<Rightarrow> (usize \<rightharpoonup> nat) \<Rightarrow> bool" where
  "aspace r m M \<longleftrightarrow> owns (alc m) M \<and> 0 < unat (base_addr (alc m)) \<and> root_ok m M r \<and> tree_ok (mem m) r \<and>
     levels_ok (mem m) r \<and> (\<forall>p t. path 2 p \<longrightarrow> p \<noteq> [] \<longrightarrow> tb (mem m) r p = Some t \<longrightarrow> M t = Some 1)"

text \<open>
  The panics of an allocator without free pages.
\<close>

definition alloc_panics :: "panic set" where
  "alloc_panics = {Bounds, Panic ''no available page''}"

text \<open>
  \<open>reserve P r m\<close>: there are enough free pages for all tables at the paths \<open>P\<close>.
\<close>

definition reserve :: "nat list set \<Rightarrow> usize \<Rightarrow> kmem \<Rightarrow> bool" where
  "reserve P r m \<longleftrightarrow> finite P \<and> (\<forall>p\<in>P. path 2 p) \<and>
     card {p \<in> P. tb (mem m) r p = None} \<le> free_pages (alc m)"

text \<open>
  What mapping may change: blocks stay, tables are added from fresh blocks, and memory
  outside the tables keeps its contents.
\<close>

definition extends :: "usize \<Rightarrow> kmem \<Rightarrow> (usize \<rightharpoonup> nat) \<Rightarrow> kmem \<Rightarrow> (usize \<rightharpoonup> nat) \<Rightarrow> bool" where
  "extends r m M m' M' \<longleftrightarrow> M \<subseteq>\<^sub>m M' \<and> base_addr (alc m') = base_addr (alc m) \<and>
     tables (mem m) r \<subseteq> tables (mem m') r \<and>
     tables (mem m') r \<subseteq> tables (mem m) r \<union> (dom M' - dom M) \<and>
     dom M' \<subseteq> dom M \<union> tables (mem m') r \<and>
     (\<forall>f. f \<notin> tables (mem m') r \<longrightarrow> mem m' f = mem m f)"

text \<open>
  The paths of the tables needed to map one page.
\<close>

definition dirs :: "usize \<Rightarrow> nat list set" where
  "dirs va = {[unat (vpn2 va)], [unat (vpn2 va), unat (vpn1 va)]}"

section \<open>Entries\<close>

declare attr.simps [simp del]

lemma mask_nums: "(0x3ff :: usize) = mask 10" "(0xfff :: usize) = mask 12" "(0x1ff :: usize) = mask 9"
  "(0x3ffffff :: usize) = mask 26"
  by (simp_all add: mask_eq_exp_minus_1)

lemma is_bit:
  "is_v e = bit e 0" "is_r e = bit e 1" "is_w e = bit e 2" "is_x e = bit e 3" "is_u e = bit e 4"
  "is_g e = bit e 5" "is_a e = bit e 6" "is_d e = bit e 7"
  unfolding is_v_def is_r_def is_w_def is_x_def is_u_def is_g_def is_a_def is_d_def attr.simps and_push_one
  by simp_all

lemma is_leaf_bit: "is_leaf e = (bit e 1 \<or> bit e 2 \<or> bit e 3)"
proof -
  have "(0xe :: usize) = push_bit 1 1 OR push_bit 2 1 OR push_bit 3 1" by simp
  then show ?thesis
    by (simp only: is_leaf_def bit.conj_disj_distrib or_eq_0_iff and_push_one de_Morgan_conj) simp
qed

lemma attr_V_bit: "bit (attr EA_V) k = (k = 0)"
  by (auto simp: attr.simps bit_simps)

lemma bit_usize_less: "bit (a :: usize) k \<Longrightarrow> k < 64"
  using bit_imp_le_length[of a k] by simp

lemma small_flags_bit: "small_flags f \<longleftrightarrow> (\<forall>k. bit f k \<longrightarrow> k < 10)"
  unfolding small_flags_def mask_nums by (auto simp: bit_eq_iff bit_simps dest: bit_usize_less)

lemma page_aligned_bit: "page_aligned a \<longleftrightarrow> (\<forall>k. bit a k \<longrightarrow> 12 \<le> k)"
proof -
  have "a mod PAGE_SIZE = take_bit 12 a" by (simp add: consts_simps take_bit_eq_mod)
  then show ?thesis by (auto simp: page_aligned_def bit_eq_iff bit_simps not_less dest: bit_usize_less)
qed

lemma Entry_paddr_new:
  assumes "small_flags f" "page_aligned p"
  shows "Entry_paddr (Entry_new p f) = p"
proof (rule bit_word_eqI)
  fix n assume "n < LENGTH(64)"
  then show "bit (Entry_paddr (Entry_new p f)) n = bit p n"
    using assms unfolding Entry_paddr_def Entry_new_def mask_nums small_flags_bit page_aligned_bit
    by (cases "12 \<le> n") (auto simp: bit_simps le_add_diff_inverse simp flip: add_2_eq_Suc)
qed

lemma Entry_flags_new: "small_flags f \<Longrightarrow> Entry_flags (Entry_new p f) = f"
  unfolding Entry_flags_def Entry_new_def mask_nums small_flags_bit
  by (intro bit_word_eqI) (auto simp: bit_simps dest: spec)

lemma Entry_new_bit: "k < 10 \<Longrightarrow> bit (Entry_new p f) k = bit f k"
  unfolding Entry_new_def mask_nums by (auto simp: bit_simps)

lemma page_aligned_Entry_paddr: "page_aligned (Entry_paddr e)"
  unfolding page_aligned_bit Entry_paddr_def mask_nums by (auto simp: bit_simps)

lemma small_flags_attr: "small_flags (attr a)"
  by (cases a) (simp_all add: small_flags_def attr.simps)

lemma small_flags_or: "small_flags f \<Longrightarrow> small_flags g \<Longrightarrow> small_flags (f OR g)"
  by (simp add: small_flags_bit bit_simps)

lemma Entry_split: "Entry_new (Entry_paddr e) (Entry_flags e) = take_bit 62 e"
  unfolding Entry_paddr_def Entry_new_def Entry_flags_def mask_nums
  by (rule bit_word_eqI) (auto simp: bit_simps)

lemma vpn_less: "unat (vpn0 a) < 512" "unat (vpn1 a) < 512" "unat (vpn2 a) < 512"
  unfolding vpn0_def vpn1_def vpn2_def mask_nums take_bit_eq_mask[symmetric]
  by (simp_all add: unsigned_take_bit_eq flip: take_bit_eq_mask) (simp_all add: take_bit_eq_mod)

lemma page_flags_attr:
  "page_flags (attr EA_RW)" "page_flags (attr EA_RX)" "page_flags (attr EA_UR)" "page_flags (attr EA_URW)" "page_flags (attr EA_URX)"
  by (simp_all add: page_flags_def is_leaf_def small_flags_def attr.simps)

lemma Entry_new_leaf: "is_leaf (Entry_new p f) = is_leaf f"
  by (simp add: is_leaf_bit Entry_new_bit)

lemma is_leaf_or_V: "is_leaf (f OR attr EA_V) = is_leaf f"
  by (simp add: is_leaf_bit bit_simps attr_V_bit)

lemma not_leaf_V: "\<not> is_leaf (attr EA_V)"
  by (simp add: is_leaf_bit attr_V_bit)

section \<open>Paths and lookup\<close>

lemma tb_append: "tb c r (p @ q) = Option.bind (tb c r p) (\<lambda>t. tb c t q)"
  by (induction c r p rule: tb.induct) auto

lemma path_simps [simp]: "path n []" "path n (i # p) \<longleftrightarrow> 0 < n \<and> i < TABLE_ENTRY_CNT \<and> path (n - 1) p"
  by (auto simp: path_def)

lemma path_append: "path n (p @ q) \<longleftrightarrow> length p + length q \<le> n \<and> path n p \<and> path n q"
  by (auto simp: path_def)

lemma path_mono: "path n p \<Longrightarrow> n \<le> k \<Longrightarrow> path k p"
  by (auto simp: path_def)

lemma tree_okD: "tree_ok c r \<Longrightarrow> path 2 p \<Longrightarrow> path 2 q \<Longrightarrow> tb c r p = Some t \<Longrightarrow> tb c r q = Some t \<Longrightarrow> p = q"
  by (auto simp: tree_ok_def)

lemma tablesI: "path 2 p \<Longrightarrow> tb c r p = Some t \<Longrightarrow> t \<in> tables c r"
  by (auto simp: tables_def)

lemma tb_cong:
  assumes "path 2 (p @ q)" "tb c r p = Some u" "\<And>t. t \<in> tables c r \<Longrightarrow> c' t = c t"
  shows "tb c' u q = tb c u q"
  using assms
proof (induction q arbitrary: p u)
  case Nil
  then show ?case by simp
next
  case (Cons i q)
  have "path 2 p" using Cons.prems(1) by (simp add: path_append)
  then have "u \<in> tables c r" using Cons.prems(2) by (rule tablesI)
  then have u: "c' u = c u" by (rule Cons.prems(3))
  show ?case
  proof (cases "is_v (c u i)")
    case True
    have "tb c r (p @ [i]) = Some (Entry_paddr (c u i))" using Cons.prems(2) True by (simp add: tb_append)
    from Cons.IH[OF _ this Cons.prems(3)] Cons.prems(1) show ?thesis using u True by simp
  next
    case False
    then show ?thesis using u by simp
  qed
qed

lemma tb_upd_other:
  assumes ok: "tree_ok c r" and p: "path 2 p" "tb c r p = Some t"
    and "path 2 (q1 @ q2)" "tb c r q1 = Some u" "\<not> (\<exists>s. q1 @ q2 = p @ k # s \<and> length q1 \<le> length p)"
  shows "tb (upd_cell t k e c) u q2 = tb c u q2"
  using assms(4-)
proof (induction q2 arbitrary: q1 u)
  case Nil
  then show ?case by simp
next
  case (Cons i q2)
  have q1: "path 2 q1" using Cons.prems(1) by (simp add: path_append)
  have ne: "\<not> (u = t \<and> i = k)"
  proof
    assume "u = t \<and> i = k"
    then have "q1 = p" using tree_okD[OF ok q1 p(1) _ p(2)] Cons.prems(2) by simp
    then show False using Cons.prems(3) \<open>u = t \<and> i = k\<close> by auto
  qed
  then have c: "upd_cell t k e c u i = c u i" by (auto simp: upd_cell_def)
  show ?case
  proof (cases "is_v (c u i)")
    case True
    have "tb c r (q1 @ [i]) = Some (Entry_paddr (c u i))" using Cons.prems(2) True by (simp add: tb_append)
    moreover have "\<not> (\<exists>s. (q1 @ [i]) @ q2 = p @ k # s \<and> length (q1 @ [i]) \<le> length p)"
      using Cons.prems(3) by auto
    ultimately show ?thesis using Cons.IH[of "q1 @ [i]"] Cons.prems(1) True c by simp
  next
    case False
    then show ?thesis using c by simp
  qed
qed

lemma tb_link:
  assumes ok: "tree_ok c r" and p: "path 1 p" "tb c r p = Some t" and k: "k < TABLE_ENTRY_CNT"
    and nv: "\<not> is_v (c t k)" and z: "z \<notin> tables c r" "page_aligned z"
  defines "c' \<equiv> upd_cell t k (Entry_new z (attr EA_V)) (c(z := Table_new))"
  shows "path 2 q \<Longrightarrow> tb c' r q = (if q = p @ [k] then Some z else tb c r q)"
    and "tree_ok c' r" "tables c' r = insert z (tables c r)"
proof -
  let ?c = "c(z := Table_new)"
  have p2: "path 2 p" using p(1) by (rule path_mono) simp
  have t: "t \<in> tables c r" using p2 p(2) by (rule tablesI)
  then have tz: "t \<noteq> z" using z(1) by auto
  have same: "tb ?c r q = tb c r q" if "path 2 q" for q
    by (rule tb_cong[of "[]"]) (use that z(1) in auto)
  have ok': "tree_ok ?c r" using ok same unfolding tree_ok_def by metis
  have e: "is_v (Entry_new z (attr EA_V))" "Entry_paddr (Entry_new z (attr EA_V)) = z"
    using Entry_paddr_new[OF small_flags_attr z(2)] by (simp_all add: is_bit Entry_new_bit attr_V_bit)
  have zc: "c' z = Table_new" using tz by (simp add: c'_def upd_cell_def)
  have z0: "tb c' z q = (if q = [] then Some z else None)" for q
    by (cases q) (simp_all add: zc Table_new_def is_bit)
  show main: "tb c' r q = (if q = p @ [k] then Some z else tb c r q)" if q: "path 2 q" for q
  proof (cases "\<exists>s. q = p @ k # s")
    case True
    then obtain s where s: "q = p @ k # s" by blast
    have "tb c' r p = tb ?c r p"
      unfolding c'_def using tb_upd_other[OF ok' p2 _, of t "[]" p r k] same[OF p2] p2 p(2) by simp
    then have "tb c' r q = tb c' z s"
      using same[OF p2] p(2) e by (simp add: s tb_append c'_def upd_cell_def)
    moreover have "tb c r q = None" using s nv p(2) by (simp add: tb_append)
    ultimately show ?thesis using z0 s by simp
  next
    case False
    then have "tb c' r q = tb ?c r q"
      unfolding c'_def using tb_upd_other[OF ok' p2 _, of t "[]" q r k] same[OF p2] q p(2) by simp
    then show ?thesis using same[OF q] False by auto
  qed
  have nz: "tb c r q \<noteq> Some z" if "path 2 q" for q using z(1) that by (auto simp: tables_def)
  show "tree_ok c' r"
    using ok nz unfolding tree_ok_def by (auto simp: main split: if_splits)
  have pk: "path 2 (p @ [k])" using p(1) k by (auto simp: path_def)
  have npk: "tb c r (p @ [k]) = None" using nv p(2) by (simp add: tb_append)
  show "tables c' r = insert z (tables c r)"
    unfolding tables_def using main pk npk by (auto split: if_splits) (metis option.distinct(1))+
qed

lemma lookup_snoc:
  assumes "path 2 q" "length q = 2" "k < TABLE_ENTRY_CNT"
  shows "lookup c r (q @ [k]) = (case tb c r q of None \<Rightarrow> None
    | Some t \<Rightarrow> if is_v (c t k) then Some (c t k) else None)"
  using assms by (auto simp: lookup_def path_def split: option.split)

lemma lookup_SomeD:
  assumes "lookup c r (q @ [k]) = Some e" "path 2 q" "length q = 2" "k < TABLE_ENTRY_CNT"
  obtains t where "tb c r q = Some t" "c t k = e" "is_v e"
  using assms(1) unfolding lookup_snoc[OF assms(2-4)] by (auto split: option.splits if_splits)

lemma lookup_None: "\<not> (\<exists>q k. p = q @ [k] \<and> path 2 q \<and> length q = 2 \<and> k < TABLE_ENTRY_CNT) \<Longrightarrow> lookup c r p = None"
  by (cases p rule: rev_cases) (auto simp: lookup_def path_def)

lemma lookup_eqI:
  assumes "\<And>q k. path 2 q \<Longrightarrow> length q = 2 \<Longrightarrow> k < TABLE_ENTRY_CNT \<Longrightarrow> lookup c r (q @ [k]) = lookup c' r' (q @ [k])"
  shows "lookup c r = lookup c' r'"
  using assms lookup_None by (intro ext) metis

lemma lookup_cong:
  assumes "\<And>p. path 2 p \<Longrightarrow> tb c' r p = tb c r p" "\<And>t k. t \<in> tables c r \<Longrightarrow> k < TABLE_ENTRY_CNT \<Longrightarrow> c' t k = c t k"
  shows "lookup c' r = lookup c r"
proof (rule lookup_eqI)
  fix q k assume q: "path 2 q" "length q = 2" "k < TABLE_ENTRY_CNT"
  show "lookup c' r (q @ [k]) = lookup c r (q @ [k])"
    using assms(1)[OF q(1)] assms(2)[OF tablesI[OF q(1)] q(3)]
    by (auto simp: lookup_snoc[OF q] split: option.split)
qed

lemma lookup_link:
  assumes ok: "tree_ok c r" and p: "path 1 p" "tb c r p = Some t" and k: "k < TABLE_ENTRY_CNT"
    and nv: "\<not> is_v (c t k)" and z: "z \<notin> tables c r" "page_aligned z"
  shows "lookup (upd_cell t k (Entry_new z (attr EA_V)) (c(z := Table_new))) r = lookup c r" (is "lookup ?c' r = _")
proof (rule lookup_eqI)
  fix q l assume q: "path 2 q" "length q = 2" "l < TABLE_ENTRY_CNT"
  note link = tb_link[OF assms]
  have p2: "path 2 p" by (rule path_mono[OF p(1)]) simp
  have t: "t \<in> tables c r" by (rule tablesI[OF p2 p(2)])
  show "lookup ?c' r (q @ [l]) = lookup c r (q @ [l])"
  proof (cases "q = p @ [k]")
    case True
    have "tb c r q = None" using nv p(2) by (simp add: True tb_append)
    moreover have "tb ?c' r q = Some z" using link(1)[OF q(1)] True by simp
    moreover have "?c' z l = 0" using t z(1) by (auto simp: upd_cell_def Table_new_def)
    ultimately show ?thesis by (simp add: lookup_snoc[OF q] is_bit)
  next
    case False
    then have tb: "tb ?c' r q = tb c r q" using link(1)[OF q(1)] by simp
    have "?c' u l = c u l" if u: "tb c r q = Some u" for u
    proof -
      have "u \<noteq> t" using tree_okD[OF ok q(1) p2 u] p q(2) by (auto simp: path_def)
      moreover have "u \<noteq> z" using tablesI[OF q(1) u] z(1) by auto
      ultimately show ?thesis by (simp add: upd_cell_def)
    qed
    then show ?thesis using tb by (auto simp: lookup_snoc[OF q] split: option.split)
  qed
qed

lemma tb_leaf:
  assumes ok: "tree_ok c r" and p: "path 2 p" "length p = 2" "tb c r p = Some t" and k: "k < TABLE_ENTRY_CNT"
  shows "path 2 q \<Longrightarrow> tb (upd_cell t k e c) r q = tb c r q"
    and "tree_ok (upd_cell t k e c) r" "tables (upd_cell t k e c) r = tables c r"
    and "is_v e \<Longrightarrow> lookup (upd_cell t k e c) r = (lookup c r)(p @ [k] \<mapsto> e)"
    and "\<not> is_v e \<Longrightarrow> lookup (upd_cell t k e c) r = (lookup c r)(p @ [k] := None)"
proof -
  have same: "tb (upd_cell t k e c) r q = tb c r q" if "path 2 q" for q
    by (rule tb_upd_other[OF ok p(1,3), of "[]"]) (use that p(2) in \<open>auto simp: path_def\<close>)
  then show "path 2 q \<Longrightarrow> tb (upd_cell t k e c) r q = tb c r q" .
  show "tree_ok (upd_cell t k e c) r" using ok same unfolding tree_ok_def by metis
  show "tables (upd_cell t k e c) r = tables c r" using same by (auto simp: tables_def)
  have look: "lookup (upd_cell t k e c) r q = (if q = p @ [k] then if is_v e then Some e else None else lookup c r q)" for q
  proof (cases "\<exists>q' l. q = q' @ [l] \<and> path 2 q' \<and> length q' = 2 \<and> l < TABLE_ENTRY_CNT")
    case True
    then obtain q' l where q: "q = q' @ [l]" "path 2 q'" "length q' = 2" "l < TABLE_ENTRY_CNT" by blast
    have "u = t \<longleftrightarrow> q' = p" if "tb c r q' = Some u" for u
      using tree_okD[OF ok q(2) p(1)] that p(3) by auto
    then show ?thesis using same[OF q(2)] p(3)
      by (auto simp: lookup_snoc[OF q(2-)] q(1) upd_cell_def split: option.split)
  next
    case False
    then show ?thesis using lookup_None[OF False] p k by auto
  qed
  show "is_v e \<Longrightarrow> lookup (upd_cell t k e c) r = (lookup c r)(p @ [k] \<mapsto> e)"
    "\<not> is_v e \<Longrightarrow> lookup (upd_cell t k e c) r = (lookup c r)(p @ [k] := None)"
    by (auto simp: look fun_eq_iff)
qed

section \<open>The invariant\<close>

lemma levels_okD:
  "levels_ok c r \<Longrightarrow> path 2 p \<Longrightarrow> tb c r p = Some t \<Longrightarrow> i < TABLE_ENTRY_CNT \<Longrightarrow> is_v (c t i) \<Longrightarrow>
     is_leaf (c t i) \<longleftrightarrow> length p = 2"
  by (simp add: levels_ok_def)

lemma extends_refl: "extends r m M m M"
  by (auto simp: extends_def)

lemma extends_trans:
  assumes 1: "extends r m M m1 M1" and 2: "extends r m1 M1 m2 M2"
  shows "extends r m M m2 M2"
  unfolding extends_def
proof (intro conjI allI impI)
  show "M \<subseteq>\<^sub>m M2" using 1 2 by (meson extends_def map_le_trans)
  have M: "dom M \<subseteq> dom M1" "dom M1 \<subseteq> dom M2" using 1 2 by (auto simp: extends_def map_le_implies_dom_le)
  show "base_addr (alc m2) = base_addr (alc m)" "tables (mem m) r \<subseteq> tables (mem m2) r"
    using 1 2 by (auto simp: extends_def)
  show "tables (mem m2) r \<subseteq> tables (mem m) r \<union> (dom M2 - dom M)"
    "dom M2 \<subseteq> dom M \<union> tables (mem m2) r"
    using 1 2 M unfolding extends_def by blast+
  fix f assume f: "f \<notin> tables (mem m2) r"
  then have "f \<notin> tables (mem m1) r" using 2 by (auto simp: extends_def)
  then show "mem m2 f = mem m f" using f 1 2 by (simp add: extends_def)
qed

lemma allocate_above_base:
  assumes "owns A M" "allocate A sz = Inr (A', p)" "0 < unat sz"
  shows "base_addr A \<le> p" "base_addr A' = base_addr A"
proof -
  obtain B where B: "alloc_rel A B" using assms(1) by (auto simp: owns_def)
  from allocate_cases[OF B assms(2,3)] obtain i where i: "room B (pages_for sz) i" "p = page_addr A i"
    and b: "base_addr A' = base_addr A" by blast
  have "i \<le> MAX_PAGE" using i(1) by (simp add: room_def)
  then show "base_addr A \<le> p" using i(2) unat_page_addr[OF B] by (simp add: word_le_nat_alt)
  show "base_addr A' = base_addr A" by (rule b)
qed

lemma allocate_panics:
  assumes "owns A M" "allocate A sz = Inl e" "unat sz + 4095 < 2 ^ 64" "0 < unat sz"
  shows "e \<in> alloc_panics"
proof -
  obtain B where B: "alloc_rel A B" using assms(1) by (auto simp: owns_def)
  show ?thesis
  proof (cases "\<exists>i. room B (pages_for sz) i")
    case True
    define i where "i = (LEAST i. room B (pages_for sz) i)"
    have i: "room B (pages_for sz) i" "\<forall>j<i. \<not> room B (pages_for sz) j"
      using True not_less_Least by (auto simp: i_def intro: LeastI)
    then show ?thesis
      using allocate_fit[OF B assms(3) refl pages_for_pos[OF assms(4)] i] assms(2) by auto
  next
    case False
    then show ?thesis using allocate_nofit[OF B assms(3)] assms(2) by (auto simp: alloc_panics_def)
  qed
qed

lemma unat_mod_aligned: "unat a mod 4096 = 0 \<Longrightarrow> page_aligned a"
  by (simp add: page_aligned_def word_unat_eq_iff unat_mod consts_simps)

lemma pages_for_PAGE_SIZE: "pages_for PAGE_SIZE = 1"
  by (simp add: pages_for_def)

lemma box_frame_ok:
  assumes o: "owns (alc m) M" and b: "box_frame f m = Inr (m', z)"
  shows "M z = None" "owns (alc m') (M(z \<mapsto> 1))" "page_aligned z" "base_addr (alc m) \<le> z"
    "mem m' = (mem m)(z := f)" "base_addr (alc m') = base_addr (alc m)"
proof -
  from b obtain al where al: "allocate (alc m) PAGE_SIZE = Inr (al, z)" and m': "m' = m\<lparr>alc := al, mem := (mem m)(z := f)\<rparr>"
    by (auto simp: box_frame_def os_alloc_def)
  have 0: "0 < unat PAGE_SIZE" by simp
  from fs.alloc_new[OF o al 0] show "M z = None" and o': "owns (alc m') (M(z \<mapsto> 1))"
    using m' by (auto simp: pages_for_PAGE_SIZE)
  show "page_aligned z"
    using fs.owned_aligned[OF o', of z 1] by (auto intro: unat_mod_aligned)
  show "base_addr (alc m) \<le> z" "mem m' = (mem m)(z := f)" "base_addr (alc m') = base_addr (alc m)"
    using allocate_above_base[OF o al 0] m' by simp_all
qed

lemma box_frame_panics:
  assumes "owns (alc m) M" "box_frame f m = Inl e"
  shows "e \<in> alloc_panics \<and> free_pages (alc m) = 0"
proof (cases "allocate (alc m) PAGE_SIZE")
  case (Inl e')
  then show ?thesis
    using assms allocate_panics[OF assms(1) Inl] allocate_page_fails[OF assms(1) Inl]
    by (simp add: box_frame_def os_alloc_def)
next
  case (Inr x)
  then show ?thesis using assms(2) by (cases x) (simp add: box_frame_def os_alloc_def)
qed

lemma aspace_fresh:
  assumes "aspace r m M" "M z = None" "base_addr (alc m) \<le> z"
  shows "z \<notin> tables (mem m) r"
proof
  assume "z \<in> tables (mem m) r"
  then obtain p where p: "path 2 p" "tb (mem m) r p = Some z" by (auto simp: tables_def)
  show False
  proof (cases "p = []")
    case True
    then show False using assms p by (auto simp: aspace_def root_ok_def word_le_nat_alt)
  next
    case False
    then show False using assms p by (auto simp: aspace_def)
  qed
qed

lemma ensure_table:
  assumes a: "aspace r m M" and p: "path 1 p" "tb (mem m) r p = Some t" and k: "k < TABLE_ENTRY_CNT"
    and run: "(if \<not> is_v (mem m t k)
            then rbind (box_frame Table_new m) (\<lambda>(m', page).
                   Inr (set_entry t k (Entry_new page (attr EA_V)) m'))
            else Inr m) = Inr m'"
  shows "\<exists>M'. aspace r m' M' \<and> extends r m M m' M' \<and> lookup (mem m') r = lookup (mem m) r \<and>
    is_v (mem m' t k) \<and> tb (mem m') r (p @ [k]) = Some (Entry_paddr (mem m' t k)) \<and>
    (\<forall>P. reserve P r m \<longrightarrow> p @ [k] \<in> P \<longrightarrow> reserve P r m')"
proof (cases "is_v (mem m t k)")
  case True
  then have "m' = m" using run by simp
  then show ?thesis using a True p extends_refl[of r m M] by (auto simp: tb_append)
next
  case False
  with run obtain m1 z where b: "box_frame Table_new m = Inr (m1, z)"
    and m': "m' = set_entry t k (Entry_new z (attr EA_V)) m1" by auto
  have o: "owns (alc m) M" and ok: "tree_ok (mem m) r" using a by (auto simp: aspace_def)
  note bf = box_frame_ok[OF o b]
  have z: "z \<notin> tables (mem m) r" by (rule aspace_fresh[OF a bf(1,4)])
  have mem': "mem m' = upd_cell t k (Entry_new z (attr EA_V)) ((mem m)(z := Table_new))"
    using m' bf(5) by (simp add: set_entry_def)
  note link = tb_link[OF ok p k False z bf(3), folded mem']
  let ?M = "M(z \<mapsto> 1)"
  have alc': "alc m' = alc m1" using m' by (simp add: set_entry_def)
  have p2: "path 2 p" by (rule path_mono[OF p(1)]) simp
  have t: "t \<in> tables (mem m) r" by (rule tablesI[OF p2 p(2)])
  have e: "is_v (Entry_new z (attr EA_V))" "Entry_paddr (Entry_new z (attr EA_V)) = z"
    using Entry_paddr_new[OF small_flags_attr bf(3)] by (simp_all add: is_bit Entry_new_bit attr_V_bit)
  have cell: "mem m' t k = Entry_new z (attr EA_V)" using mem' by (simp add: upd_cell_def)
  have "aspace r m' ?M"
    unfolding aspace_def
  proof (intro conjI allI impI)
    show "owns (alc m') ?M" "tree_ok (mem m') r" using bf(2) alc' link(2) by simp_all
    show "levels_ok (mem m') r"
      unfolding levels_ok_def
    proof (intro allI impI)
      fix q u i assume q: "path 2 q" "tb (mem m') r q = Some u" "i < TABLE_ENTRY_CNT" "is_v (mem m' u i)"
      show "is_leaf (mem m' u i) \<longleftrightarrow> length q = 2"
      proof (cases "q = p @ [k]")
        case True
        then have "u = z" using q(1,2) by (simp add: link(1))
        moreover have "mem m' z i = 0" using t z by (auto simp: mem' upd_cell_def Table_new_def)
        ultimately show ?thesis using q(4) by (simp add: is_bit)
      next
        case False
        then have u: "tb (mem m) r q = Some u" using q(1,2) by (simp add: link(1))
        then have "u \<noteq> z" using tablesI[OF q(1)] z by auto
        show ?thesis
        proof (cases "u = t \<and> i = k")
          case True
          then have "q = p" using tree_okD[OF ok q(1) p2] u p(2) by simp
          then show ?thesis using True p(1) cell by (simp add: Entry_new_leaf not_leaf_V path_def)
        next
          case False
          then have "mem m' u i = mem m u i" using \<open>u \<noteq> z\<close> by (auto simp: mem' upd_cell_def)
          then show ?thesis using a q u by (simp add: aspace_def levels_ok_def)
        qed
      qed
    qed
    show "root_ok m' ?M r" "0 < unat (base_addr (alc m'))"
      using a bf(6) alc' by (auto simp: aspace_def root_ok_def)
    fix q u assume "path 2 q" "q \<noteq> []" "tb (mem m') r q = Some u"
    then show "?M u = Some 1" using a bf(1) by (auto simp: link(1) aspace_def split: if_splits)
  qed
  moreover have "extends r m M m' ?M"
    unfolding extends_def using bf(1,6) alc' link(3) t
    by (auto simp: map_le_def mem' upd_cell_def)
  moreover have "lookup (mem m') r = lookup (mem m) r"
    unfolding mem' by (rule lookup_link[OF ok p k False z bf(3)])
  moreover have "tb (mem m') r (p @ [k]) = Some z"
  proof -
    have "path 2 (p @ [k])" using p(1) k by (auto simp: path_def)
    then show ?thesis by (simp add: link(1))
  qed
  moreover have "reserve P r m'" if res: "reserve P r m" "p @ [k] \<in> P" for P
  proof -
    have P: "finite P" "\<forall>q\<in>P. path 2 q" "card {q \<in> P. tb (mem m) r q = None} \<le> free_pages (alc m)"
      using res(1) by (simp_all add: reserve_def)
    have "tb (mem m) r (p @ [k]) = None" using False p(2) by (simp add: tb_append)
    then have "{q \<in> P. tb (mem m) r q = None} = insert (p @ [k]) {q \<in> P. tb (mem m') r q = None}"
      using res(2) P(2) by (auto simp: link(1) split: if_splits)
    moreover have "p @ [k] \<notin> {q \<in> P. tb (mem m') r q = None}" using P(2) res(2) by (auto simp: link(1))
    ultimately have "card {q \<in> P. tb (mem m) r q = None} = Suc (card {q \<in> P. tb (mem m') r q = None})"
      using P(1) by simp
    moreover have "free_pages (alc m) = free_pages (alc m') + 1"
      using owns_count_upd[OF o bf(2,1)] alc' by simp
    ultimately show ?thesis using P by (simp add: reserve_def)
  qed
  ultimately show ?thesis using cell e by auto
qed

section \<open>Mapping one page\<close>

lemma TABLE_ENTRY_CNT_num [simp]: "TABLE_ENTRY_CNT = 512"
  by (simp add: TABLE_ENTRY_CNT_def)

lemma owned_above_base:
  assumes "owns A M" "M p = Some n"
  shows "base_addr A \<le> p"
  using assms by (auto simp: owns_def block_map_def split: if_splits)

lemma entry_ref_ok:
  assumes "aspace r m M" "M t = Some 1" "unat k < 512"
  shows "entry_ref t k = Inr (t, unat k)"
proof -
  have o: "owns (alc m) M" and b: "0 < unat (base_addr (alc m))" using assms(1) by (auto simp: aspace_def)
  have t: "unat t + 4096 < 2 ^ 64" "0 < unat t"
    using fs.owned_aligned[OF o assms(2)] owned_above_base[OF o assms(2)] b
    by (auto simp: word_le_nat_alt)
  have "unat (t + k * 8) = unat t + unat k * 8"
    using t(1) assms(3) by (simp add: unat_word_ariths)
  then have "t + k * 8 \<noteq> 0" using t(2) by (metis add_is_0 less_numeral_extra(3) unat_0)
  then show ?thesis by (simp add: entry_ref_def)
qed

lemma ensure_panics:
  assumes a: "aspace r m M" and p: "tb (mem m) r p = Some t"
    and run: "(if \<not> is_v (mem m t k)
            then rbind (box_frame Table_new m) (\<lambda>(m', page).
                   Inr (set_entry t k (Entry_new page (attr EA_V)) m'))
            else Inr m) = Inl e"
  shows "e \<in> alloc_panics" "p @ [k] \<in> P \<Longrightarrow> \<not> reserve P r m"
proof -
  have o: "owns (alc m) M" using a by (simp add: aspace_def)
  have b: "box_frame Table_new m = Inl e" and nv: "\<not> is_v (mem m t k)"
    using run by (cases "box_frame Table_new m"; auto split: if_splits)+
  show "e \<in> alloc_panics" using box_frame_panics[OF o b] by simp
  assume P: "p @ [k] \<in> P"
  have "tb (mem m) r (p @ [k]) = None" using nv p by (simp add: tb_append)
  then have "{q \<in> P. tb (mem m) r q = None} \<noteq> {}" using P by auto
  then show "\<not> reserve P r m"
    using box_frame_panics[OF o b] by (auto simp: reserve_def card_eq_0_iff)
qed

lemma map_walk_step:
  assumes a: "aspace r m M" and p: "path 1 p" "tb (mem m) r p = Some t" and k: "k < TABLE_ENTRY_CNT" and l: "lvl < 2"
  shows "(\<exists>m' M' t'. aspace r m' M' \<and> extends r m M m' M' \<and> lookup (mem m') r = lookup (mem m) r \<and>
      (\<forall>P. reserve P r m \<longrightarrow> p @ [k] \<in> P \<longrightarrow> reserve P r m') \<and>
      tb (mem m') r (p @ [k]) = Some t' \<and>
      map_walk va (lvl # lvls) (t, k) m = map_walk va lvls (t', [unat (vpn0 va), unat (vpn1 va)] ! lvl) m') \<or>
    (\<exists>e\<in>alloc_panics. map_walk va (lvl # lvls) (t, k) m = Inl e \<and> (\<forall>P. p @ [k] \<in> P \<longrightarrow> \<not> reserve P r m))"
proof -
  let ?run = "if \<not> is_v (mem m t k)
            then rbind (box_frame Table_new m) (\<lambda>(m', page).
                   Inr (set_entry t k (Entry_new page (attr EA_V)) m'))
            else Inr m"
  show ?thesis
  proof (cases ?run)
    case (Inl e)
    then have "map_walk va (lvl # lvls) (t, k) m = Inl e"
      by (simp only: map_walk.simps fst_conv snd_conv rbind_simps)
    then show ?thesis using ensure_panics[OF a p(2) Inl] by blast
  next
    case (Inr m')
    obtain M' where M': "aspace r m' M'" "extends r m M m' M'" "lookup (mem m') r = lookup (mem m) r"
      "tb (mem m') r (p @ [k]) = Some (Entry_paddr (mem m' t k))"
      "\<forall>P. reserve P r m \<longrightarrow> p @ [k] \<in> P \<longrightarrow> reserve P r m'"
      using ensure_table[OF a p k Inr] by blast
    let ?i = "(if lvl = 0 then vpn0 va else vpn1 va)"
    have "path 2 (p @ [k])" using p(1) k by (auto simp: path_def)
    then have "M' (Entry_paddr (mem m' t k)) = Some 1" using M'(1,4) by (auto simp: aspace_def)
    from entry_ref_ok[OF M'(1) this, of ?i]
    have er: "entry_ref (Entry_paddr (mem m' t k)) ?i = Inr (Entry_paddr (mem m' t k), unat ?i)"
      using vpn_less by simp
    have idx: "VPN_idx va lvl = Inr ?i" using l by (auto simp: VPN_idx_def)
    have "unat ?i = [unat (vpn0 va), unat (vpn1 va)] ! lvl" using l by (cases lvl) (auto simp: less_2_cases_iff)
    then have "map_walk va (lvl # lvls) (t, k) m =
        map_walk va lvls (Entry_paddr (mem m' t k), [unat (vpn0 va), unat (vpn1 va)] ! lvl) m'"
      by (simp only: map_walk.simps fst_conv snd_conv Inr er idx rbind_simps)
    then show ?thesis using M' by blast
  qed
qed

lemma map_walk_ok:
  assumes a: "aspace r m M"
  shows "(\<exists>m' M' t. map_walk va [1, 0] (r, unat (vpn2 va)) m = Inr (m', t, unat (vpn0 va)) \<and>
      aspace r m' M' \<and> extends r m M m' M' \<and> lookup (mem m') r = lookup (mem m) r \<and>
      (\<forall>P. reserve P r m \<longrightarrow> dirs va \<subseteq> P \<longrightarrow> reserve P r m') \<and>
      tb (mem m') r [unat (vpn2 va), unat (vpn1 va)] = Some t) \<or>
    (\<exists>e\<in>alloc_panics. map_walk va [1, 0] (r, unat (vpn2 va)) m = Inl e \<and> (\<forall>P. dirs va \<subseteq> P \<longrightarrow> \<not> reserve P r m))"
proof -
  let ?i = "unat (vpn2 va)" and ?j = "unat (vpn1 va)"
  have lt: "?i < TABLE_ENTRY_CNT" "?j < TABLE_ENTRY_CNT" using vpn_less by simp_all
  have 1: "path 1 []" "tb (mem m) r [] = Some r" "(1::nat) < 2" by simp_all
  have d: "[?i] \<in> P \<and> [?i, ?j] \<in> P" if "dirs va \<subseteq> P" for P using that by (simp add: dirs_def)
  consider e where "e \<in> alloc_panics" "map_walk va [1, 0] (r, ?i) m = Inl e" "\<forall>P. [?i] \<in> P \<longrightarrow> \<not> reserve P r m"
    | m1 M1 t1 where "aspace r m1 M1" "extends r m M m1 M1" "lookup (mem m1) r = lookup (mem m) r"
      "tb (mem m1) r [?i] = Some t1"
      "map_walk va [1, 0] (r, ?i) m = map_walk va [0] (t1, ?j) m1"
      "\<forall>P. reserve P r m \<longrightarrow> [?i] \<in> P \<longrightarrow> reserve P r m1"
    using map_walk_step[OF a 1(1,2) lt(1) 1(3), of va "[0]"] by fastforce
  then show ?thesis
  proof cases
    case 1
    then show ?thesis using d by blast
  next
    case (2 m1 M1 t1)
    have p: "path 1 [?i]" using lt by simp
    from map_walk_step[OF 2(1) p 2(4) lt(2) zero_less_numeral, of va "[]"] show ?thesis
    proof (elim disjE exE conjE bexE)
      fix m2 M2 t2
      assume s: "aspace r m2 M2" "extends r m1 M1 m2 M2" "lookup (mem m2) r = lookup (mem m1) r"
        "\<forall>P. reserve P r m1 \<longrightarrow> [?i] @ [?j] \<in> P \<longrightarrow> reserve P r m2" "tb (mem m2) r ([?i] @ [?j]) = Some t2"
        "map_walk va [0] (t1, ?j) m1 = map_walk va [] (t2, [unat (vpn0 va), unat (vpn1 va)] ! 0) m2"
      have "reserve P r m2" if "reserve P r m" "dirs va \<subseteq> P" for P
        using 2(6) s(4) that d[OF that(2)] by simp
      then show ?thesis
        using s 2(3,5) extends_trans[OF 2(2) s(2)] by (intro disjI1 exI[of _ m2] exI[of _ M2] exI[of _ t2]) auto
    next
      fix e assume e: "e \<in> alloc_panics" "map_walk va [0] (t1, ?j) m1 = Inl e"
        "\<forall>P. [?i] @ [?j] \<in> P \<longrightarrow> \<not> reserve P r m1"
      have "\<not> reserve P r m" if "dirs va \<subseteq> P" for P
        using 2(6) e(3) d[OF that] by auto
      then show ?thesis using e(1,2) 2(5) by auto
    qed
  qed
qed

lemma map_addr_ok:
  assumes a: "aspace r m M" and al: "page_aligned pa" "page_aligned va" and f: "page_flags flags"
  shows "(\<exists>m' M'. map_addr r va pa flags 0 m = Inr m' \<and> aspace r m' M' \<and> extends r m M m' M' \<and>
      (\<forall>P. reserve P r m \<longrightarrow> dirs va \<subseteq> P \<longrightarrow> reserve P r m') \<and>
      lookup (mem m') r = (lookup (mem m) r)(vpath va \<mapsto> Entry_new pa (flags OR attr EA_V))) \<or>
    (\<exists>e\<in>alloc_panics. map_addr r va pa flags 0 m = Inl e \<and> (\<forall>P. dirs va \<subseteq> P \<longrightarrow> \<not> reserve P r m))"
proof -
  have lv: "rev [0..<2] = [1, 0 :: nat]" by (simp add: numeral_2_eq_2)
  have run: "map_addr r va pa flags 0 m = rbind (map_walk va [1, 0] (r, unat (vpn2 va)) m) (\<lambda>(m', v).
         Inr (set_entry (fst v) (snd v) (Entry_new pa (flags OR attr EA_V)) m'))"
    using al by (simp add: map_addr_def page_aligned_def lv)
  from map_walk_ok[OF a, of va] show ?thesis
  proof (elim disjE exE conjE bexE)
    fix m' M' t
    assume w: "map_walk va [1, 0] (r, unat (vpn2 va)) m = Inr (m', t, unat (vpn0 va))"
      and a': "aspace r m' M'" and x: "extends r m M m' M'" and lk: "lookup (mem m') r = lookup (mem m) r"
      and res: "\<forall>P. reserve P r m \<longrightarrow> dirs va \<subseteq> P \<longrightarrow> reserve P r m'"
      and t: "tb (mem m') r [unat (vpn2 va), unat (vpn1 va)] = Some t"
    let ?e = "Entry_new pa (flags OR attr EA_V)" and ?p = "[unat (vpn2 va), unat (vpn1 va)]" and ?k = "unat (vpn0 va)"
    let ?m = "set_entry t ?k ?e m'"
    have p: "path 2 ?p" "length ?p = 2" and k: "?k < TABLE_ENTRY_CNT" using vpn_less by simp_all
    have ok: "tree_ok (mem m') r" using a' by (simp add: aspace_def)
    have v: "is_v ?e" by (simp add: is_bit Entry_new_bit attr_V_bit bit_simps)
    have mem: "mem ?m = upd_cell t ?k ?e (mem m')" "alc ?m = alc m'" by (simp_all add: set_entry_def)
    note leaf = tb_leaf[OF ok p t k, where e = ?e, folded mem]
    have "levels_ok (mem ?m) r"
      unfolding levels_ok_def
    proof (intro allI impI)
      fix q u i assume q: "path 2 q" "tb (mem ?m) r q = Some u" "i < TABLE_ENTRY_CNT" "is_v (mem ?m u i)"
      then have u: "tb (mem m') r q = Some u" by (simp add: leaf(1))
      show "is_leaf (mem ?m u i) \<longleftrightarrow> length q = 2"
      proof (cases "u = t \<and> i = ?k")
        case True
        then have "q = ?p" using tree_okD[OF ok q(1) p(1)] u t by simp
        then show ?thesis using True f by (simp add: mem(1) upd_cell_def Entry_new_leaf is_leaf_or_V page_flags_def)
      next
        case False
        then have "mem ?m u i = mem m' u i" by (auto simp: mem(1) upd_cell_def)
        then show ?thesis using a' q u by (simp add: aspace_def levels_ok_def)
      qed
    qed
    then have "aspace r ?m M'"
      using a' leaf(1,2) by (simp add: aspace_def root_ok_def mem(2))
    moreover have "t \<in> tables (mem m') r" by (rule tablesI[OF p(1) t])
    then have "extends r m' M' ?m M'"
      unfolding extends_def leaf(3) mem(2) by (auto simp: mem(1) upd_cell_def)
    then have "extends r m M ?m M'" by (rule extends_trans[OF x])
    moreover have "lookup (mem ?m) r = (lookup (mem m) r)(vpath va \<mapsto> ?e)"
      using leaf(4)[OF v] lk by (simp add: vpath_def)
    moreover have "map_addr r va pa flags 0 m = Inr ?m"
      by (simp only: run w rbind_simps case_prod_conv fst_conv snd_conv)
    moreover have "reserve P r ?m" if "reserve P r m" "dirs va \<subseteq> P" for P
    proof -
      have "reserve P r m'" using res that by blast
      moreover have "{q \<in> P. tb (mem ?m) r q = None} = {q \<in> P. tb (mem m') r q = None}"
        using calculation leaf(1) by (auto simp: reserve_def)
      ultimately show ?thesis by (simp add: reserve_def mem(2))
    qed
    ultimately show ?thesis by blast
  next
    fix e assume "e \<in> alloc_panics" "map_walk va [1, 0] (r, unat (vpn2 va)) m = Inl e"
      "\<forall>P. dirs va \<subseteq> P \<longrightarrow> \<not> reserve P r m"
    then show ?thesis by (simp only: run rbind_simps) blast
  qed
qed

lemma paddr_of_ok:
  assumes a: "aspace r m M" and va: "page_aligned va"
  shows "paddr_of r va m = Inr (case tb (mem m) r [unat (vpn2 va), unat (vpn1 va)] of
     None \<Rightarrow> None | Some t \<Rightarrow> Some (Entry_paddr (mem m t (unat (vpn0 va)))))"
proof -
  have lv: "rev [0..<2] = [1, 0 :: nat]" by (simp add: numeral_2_eq_2)
  have lt: "unat (vpn2 va) < 512" "unat (vpn1 va) < 512" using vpn_less by simp_all
  have er: "entry_ref t k = Inr (t, unat k)" if "tb (mem m) r p = Some t" "path 2 p" "p \<noteq> []" "unat k < 512" for t k p
    using entry_ref_ok[OF a, of t k] that a by (auto simp: aspace_def)
  let ?e = "mem m r (unat (vpn2 va))"
  show ?thesis
  proof (cases "is_v ?e")
    case True
    have e1: "entry_ref (Entry_paddr ?e) (vpn1 va) = Inr (Entry_paddr ?e, unat (vpn1 va))"
      using er[of "[unat (vpn2 va)]"] True lt by simp
    let ?e2 = "mem m (Entry_paddr ?e) (unat (vpn1 va))"
    have e2: "entry_ref (Entry_paddr ?e2) (vpn0 va) = Inr (Entry_paddr ?e2, unat (vpn0 va))" if "is_v ?e2"
      using er[of "[unat (vpn2 va), unat (vpn1 va)]"] True that lt vpn_less by simp
    show ?thesis
      using True va e1 e2
      by (cases "is_v ?e2") (simp_all add: paddr_of_def page_aligned_def lv VPN_idx_def)
  next
    case False
    then show ?thesis using va by (simp add: paddr_of_def page_aligned_def lv)
  qed
qed

end
