(* ===== verification/AddrSpace.thy ===== *)
theory AddrSpace
  imports PageTree
begin

text \<open>
  Address spaces as clients see them: the contract \<open>addr_space\<close> of a mapping operation, its
  interpretation on \<open>map_addr\<close>, ranges of pages, the kernel's own page table built by
  \<open>mem::init\<close>, and the agreement with the translation that the hardware performs.
\<close>

section \<open>Definitions\<close>

text \<open>
  Mapping \<open>n\<close> consecutive pages, as an update of the lookup map.
\<close>

primrec map_pages :: "(nat list \<rightharpoonup> Entry) \<Rightarrow> usize \<Rightarrow> usize \<Rightarrow> usize \<Rightarrow> nat \<Rightarrow> (nat list \<rightharpoonup> Entry)" where
  "map_pages L va pa f 0 = L"
| "map_pages L va pa f (Suc n) =
     map_pages (L(vpath va \<mapsto> Entry_new pa (f OR attr EA_V))) (va + PAGE_SIZE) (pa + PAGE_SIZE) f n"

text \<open>
  The page at \<open>x\<close> is one of those that \<open>id_map_range\<close> covers.
\<close>

definition page_in :: "usize \<Rightarrow> usize \<Rightarrow> usize \<Rightarrow> bool" where
  "page_in start stop x \<longleftrightarrow> unat start div 4096 * 4096 \<le> unat x \<and> unat x < unat stop"

text \<open>
  An address space with a given contents and reserve.
\<close>

definition kmaps :: "nat list set \<Rightarrow> usize \<Rightarrow> kmem \<Rightarrow> (usize \<rightharpoonup> Entry) \<Rightarrow> bool" where
  "kmaps P r m L \<longleftrightarrow> (\<exists>M. aspace r m M) \<and> reserve P r m \<and>
     (\<forall>x. page_aligned x \<longrightarrow> unat x < 2 ^ 39 \<longrightarrow> lookup (mem m) r (vpath x) = L x)"

definition region_ok :: "nat list set \<Rightarrow> usize \<Rightarrow> usize \<Rightarrow> bool" where
  "region_ok P start stop \<longleftrightarrow> unat start \<le> unat stop \<and> unat stop \<le> 2 ^ 39 \<and>
     (\<forall>x. page_aligned x \<longrightarrow> page_in start stop x \<longrightarrow> dirs x \<subseteq> P)"

text \<open>
  All table paths below the root entries \<open>S\<close>.
\<close>

definition kdirs :: "nat set \<Rightarrow> nat list set" where
  "kdirs S = (\<lambda>i. [i]) ` S \<union> (\<lambda>(i, j). [i, j]) ` (S \<times> {..<TABLE_ENTRY_CNT})"

text \<open>
  What \<open>kernel.ld\<close> promises of its symbols; \<open>kp\<close> is the address of \<open>KERNEL_PGTABLE\<close>, which lies in
  the image.
\<close>

definition linker_ok :: "linker \<Rightarrow> usize \<Rightarrow> bool" where
  "linker_ok l kp \<longleftrightarrow>
     0x80000000 \<le> TEXT_START l \<and> TEXT_START l \<le> TRAMPOLINE_TEXT_START l \<and> TRAMPOLINE_TEXT_START l \<le> TEXT_END l \<and>
     TEXT_END l \<le> RODATA_START l \<and> RODATA_START l \<le> RODATA_END l \<and>
     RODATA_END l \<le> DATA_START l \<and> DATA_START l \<le> DATA_END l \<and>
     DATA_END l \<le> BSS_START l \<and> BSS_START l \<le> BSS_END l \<and> BSS_END l \<le> 0x87f00000 \<and>
     page_aligned (TEXT_START l) \<and> page_aligned (TRAMPOLINE_TEXT_START l) \<and>
     page_aligned (RODATA_START l) \<and> page_aligned (DATA_START l) \<and> page_aligned (BSS_START l) \<and>
     KERNEL_STACK_START l = BSS_END l \<and> KERNEL_STACK_END l = KERNEL_STACK_START l + 0x80000 \<and>
     HEAP_START l = KERNEL_STACK_END l \<and> HEAP_SIZE l = 0x88000000 - KERNEL_STACK_END l \<and>
     TEXT_START l \<le> kp \<and> page_aligned kp \<and> unat kp + 4096 \<le> unat (BSS_END l)"

text \<open>
  The kernel address space that \<open>mem::init\<close> is to build.
\<close>

definition kernel_layout :: "linker \<Rightarrow> usize \<rightharpoonup> Entry" where
  "kernel_layout l x = (let rw = attr EA_RW OR attr EA_V; rx = attr EA_RX OR attr EA_V in
     if page_in PLIC_BASE (PLIC_BASE + 0x400000) x then Some (Entry_new x rw)
     else if page_in CLINT_BASE (CLINT_BASE + 0x10000) x then Some (Entry_new x rw)
     else if page_in (HEAP_START l) 0x88000000 x then Some (Entry_new x rw)
     else if x = TRAMPOLINE_START then Some (Entry_new (TRAMPOLINE_TEXT_START l) rx)
     else if x = VIRTIO_MMIO_BASE then Some (Entry_new VIRTIO_MMIO_BASE rw)
     else if x = UART_BASE_ADDR then Some (Entry_new UART_BASE_ADDR rw)
     else if page_in (KERNEL_STACK_START l) (KERNEL_STACK_END l) x then Some (Entry_new x rw)
     else if page_in (BSS_START l) (BSS_END l) x then Some (Entry_new x rw)
     else if page_in (DATA_START l) (DATA_END l) x then Some (Entry_new x rw)
     else if page_in (RODATA_START l) (RODATA_END l) x then Some (Entry_new x rx)
     else if page_in (TEXT_START l) (TEXT_END l) x then Some (Entry_new x rx)
     else None)"

text \<open>
  The translation of the Sv39 architecture: the physical page number is bits 10 to 53 of an
  entry; an entry that is readable or executable is a leaf; a writable entry that is not
  readable is reserved. Only pages of 4 KiB are translated here.
\<close>

definition sv39_next :: "Entry \<Rightarrow> usize" where
  "sv39_next e = push_bit 12 (drop_bit 10 e AND mask 44)"

fun sv39_walk :: "cells \<Rightarrow> nat \<Rightarrow> usize \<Rightarrow> nat list \<Rightarrow> (Entry \<times> nat) option" where
  "sv39_walk c level t [] = None"
| "sv39_walk c level t (i # is) =
     (let e = c t i in
      if \<not> bit e 0 \<or> (\<not> bit e 1 \<and> bit e 2) then None
      else if bit e 1 \<or> bit e 3 then Some (e, level)
      else sv39_walk c (level - 1) (sv39_next e) is)"

definition sv39_translate :: "cells \<Rightarrow> usize \<Rightarrow> usize \<Rightarrow> (usize \<times> Entry) option" where
  "sv39_translate c root va =
     (case sv39_walk c 2 root [unat (vpn2 va), unat (vpn1 va), unat (vpn0 va)] of
        Some (e, 0) \<Rightarrow> Some (sv39_next e OR take_bit 12 va, e)
      | _ \<Rightarrow> None)"

text \<open>
  Concrete states for the witnesses.
\<close>

definition mem0 :: kmem where
  "mem0 = \<lparr>alc = Allocator_new\<lparr>base_addr := 0x80100000\<rparr>, mem = (\<lambda>_ _. 0)\<rparr>"

definition example_linker :: linker where
  "example_linker = \<lparr>HEAP_START = 0x80098000, HEAP_SIZE = 0x7f68000, TEXT_START = 0x80000000, TEXT_END = 0x80012000,
     RODATA_START = 0x80012000, RODATA_END = 0x80015000, DATA_START = 0x80015000, DATA_END = 0x80016000,
     BSS_START = 0x80016000, BSS_END = 0x80018000, KERNEL_STACK_START = 0x80018000,
     KERNEL_STACK_END = 0x80098000, TRAMPOLINE_TEXT_START = 0x80011000\<rparr>"

section \<open>The contract of a mapping operation\<close>

lemma page_aligned_unat: "page_aligned a \<longleftrightarrow> unat a mod 4096 = 0"
  by (simp add: page_aligned_def word_unat_eq_iff unat_mod consts_simps)

lemma page_next:
  assumes "unat a + 4096 < 2 ^ 64"
  shows "unat (a + PAGE_SIZE) = unat a + 4096" "add_chk a PAGE_SIZE = Inr (a + PAGE_SIZE)"
    "add_chk a 4096 = Inr (a + PAGE_SIZE)" "page_aligned a \<Longrightarrow> page_aligned (a + PAGE_SIZE)"
proof -
  show u: "unat (a + PAGE_SIZE) = unat a + 4096" using assms by (simp add: unat_word_ariths)
  show c: "add_chk a PAGE_SIZE = Inr (a + PAGE_SIZE)" using assms by simp
  show "add_chk a 4096 = Inr (a + PAGE_SIZE)" using c by (simp add: consts_simps)
  show "page_aligned a \<Longrightarrow> page_aligned (a + PAGE_SIZE)" using u by (simp add: page_aligned_unat)
qed

lemma all_less_Suc_shift: "(\<forall>k<Suc n. Q (a + of_nat k * PAGE_SIZE)) \<longleftrightarrow> Q a \<and> (\<forall>k<n. Q ((a + PAGE_SIZE) + of_nat k * PAGE_SIZE))"
  unfolding less_Suc_eq_0_disj by (auto simp: algebra_simps)

locale addr_space =
  fixes inv :: "'s \<Rightarrow> 'g \<Rightarrow> bool"
    and ext :: "'s \<Rightarrow> 'g \<Rightarrow> 's \<Rightarrow> 'g \<Rightarrow> bool"
    and res :: "nat list set \<Rightarrow> 's \<Rightarrow> bool"
    and look :: "'s \<Rightarrow> nat list \<rightharpoonup> Entry"
    and mp :: "usize \<Rightarrow> usize \<Rightarrow> usize \<Rightarrow> 's \<Rightarrow> 's res"
  assumes map_law: "inv s g \<Longrightarrow> res P s \<Longrightarrow> dirs va \<subseteq> P \<Longrightarrow> page_aligned pa \<Longrightarrow> page_aligned va \<Longrightarrow> page_flags f \<Longrightarrow>
      \<exists>s' g'. mp va pa f s = Inr s' \<and> inv s' g' \<and> ext s g s' g' \<and> res P s' \<and>
        look s' = (look s)(vpath va \<mapsto> Entry_new pa (f OR attr EA_V))"
    and ext_refl: "ext s g s g"
    and ext_trans: "ext s g s' g' \<Longrightarrow> ext s' g' s'' g'' \<Longrightarrow> ext s g s'' g''"
begin

lemma map_loop:
  assumes "inv s g" "res P s" "page_aligned pa" "page_aligned va" "page_flags f"
    "unat pa + n * 4096 < 2 ^ 64" "unat va + n * 4096 < 2 ^ 64"
    "\<forall>k<n. dirs (va + of_nat k * PAGE_SIZE) \<subseteq> P"
  shows "\<exists>pa' va' s' g'. rfor i n (\<lambda>_ (a, va, m).
             rbind (mp va a f m) (\<lambda>m'.
             rbind (add_chk a (push_bit 12 1)) (\<lambda>a'.
             rbind (add_chk va (push_bit 12 1)) (\<lambda>va'. Inr (a', va', m'))))) (pa, va, s) = Inr (pa', va', s') \<and>
     inv s' g' \<and> ext s g s' g' \<and> res P s' \<and> look s' = map_pages (look s) va pa f n"
  using assms
proof (induction n arbitrary: i s g pa va)
  case 0
  then show ?case using ext_refl by auto
next
  case (Suc n)
  have pa: "unat pa + 4096 < 2 ^ 64" and va: "unat va + 4096 < 2 ^ 64" using Suc.prems(6,7) by simp_all
  have d: "dirs va \<subseteq> P" and ds: "\<forall>k<n. dirs ((va + PAGE_SIZE) + of_nat k * PAGE_SIZE) \<subseteq> P"
    using Suc.prems(8) all_less_Suc_shift[of n "\<lambda>x. dirs x \<subseteq> P" va] by simp_all
  obtain s1 g1 where 1: "mp va pa f s = Inr s1" "inv s1 g1" "ext s g s1 g1" "res P s1"
      "look s1 = (look s)(vpath va \<mapsto> Entry_new pa (f OR attr EA_V))"
    using map_law[OF Suc.prems(1,2) d Suc.prems(3-5)] by blast
  have b: "unat (pa + PAGE_SIZE) + n * 4096 < 2 ^ 64" "unat (va + PAGE_SIZE) + n * 4096 < 2 ^ 64"
    using Suc.prems(6,7) page_next(1)[OF pa] page_next(1)[OF va] by simp_all
  note IH = Suc.IH[OF 1(2,4) page_next(4)[OF pa Suc.prems(3)] page_next(4)[OF va Suc.prems(4)] Suc.prems(5) b ds, of "Suc i"]
  show ?case
    using IH 1 page_next(3)[OF pa] page_next(3)[OF va]
    by (auto simp del: fun_upd_apply) (metis ext_trans)
qed

lemma id_loop:
  assumes "inv s g" "res P s" "page_aligned va" "page_flags f" "unat va + n * 4096 < 2 ^ 64"
    "\<forall>k<n. dirs (va + of_nat k * PAGE_SIZE) \<subseteq> P"
  shows "\<exists>va' s' g'. rfor i n (\<lambda>_ (a, m).
         rbind (mp a a f m) (\<lambda>m'. rbind (add_chk a PAGE_SIZE) (\<lambda>a'. Inr (a', m')))) (va, s) = Inr (va', s') \<and>
     inv s' g' \<and> ext s g s' g' \<and> res P s' \<and> look s' = map_pages (look s) va va f n"
  using assms
proof (induction n arbitrary: i s g va)
  case 0
  then show ?case using ext_refl by auto
next
  case (Suc n)
  have va: "unat va + 4096 < 2 ^ 64" using Suc.prems(5) by simp
  have d: "dirs va \<subseteq> P" and ds: "\<forall>k<n. dirs ((va + PAGE_SIZE) + of_nat k * PAGE_SIZE) \<subseteq> P"
    using Suc.prems(6) all_less_Suc_shift[of n "\<lambda>x. dirs x \<subseteq> P" va] by simp_all
  obtain s1 g1 where 1: "mp va va f s = Inr s1" "inv s1 g1" "ext s g s1 g1" "res P s1"
      "look s1 = (look s)(vpath va \<mapsto> Entry_new va (f OR attr EA_V))"
    using map_law[OF Suc.prems(1,2) d Suc.prems(3,3,4)] by blast
  have b: "unat (va + PAGE_SIZE) + n * 4096 < 2 ^ 64" using Suc.prems(5) page_next(1)[OF va] by simp
  note IH = Suc.IH[OF 1(2,4) page_next(4)[OF va Suc.prems(3)] Suc.prems(4) b ds, of "Suc i"]
  show ?case
    using IH 1 page_next(2)[OF va] by (auto simp del: fun_upd_apply) (metis ext_trans)
qed

end

interpretation pt: addr_space "aspace r" "extends r" "\<lambda>P. reserve P r" "\<lambda>m. lookup (mem m) r"
    "\<lambda>va pa f. map_addr r va pa f 0" for r
proof (unfold_locales, goal_cases)
  case (1 m M P va pa f)
  then show ?case using map_addr_ok[OF 1(1,4,5,6)] by blast
next
  case (2 m M)
  then show ?case by (rule extends_refl)
next
  case (3 m M m' M' m'' M'')
  then show ?case by (rule extends_trans)
qed

lemma vpn_bit:
  "bit (vpn0 a) k \<longleftrightarrow> k < 9 \<and> bit a (12 + k)"
  "bit (vpn1 a) k \<longleftrightarrow> k < 9 \<and> bit a (21 + k)"
  "bit (vpn2 a) k \<longleftrightarrow> k < 9 \<and> bit a (30 + k)"
  unfolding vpn0_def vpn1_def vpn2_def mask_nums by (auto simp: bit_simps)

lemma take_bit_small:
  assumes "unat (x :: usize) < 2 ^ k"
  shows "take_bit k x = x"
  using assms by (simp add: word_unat_eq_iff unsigned_take_bit_eq take_bit_nat_eq_self)

lemma vpath_inj:
  assumes "vpath a = vpath b" "page_aligned a" "page_aligned b" "unat a < 2 ^ 39" "unat b < 2 ^ 39"
  shows "a = b"
proof (rule bit_word_eqI)
  fix n :: nat
  have hi: "\<not> bit x n" if "unat x < 2 ^ 39" "39 \<le> n" for x :: usize
    using take_bit_small[OF that(1)] that(2) by (metis bit_take_bit_iff not_less)
  have v: "vpn2 a = vpn2 b" "vpn1 a = vpn1 b" "vpn0 a = vpn0 b" using assms(1) by (simp_all add: vpath_def word_unat_eq_iff)
  have "n < 12 \<or> (\<exists>k<9. n = 12 + k) \<or> (\<exists>k<9. n = 21 + k) \<or> (\<exists>k<9. n = 30 + k) \<or> 39 \<le> n"
    by presburger
  then consider "n < 12" | k where "n = 12 + k" "k < 9" | k where "n = 21 + k" "k < 9"
    | k where "n = 30 + k" "k < 9" | "39 \<le> n"
    by blast
  then show "bit a n = bit b n"
  proof cases
    case 1
    then show ?thesis using assms(2,3) by (auto simp: page_aligned_bit)
  next
    case (2 k)
    then show ?thesis using vpn_bit(1)[of a k] vpn_bit(1)[of b k] v(3) by simp
  next
    case (3 k)
    then show ?thesis using vpn_bit(2)[of a k] vpn_bit(2)[of b k] v(2) by simp
  next
    case (4 k)
    then show ?thesis using vpn_bit(3)[of a k] vpn_bit(3)[of b k] v(1) by simp
  next
    case 5
    then show ?thesis using hi assms(4,5) by simp
  qed
qed

section \<open>Ranges of pages\<close>

lemma round_up_less:
  assumes "(b :: nat) mod 4096 = 0" "b < (s + 4095) div 4096 * 4096"
  shows "b < s"
proof -
  obtain q where q: "b = q * 4096" using assms(1) by (metis dvd_def mod_0_imp_dvd mult.commute)
  with assms(2) have "Suc q \<le> (s + 4095) div 4096" by simp
  then have "Suc q * 4096 \<le> s + 4095" by (simp add: less_eq_div_iff_mult_less_eq)
  then show ?thesis using q by simp
qed

lemma round_up_ge: "(s :: nat) \<le> (s + 4095) div 4096 * 4096"
proof -
  have "s + 4095 = (s + 4095) div 4096 * 4096 + (s + 4095) mod 4096" by (simp only: div_mult_mod_eq)
  moreover have "(s + 4095) mod 4096 < 4096" by (rule mod_less_divisor) simp
  ultimately show ?thesis by linarith
qed

lemma round_up_le: "(s :: nat) \<le> q * 4096 \<Longrightarrow> (s + 4095) div 4096 * 4096 \<le> q * 4096"
  by (rule mult_le_mono1) simp

lemma map_pages_out:
  "\<forall>k<n. p \<noteq> vpath (va + of_nat k * PAGE_SIZE) \<Longrightarrow> map_pages L va pa f n p = L p"
proof (induction n arbitrary: L va pa)
  case 0
  then show ?case by simp
next
  case (Suc n)
  then show ?case using all_less_Suc_shift[of n "\<lambda>x. p \<noteq> vpath x" va] by simp
qed

lemma unat_page_offset:
  assumes "unat va + k * 4096 < 2 ^ 64"
  shows "unat (va + of_nat k * PAGE_SIZE) = unat va + k * 4096"
proof -
  have "k < 2 ^ 64" using assms by linarith
  then show ?thesis using assms by (simp add: unat_word_ariths unat_of_nat consts_simps)
qed

lemma page_aligned_offset:
  assumes "page_aligned va" "unat va + k * 4096 < 2 ^ 64"
  shows "page_aligned (va + of_nat k * PAGE_SIZE)"
  using assms(1) unfolding page_aligned_unat unat_page_offset[OF assms(2)] by simp

lemma map_pages_in:
  assumes "page_aligned va" "unat va + n * 4096 \<le> 2 ^ 39" "k < n"
  shows "map_pages L va pa f n (vpath (va + of_nat k * PAGE_SIZE)) = Some (Entry_new (pa + of_nat k * PAGE_SIZE) (f OR attr EA_V))"
  using assms
proof (induction n arbitrary: L va pa k)
  case 0
  then show ?case by simp
next
  case (Suc n)
  have v: "unat va + 4096 < 2 ^ 64" using Suc.prems(2) by simp
  show ?case
  proof (cases k)
    case 0
    have "vpath va \<noteq> vpath ((va + PAGE_SIZE) + of_nat j * PAGE_SIZE)" if "j < n" for j
    proof
      assume e: "vpath va = vpath ((va + PAGE_SIZE) + of_nat j * PAGE_SIZE)"
      have j: "unat va + Suc j * 4096 < 2 ^ 39" using Suc.prems(2) that by simp
      have s: "(va + PAGE_SIZE) + of_nat j * PAGE_SIZE = va + of_nat (Suc j) * PAGE_SIZE" by (simp add: algebra_simps)
      have j64: "unat va + Suc j * 4096 < 2 ^ 64" by (rule less_trans[OF j]) simp
      note u = unat_page_offset[OF j64]
      have "page_aligned (va + of_nat (Suc j) * PAGE_SIZE)" by (rule page_aligned_offset[OF Suc.prems(1) j64])
      then have "va = va + of_nat (Suc j) * PAGE_SIZE"
        by (intro vpath_inj[OF e[unfolded s] Suc.prems(1)]) (use j u in linarith)+
      then have "unat va = unat va + Suc j * 4096" using u by (simp only:)
      then show False by simp
    qed
    then show ?thesis using 0 by (simp add: map_pages_out)
  next
    case (Suc j)
    have b: "unat (va + PAGE_SIZE) + n * 4096 \<le> 2 ^ 39" using Suc.prems(2) page_next(1)[OF v] by simp
    from Suc.IH[OF page_next(4)[OF v Suc.prems(1)] b, of j] show ?thesis
      using Suc Suc.prems(3) by (simp add: algebra_simps)
  qed
qed

lemma map_pages_range:
  assumes a: "page_aligned a" and x: "page_aligned x" "unat x < 2 ^ 39"
    and n: "unat a + n * 4096 = (unat stop + 4095) div 4096 * 4096" "unat a + n * 4096 \<le> 2 ^ 39"
  shows "map_pages L a a f n (vpath x) =
    (if unat a \<le> unat x \<and> unat x < unat stop then Some (Entry_new x (f OR attr EA_V)) else L (vpath x))"
proof (cases "unat a \<le> unat x \<and> unat x < unat stop")
  case True
  define k where "k = (unat x - unat a) div 4096"
  have xk: "unat x = unat a + k * 4096"
    using True a x(1) by (auto simp: k_def page_aligned_unat)
  have "unat x < unat a + n * 4096" using True n(1) round_up_ge[of "unat stop"] by linarith
  then have "k < n" using xk by simp
  have "unat a + k * 4096 < 2 ^ 64" using x(2) xk by simp
  then have "x = a + of_nat k * PAGE_SIZE" using unat_page_offset xk by (simp add: word_unat_eq_iff)
  then show ?thesis using map_pages_in[OF a n(2) \<open>k < n\<close>] True by simp
next
  case False
  have "vpath x \<noteq> vpath (a + of_nat k * PAGE_SIZE)" if "k < n" for k
  proof
    assume e: "vpath x = vpath (a + of_nat k * PAGE_SIZE)"
    have k: "unat a + k * 4096 < unat a + n * 4096" using that by simp
    then have lt: "unat a + k * 4096 < 2 ^ 39" using n(2) by linarith
    have u: "unat (a + of_nat k * PAGE_SIZE) = unat a + k * 4096"
      by (rule unat_page_offset, rule less_trans[OF lt]) simp
    have "page_aligned (a + of_nat k * PAGE_SIZE)" using a unfolding page_aligned_unat u by simp
    then have "x = a + of_nat k * PAGE_SIZE" using vpath_inj[OF e x(1)] x(2) u lt by simp
    then have "unat x = unat a + k * 4096" using u by simp
    moreover have "unat a + k * 4096 < unat stop"
      by (rule round_up_less) (use a k n(1) in \<open>simp_all add: page_aligned_unat\<close>)
    ultimately show False using False by simp
  qed
  then show ?thesis using False by (auto simp: map_pages_out)
qed

lemma id_map_range_ok:
  assumes a: "aspace r m M" and P: "reserve P r m" and f: "page_flags f"
    and st: "unat start \<le> unat stop" "unat stop \<le> 2 ^ 39"
    and d: "\<And>x. page_aligned x \<Longrightarrow> page_in start stop x \<Longrightarrow> dirs x \<subseteq> P"
  shows "\<exists>m' M'. id_map_range r start stop f m = Inr m' \<and> aspace r m' M' \<and> extends r m M m' M' \<and> reserve P r m' \<and>
     (\<forall>x. page_aligned x \<longrightarrow> unat x < 2 ^ 39 \<longrightarrow> lookup (mem m') r (vpath x) =
        (if page_in start stop x then Some (Entry_new x (f OR attr EA_V)) else lookup (mem m) r (vpath x)))"
proof -
  obtain lo where lo: "align_val_down start PAGE_ORDER = Inr lo" by (simp add: align_val_down_def PAGE_ORDER_num)
  have ulo: "unat lo = unat start div 4096 * 4096" using align_val_down_unat[OF lo] by (simp add: PAGE_ORDER_num)
  obtain hi where hi: "align_val stop 12 = Inr hi" using align_val_ok_iff[of stop 12] st(2) by auto
  have uhi: "unat hi = (unat stop + 4095) div 4096 * 4096" using align_val_unat[OF hi] by simp
  define n where "n = (unat hi - unat lo) div 4096"
  have le: "unat lo \<le> unat hi" unfolding ulo uhi using st(1) by (intro mult_le_mono1 div_le_mono) simp
  have n: "unat lo + n * 4096 = unat hi"
    unfolding n_def using le ulo uhi by (simp add: diff_mult_distrib flip: diff_mult_distrib)
  have hi39: "unat hi \<le> 2 ^ 39" unfolding uhi using round_up_le[of "unat stop" 134217728] st(2) by simp
  have al: "page_aligned lo" by (simp add: page_aligned_unat ulo)
  have cnt: "unat ((hi - lo) div PAGE_SIZE) = n" using le by (simp add: n_def unat_div unat_sub word_le_nat_alt)
  have "dirs (lo + of_nat k * PAGE_SIZE) \<subseteq> P" if "k < n" for k
  proof (rule d)
    have lt: "unat lo + k * 4096 < unat lo + n * 4096" using that by simp
    then have "unat lo + k * 4096 < 2 ^ 39" using n hi39 by linarith
    then have u: "unat (lo + of_nat k * PAGE_SIZE) = unat lo + k * 4096"
      by (intro unat_page_offset) simp
    show "page_aligned (lo + of_nat k * PAGE_SIZE)" using al unfolding page_aligned_unat u by simp
    have "unat lo + k * 4096 < unat stop"
      by (rule round_up_less) (use lt n uhi al in \<open>simp_all add: page_aligned_unat\<close>)
    then show "page_in start stop (lo + of_nat k * PAGE_SIZE)" by (simp add: page_in_def u ulo)
  qed
  moreover have "unat lo + n * 4096 < 2 ^ 64" using n hi39 by simp
  ultimately obtain lo' m' M' where run: "rfor 0 n (\<lambda>_ (a, m).
         rbind (map_addr r a a f 0 m) (\<lambda>m'. rbind (add_chk a PAGE_SIZE) (\<lambda>a'. Inr (a', m')))) (lo, m) = Inr (lo', m')"
    and m': "aspace r m' M'" "extends r m M m' M'" "reserve P r m'" "lookup (mem m') r = map_pages (lookup (mem m) r) lo lo f n"
    using pt.id_loop[OF a P al f, of n 0] by auto
  have "id_map_range r start stop f m = Inr m'"
    using le by (simp add: id_map_range_def lo hi word_le_nat_alt cnt run)
  moreover have "lookup (mem m') r (vpath x) =
        (if page_in start stop x then Some (Entry_new x (f OR attr EA_V)) else lookup (mem m) r (vpath x))"
    if "page_aligned x" "unat x < 2 ^ 39" for x
    unfolding m'(4) using map_pages_range[OF al that, of n stop] n uhi hi39 by (simp add: page_in_def ulo)
  ultimately show ?thesis using m' by blast
qed

section \<open>The kernel page table and the hardware\<close>

lemma kmaps_range:
  assumes "kmaps P r m L" "page_flags f" "unat start \<le> unat stop" "unat stop \<le> 2 ^ 39"
    "\<And>x. page_aligned x \<Longrightarrow> page_in start stop x \<Longrightarrow> dirs x \<subseteq> P"
  shows "\<exists>m'. id_map_range r start stop f m = Inr m' \<and>
    kmaps P r m' (\<lambda>x. if page_in start stop x then Some (Entry_new x (f OR attr EA_V)) else L x)"
  using assms id_map_range_ok[of r m _ P f start stop] unfolding kmaps_def by (metis (no_types, lifting))

lemma kmaps_page:
  assumes k: "kmaps P r m L" and f: "page_flags f" "f AND attr EA_U = 0"
    and a: "page_aligned va" "page_aligned pa" "unat va < 2 ^ 39" and d: "dirs va \<subseteq> P"
  shows "\<exists>m'. kernel_map r va pa f m = Inr m' \<and>
    kmaps P r m' (\<lambda>x. if x = va then Some (Entry_new pa (f OR attr EA_V)) else L x)"
proof -
  obtain M where M: "aspace r m M" "reserve P r m" using k by (auto simp: kmaps_def)
  obtain m' M' where m': "map_addr r va pa f 0 m = Inr m'" "aspace r m' M'" "reserve P r m'"
    "lookup (mem m') r = (lookup (mem m) r)(vpath va \<mapsto> Entry_new pa (f OR attr EA_V))"
    using pt.map_law[OF M d a(2,1) f(1)] by blast
  have "lookup (mem m') r (vpath x) = (if x = va then Some (Entry_new pa (f OR attr EA_V)) else L x)"
    if "page_aligned x" "unat x < 2 ^ 39" for x
    using vpath_inj[OF _ that(1) a(1) that(2) a(3)] k that by (auto simp: m'(4) kmaps_def)
  then show ?thesis using m'(1-3) f(2) by (auto simp: kernel_map_def kmaps_def)
qed

lemma kmaps_range_bind:
  assumes "kmaps P r m L" "page_flags f" "region_ok P start stop"
    "\<And>m'. kmaps P r m' (\<lambda>x. if page_in start stop x then Some (Entry_new x (f OR attr EA_V)) else L x) \<Longrightarrow>
       \<exists>y. g m' = Inr y \<and> Q y"
  shows "\<exists>y. rbind (id_map_range r start stop f m) g = Inr y \<and> Q y"
  using kmaps_range[OF assms(1,2), of start stop] assms(3,4) by (auto simp: region_ok_def)

lemma kmaps_page_bind:
  assumes "kmaps P r m L" "page_flags f" "f AND attr EA_U = 0" "page_aligned va" "page_aligned pa" "unat va < 2 ^ 39" "dirs va \<subseteq> P"
    "\<And>m'. kmaps P r m' (\<lambda>x. if x = va then Some (Entry_new pa (f OR attr EA_V)) else L x) \<Longrightarrow> \<exists>y. g m' = Inr y \<and> Q y"
  shows "\<exists>y. rbind (kernel_map r va pa f m) g = Inr y \<and> Q y"
  using kmaps_page[OF assms(1-7)] assms(8) by auto

lemma unat_vpn2: "unat (vpn2 a) = unat a div 2 ^ 30 mod 512"
  unfolding vpn2_def mask_nums
  by (simp add: unsigned_take_bit_eq unsigned_drop_bit_eq drop_bit_eq_div flip: take_bit_eq_mask)
    (simp add: take_bit_eq_mod unat_div)

lemma dirs_kdirs: "unat (vpn2 x) \<in> S \<Longrightarrow> dirs x \<subseteq> kdirs S"
  using vpn_less by (auto simp: dirs_def kdirs_def)

lemma kdirs_finite:
  assumes "finite S"
  shows "finite (kdirs S)" "card (kdirs S) \<le> card S * 513"
proof -
  show "finite (kdirs S)" using assms by (simp add: kdirs_def)
  have "card (kdirs S) \<le> card ((\<lambda>i. [i]) ` S) + card ((\<lambda>(i, j). [i, j]) ` (S \<times> {..<TABLE_ENTRY_CNT}))"
    unfolding kdirs_def by (rule card_Un_le)
  also have "\<dots> \<le> card S + card (S \<times> {..<TABLE_ENTRY_CNT})"
    using assms by (intro add_mono card_image_le) auto
  finally show "card (kdirs S) \<le> card S * 513" by (simp add: card_cartesian_product)
qed

lemma kdirs_path: "p \<in> kdirs S \<Longrightarrow> S \<subseteq> {..<512} \<Longrightarrow> path 2 p \<and> p \<noteq> []"
  by (auto simp: kdirs_def)

lemma tb_Table_new: "c r = Table_new \<Longrightarrow> tb c r p = (if p = [] then Some r else None)"
  by (cases p) (simp_all add: Table_new_def is_bit)

lemma kmaps_start:
  assumes z: "mem m r = Table_new" and o: "owns (alc m) M" "0 < unat (base_addr (alc m))" and r: "root_ok m M r"
    and S: "finite S" "S \<subseteq> {..<512}" "card S * 513 \<le> free_pages (alc m)"
  shows "kmaps (kdirs S) r m (\<lambda>x. None)"
proof -
  note tb = tb_Table_new[of "mem m" r, OF z]
  have "aspace r m M" using o r by (auto simp: aspace_def tree_ok_def levels_ok_def tb z Table_new_def is_bit split: if_splits)
  moreover have "lookup (mem m) r p = None" for p by (auto simp: lookup_def tb z Table_new_def is_bit split: option.split)
  moreover have "reserve (kdirs S) r m"
  proof -
    have "card {p \<in> kdirs S. tb (mem m) r p = None} \<le> card (kdirs S)"
      using kdirs_finite(1)[OF S(1)] by (intro card_mono) auto
    then show ?thesis using kdirs_finite[OF S(1)] S(3) kdirs_path[OF _ S(2)] by (auto simp: reserve_def)
  qed
  ultimately show ?thesis by (auto simp: kmaps_def)
qed

lemma dirs_range:
  assumes "page_in start stop x" "a * 2 ^ 30 \<le> unat start" "unat stop \<le> Suc a * 2 ^ 30" "a < 512" "a \<in> S"
  shows "dirs x \<subseteq> kdirs S"
proof (rule dirs_kdirs)
  have "a * 2 ^ 30 = a * 2 ^ 18 * 4096" by simp
  then have "a * 2 ^ 30 div 4096 * 4096 = a * 2 ^ 30" by (metis nonzero_mult_div_cancel_right zero_neq_numeral)
  then have "a * 2 ^ 30 \<le> unat start div 4096 * 4096"
    using div_le_mono[OF assms(2), of 4096] by (metis mult_le_mono1)
  then have "a * 2 ^ 30 \<le> unat x" "unat x < Suc a * 2 ^ 30" using assms(1,3) by (auto simp: page_in_def)
  then have "unat x div 2 ^ 30 = a" by (intro div_nat_eqI) (simp_all add: mult.commute)
  then show "unat (vpn2 x) \<in> S" using assms(4,5) by (simp add: unat_vpn2)
qed

lemma init_pgtable_ok:
  assumes l: "linker_ok l kp" and k: "kmaps (kdirs {0, 2, 255}) kp m (\<lambda>x. None)"
  shows "\<exists>m'. init_pgtable l kp m = Inr m' \<and> kmaps (kdirs {0, 2, 255}) kp m' (kernel_layout l)"
proof -
  let ?S = "{0, 2, 255 :: nat}"
  have f: "page_flags (attr EA_RX)" "page_flags (attr EA_RW)" by (rule page_flags_attr)+
  have nu: "attr EA_RW AND attr EA_U = 0" "attr EA_RX AND attr EA_U = 0" by (simp_all add: attr.simps)
  have u: "unat (KERNEL_STACK_END l) = unat (BSS_END l) + 0x80000" "unat (BSS_END l) \<le> 0x87f00000"
    using l by (simp_all add: linker_ok_def unat_word_ariths word_le_nat_alt)
  have he: "add_chk (HEAP_START l) (HEAP_SIZE l) = Inr 0x88000000"
  proof -
    have "HEAP_START l + HEAP_SIZE l = 0x88000000" using l by (simp add: linker_ok_def)
    moreover have "unat (HEAP_SIZE l) = 0x88000000 - unat (HEAP_START l)"
      using l u by (simp add: linker_ok_def unat_sub word_le_nat_alt)
    ultimately show ?thesis using u l by (simp add: linker_ok_def)
  qed
  have ram: "region_ok (kdirs ?S) a b" if "0x80000000 \<le> unat a" "unat a \<le> unat b" "unat b \<le> 0x88000000" for a b
    unfolding region_ok_def
  proof (intro conjI allI impI)
    show "dirs x \<subseteq> kdirs ?S" if "page_in a b x" for x
      by (rule dirs_range[OF that, of 2]) (use \<open>0x80000000 \<le> unat a\<close> \<open>unat b \<le> 0x88000000\<close> in auto)
  qed (use that in auto)
  have dev: "region_ok (kdirs ?S) a b" if "unat a \<le> unat b" "unat b \<le> 0x40000000" for a b
    unfolding region_ok_def
  proof (intro conjI allI impI)
    show "dirs x \<subseteq> kdirs ?S" if "page_in a b x" for x
      by (rule dirs_range[OF that, of 0]) (use \<open>unat b \<le> 0x40000000\<close> in auto)
  qed (use that in auto)
  have reg: "region_ok (kdirs ?S) (TEXT_START l) (TEXT_END l)" "region_ok (kdirs ?S) (RODATA_START l) (RODATA_END l)"
    "region_ok (kdirs ?S) (DATA_START l) (DATA_END l)" "region_ok (kdirs ?S) (BSS_START l) (BSS_END l)"
    "region_ok (kdirs ?S) (KERNEL_STACK_START l) (KERNEL_STACK_END l)" "region_ok (kdirs ?S) (HEAP_START l) 0x88000000"
    using l u by (auto simp: linker_ok_def word_le_nat_alt intro!: ram)
  have regd: "region_ok (kdirs ?S) CLINT_BASE (CLINT_BASE + 0x10000)" "region_ok (kdirs ?S) PLIC_BASE (PLIC_BASE + 0x400000)"
    by (auto simp: CLINT_BASE_def PLIC_BASE_def intro!: dev)
  have pg: "page_aligned UART_BASE_ADDR" "page_aligned VIRTIO_MMIO_BASE" "page_aligned TRAMPOLINE_START"
    "page_aligned (TRAMPOLINE_TEXT_START l)"
    "unat UART_BASE_ADDR < 2 ^ 39" "unat VIRTIO_MMIO_BASE < 2 ^ 39" "unat TRAMPOLINE_START < 2 ^ 39"
    using l by (simp_all add: page_aligned_unat UART_BASE_ADDR_def VIRTIO_MMIO_BASE_def TRAMPOLINE_START_num linker_ok_def)
  have dp: "dirs UART_BASE_ADDR \<subseteq> kdirs ?S" "dirs VIRTIO_MMIO_BASE \<subseteq> kdirs ?S" "dirs TRAMPOLINE_START \<subseteq> kdirs ?S"
    by (rule dirs_kdirs, simp add: unat_vpn2 UART_BASE_ADDR_def VIRTIO_MMIO_BASE_def TRAMPOLINE_START_num)+
  note R = kmaps_range_bind[OF _ f(1)] kmaps_range_bind[OF _ f(2)]
    kmaps_page_bind[OF _ f(1) nu(2)] kmaps_page_bind[OF _ f(2) nu(1)]
  show ?thesis
    unfolding init_pgtable_def he rbind_simps
    apply (rule R(1)[OF k reg(1)])
    apply (erule R(1)[OF _ reg(2)])
    apply (erule R(2)[OF _ reg(3)])
    apply (erule R(2)[OF _ reg(4)])
    apply (erule R(2)[OF _ reg(5)])
    apply (erule R(4)[OF _ pg(1,1,5) dp(1)])
    apply (erule R(4)[OF _ pg(2,2,6) dp(2)])
    apply (erule R(3)[OF _ pg(3,4,7) dp(3)])
    apply (erule R(2)[OF _ reg(6)])
    apply (erule R(2)[OF _ regd(1)])
    subgoal premises p for m1 m2 m3 m4 m5 m6 m7 m8 m9 m10
      using kmaps_range_bind[OF p f(2) regd(2), where g = Inr and Q = "\<lambda>y. kmaps (kdirs ?S) kp y (kernel_layout l)"]
      by (simp add: kernel_layout_def[abs_def] Let_def)
    done
qed

lemma init_allocator_ok:
  assumes l: "unat (HEAP_START l) + 4095 < 2 ^ 63" and len: "length (page_allocated al) = MAX_PAGE"
  shows "\<exists>al'. init_allocator l al = Inr al' \<and> owns al' Map.empty \<and> free_pages al' = MAX_PAGE \<and>
    unat (base_addr al') = (unat (HEAP_START l) + 4095) div 4096 * 4096"
proof -
  obtain b where b: "align_val (HEAP_START l) PAGE_ORDER = Inr b"
    using align_val_ok_iff[of "HEAP_START l" 12] l by (auto simp: PAGE_ORDER_num)
  have ub: "unat b = (unat (HEAP_START l) + 4095) div 4096 * 4096"
    using align_val_unat[OF b] by (simp add: PAGE_ORDER_num)
  then have ub63: "unat b \<le> unat (HEAP_START l) + 4095" using div_times_less_eq_dividend[of "unat (HEAP_START l) + 4095" 4096] by simp
  obtain pa where pa: "mark_run (page_allocated al) 0 MAX_PAGE 0 = Inr pa" "length pa = MAX_PAGE" "\<forall>k<MAX_PAGE. pa ! k = 0"
    using mark_run_ok[of 0 MAX_PAGE "page_allocated al" 0] len by auto
  let ?al = "al\<lparr>base_addr := b, page_allocated := pa\<rparr>"
  have rel: "alloc_rel ?al Map.empty"
    using pa ub ub63 l by (simp add: alloc_rel_def MAX_PAGE_num)
  have o: "owns ?al Map.empty"
    unfolding owns_def using rel by (intro exI[of _ Map.empty]) (simp add: block_map_def fun_eq_iff)
  have "free_pages ?al = MAX_PAGE" using owns_count(2)[OF o] by simp
  then show ?thesis using b pa(1) o ub by (simp add: init_allocator_def)
qed

lemma mem_init_ok:
  assumes l: "linker_ok l kp" and z: "mem m kp = Table_new" and len: "length (page_allocated (alc m)) = MAX_PAGE"
  shows "\<exists>m'. mem_init l kp m = Inr m' \<and> kmaps (kdirs {0, 2, 255}) kp m' (kernel_layout l)"
proof -
  have u: "unat (HEAP_START l) = unat (BSS_END l) + 0x80000" "unat (BSS_END l) \<le> 0x87f00000"
    using l by (simp_all add: linker_ok_def unat_word_ariths word_le_nat_alt)
  obtain al where al: "init_allocator l (alc m) = Inr al" "owns al Map.empty" "free_pages al = MAX_PAGE"
    "unat (base_addr al) = (unat (HEAP_START l) + 4095) div 4096 * 4096"
    using init_allocator_ok[of l "alc m"] len u by auto
  have b: "unat (HEAP_START l) \<le> unat (base_addr al)" unfolding al(4) by (rule round_up_ge)
  have "root_ok (m\<lparr>alc := al\<rparr>) Map.empty kp"
    using b u l by (simp add: root_ok_def linker_ok_def)
  then have "kmaps (kdirs {0, 2, 255}) kp (m\<lparr>alc := al\<rparr>) (\<lambda>x. None)"
    using al b u by (intro kmaps_start) (auto simp: z MAX_PAGE_num)
  from init_pgtable_ok[OF l this] show ?thesis by (simp add: mem_init_def al(1))
qed

lemma sv39_next_paddr:
  assumes "unat (Entry_paddr e) < 2 ^ 56"
  shows "sv39_next e = Entry_paddr e"
proof -
  have "Entry_paddr e = take_bit 56 (Entry_paddr e)" using take_bit_small[OF assms] by simp
  also have "\<dots> = sv39_next e"
  proof (rule bit_word_eqI)
    fix n :: nat
    show "bit (take_bit 56 (Entry_paddr e)) n = bit (sv39_next e) n"
    proof (cases "12 \<le> n")
      case True
      then obtain k where "n = 12 + k" using le_Suc_ex by blast
      then show ?thesis unfolding Entry_paddr_def sv39_next_def mask_nums by (auto simp: bit_simps)
    next
      case False
      then show ?thesis unfolding Entry_paddr_def sv39_next_def mask_nums by (auto simp: bit_simps)
    qed
  qed
  finally show ?thesis by simp
qed

lemma sv39_translate_lookup:
  assumes a: "aspace r m M" and hi: "unat (base_addr (alc m)) + MAX_PAGE * 4096 \<le> 2 ^ 56"
    and l: "lookup (mem m) r (vpath va) = Some e" and f: "bit e 1 \<or> bit e 3" "bit e 2 \<longrightarrow> bit e 1"
    and pa: "unat (Entry_paddr e) < 2 ^ 56"
  shows "sv39_translate (mem m) r va = Some (Entry_paddr e OR take_bit 12 va, e)"
proof -
  let ?i = "unat (vpn2 va)" and ?j = "unat (vpn1 va)" and ?k = "unat (vpn0 va)"
  have lt: "path 2 [?i, ?j]" "?k < TABLE_ENTRY_CNT" "path 2 [?i]" "?i < TABLE_ENTRY_CNT" "?j < TABLE_ENTRY_CNT"
    using vpn_less by simp_all
  have "lookup (mem m) r ([?i, ?j] @ [?k]) = Some e" using l by (simp add: vpath_def)
  moreover have "length [?i, ?j] = 2" by simp
  ultimately obtain t0 where t0: "tb (mem m) r [?i, ?j] = Some t0" "mem m t0 ?k = e" "is_v e"
    using lt(1,2) by (elim lookup_SomeD)
  have small: "unat t < 2 ^ 56" if "path 2 p" "p \<noteq> []" "tb (mem m) r p = Some t" for p t
  proof -
    have "M t = Some 1" and o: "owns (alc m) M" using a that by (auto simp: aspace_def)
    then obtain B where B: "alloc_rel (alc m) B" "M = block_map (alc m) B" by (auto simp: owns_def)
    then obtain s where s: "B s = Some 1" "t = page_addr (alc m) s" using \<open>M t = Some 1\<close> by (auto simp: block_map_Some)
    have "s < MAX_PAGE" by (rule alloc_relD(3)[OF B(1) s(1)])
    then have "unat t = unat (base_addr (alc m)) + s * 4096" "s * 4096 < MAX_PAGE * 4096"
      using unat_page_addr[OF B(1)] s(2) by simp_all
    then show ?thesis using hi by linarith
  qed
  let ?e2 = "mem m r ?i" let ?t1 = "Entry_paddr ?e2" let ?e1 = "mem m ?t1 ?j"
  have v: "is_v ?e2" "is_v ?e1" "t0 = Entry_paddr ?e1" using t0(1) by (auto split: if_splits)
  have "tb (mem m) r [?i] = Some ?t1" using v(1) by simp
  have lv: "levels_ok (mem m) r" using a by (simp add: aspace_def)
  have nl: "\<not> is_leaf ?e2" "\<not> is_leaf ?e1"
    using levels_okD[OF lv, of "[]" r ?i] levels_okD[OF lv lt(3) \<open>tb (mem m) r [?i] = Some ?t1\<close> lt(5) v(2)] v(1) lt
    by simp_all
  have nx: "sv39_next ?e2 = ?t1" "sv39_next ?e1 = t0"
    using small[OF lt(3) _ \<open>tb (mem m) r [?i] = Some ?t1\<close>] small[OF lt(1) _ t0(1)] v(3)
    by (auto intro!: sv39_next_paddr)
  show ?thesis
    using v nl nx t0(2,3) f sv39_next_paddr[OF pa]
    by (cases "bit e 1") (simp_all add: sv39_translate_def is_bit is_leaf_bit Let_def)
qed

section \<open>Properties\<close>

lemma aspace_mem0: "aspace 0x80000000 mem0 Map.empty"
  using owns_example
  by (auto simp: aspace_def mem0_def root_ok_def tree_ok_def levels_ok_def is_bit tb_Table_new Table_new_def split: if_splits)

lemma free_mem0: "free_pages (alc mem0) = MAX_PAGE"
  using owns_count(2)[OF owns_example] by (simp add: mem0_def)

lemma dirs_card: "card {p \<in> dirs va. Q p} \<le> 2" "finite (dirs va)"
proof -
  show f: "finite (dirs va)" by (simp add: dirs_def)
  have "card {p \<in> dirs va. Q p} \<le> card (dirs va)" using f by (intro card_mono) auto
  also have "\<dots> \<le> 2" by (simp add: dirs_def)
  finally show "card {p \<in> dirs va. Q p} \<le> 2" .
qed

lemma dirs_path: "p \<in> dirs va \<Longrightarrow> path 2 p"
  using vpn_less by (auto simp: dirs_def)

lemma reserve_two: "2 \<le> free_pages (alc m) \<Longrightarrow> reserve (dirs va) r m"
  using dirs_card(1)[of va "\<lambda>p. tb (mem m) r p = None"] dirs_card(2)[of va] dirs_path[of _ va] by (auto simp: reserve_def)

text \<open>C1: Mapping a page changes the address space at exactly that page, to an entry with the
  given address and flags; every block that was handed out before stays so and, unless it
  is one of the tables, keeps its contents. The only failure is that the allocator has no
  page left for a new table.
\<close>

theorem map_addr_updates_one_page:
  assumes "aspace r m M" "page_aligned pa" "page_aligned va" "page_flags f"
  shows "(\<exists>m' M'. map_addr r va pa f 0 m = Inr m' \<and> aspace r m' M' \<and>
      lookup (mem m') r = (lookup (mem m) r)(vpath va \<mapsto> Entry_new pa (f OR attr EA_V)) \<and>
      (\<forall>p n. M p = Some n \<longrightarrow> M' p = Some n \<and> (p \<notin> tables (mem m) r \<longrightarrow> mem m' p = mem m p))) \<or>
    (map_addr r va pa f 0 m \<in> Inl ` alloc_panics \<and> free_pages (alc m) < 2)"
proof -
  from map_addr_ok[OF assms] show ?thesis
  proof (elim disjE exE conjE bexE)
    fix m' M'
    assume m': "map_addr r va pa f 0 m = Inr m'" "aspace r m' M'" "extends r m M m' M'"
      "lookup (mem m') r = (lookup (mem m) r)(vpath va \<mapsto> Entry_new pa (f OR attr EA_V))"
    have "M' p = Some n \<and> (p \<notin> tables (mem m) r \<longrightarrow> mem m' p = mem m p)" if "M p = Some n" for p n
    proof -
      have "M' p = Some n" using m'(3) that by (auto simp: extends_def map_le_def dom_def)
      moreover have "p \<notin> tables (mem m) r \<Longrightarrow> p \<notin> tables (mem m') r"
        using m'(3) that by (auto simp: extends_def)
      ultimately show ?thesis using m'(3) by (auto simp: extends_def)
    qed
    then show ?thesis using m' by blast
  next
    fix e assume "e \<in> alloc_panics" "map_addr r va pa f 0 m = Inl e" "\<forall>P. dirs va \<subseteq> P \<longrightarrow> \<not> reserve P r m"
    then show ?thesis using reserve_two[of m va r] by fastforce
  qed
qed

theorem map_addr_updates_one_page_witness:
  "\<exists>m'. map_addr 0x80000000 0x1000 0x80200000 (attr EA_URX) 0 mem0 = Inr m' \<and>
     lookup (mem m') 0x80000000 = [[0, 0, 1] \<mapsto> 0x2008001b]"
proof -
  have al: "page_aligned 0x80200000" "page_aligned 0x1000" by (simp_all add: page_aligned_unat)
  have "lookup (mem mem0) 0x80000000 = Map.empty"
    by (rule ext) (simp add: lookup_def mem0_def is_bit split: option.split)
  moreover have "vpath 0x1000 = [0, 0, 1]" by (simp add: vpath_def vpn0_def vpn1_def vpn2_def)
  moreover have "Entry_new 0x80200000 (attr EA_URX OR attr EA_V) = 0x2008001b" by (simp add: Entry_new_def attr.simps)
  ultimately show ?thesis
    using map_addr_updates_one_page[OF aspace_mem0 al page_flags_attr(5)] free_mem0
    by (auto simp: MAX_PAGE_num)
qed

lemma vpath_page: "vpath (a AND NOT 0xfff) = vpath a"
proof -
  have "vpn0 (a AND NOT 0xfff) = vpn0 a" "vpn1 (a AND NOT 0xfff) = vpn1 a" "vpn2 (a AND NOT 0xfff) = vpn2 a"
    unfolding vpn0_def vpn1_def vpn2_def mask_nums by (rule bit_word_eqI, auto simp: bit_simps)+
  then show ?thesis by (simp add: vpath_def)
qed

lemma page_aligned_down: "page_aligned (a AND NOT 0xfff)"
  unfolding page_aligned_bit mask_nums by (auto simp: bit_simps)

text \<open>C7: After \<open>map_addr\<close> returns, the hardware's own walk of the tables translates every address
  of the page to the mapped frame plus the offset and finds the requested flags.
\<close>

theorem mapped_page_translates:
  assumes "aspace r m M" "unat (base_addr (alc m)) + MAX_PAGE * 4096 \<le> 2 ^ 56"
    and "page_aligned pa" "unat pa < 2 ^ 56" "page_flags f" "is_r f \<or> is_x f" "is_w f \<longrightarrow> is_r f"
    and "map_addr r (x AND NOT 0xfff) pa f 0 m = Inr m'"
  shows "sv39_translate (mem m') r x = Some (pa OR take_bit 12 x, Entry_new pa (f OR attr EA_V))"
proof -
  let ?e = "Entry_new pa (f OR attr EA_V)"
  obtain M' where M': "aspace r m' M'" "extends r m M m' M'"
      "lookup (mem m') r = (lookup (mem m) r)(vpath (x AND NOT 0xfff) \<mapsto> ?e)"
    using map_addr_ok[OF assms(1,3) page_aligned_down assms(5), of x] assms(8) by auto
  have sf: "small_flags (f OR attr EA_V)"
    using assms(5) small_flags_attr by (auto simp: page_flags_def intro: small_flags_or)
  have p: "Entry_paddr ?e = pa" by (rule Entry_paddr_new[OF sf assms(3)])
  have "sv39_translate (mem m') r x = Some (Entry_paddr ?e OR take_bit 12 x, ?e)"
  proof (rule sv39_translate_lookup[OF M'(1)])
    show "unat (base_addr (alc m')) + MAX_PAGE * 4096 \<le> 2 ^ 56" using assms(2) M'(2) by (simp add: extends_def)
    show "lookup (mem m') r (vpath x) = Some ?e" unfolding M'(3) vpath_page by simp
    show "bit ?e 1 \<or> bit ?e 3" "bit ?e 2 \<longrightarrow> bit ?e 1"
      using assms(6,7) by (auto simp: Entry_new_bit bit_simps is_bit attr_V_bit)
    show "unat (Entry_paddr ?e) < 2 ^ 56" using assms(4) p by simp
  qed
  then show ?thesis by (simp add: p)
qed

lemma map_mem0: "\<exists>m'. map_addr 0x80000000 0x1000 0x80200000 (attr EA_URX) 0 mem0 = Inr m' \<and>
    lookup (mem m') 0x80000000 = (lookup (mem mem0) 0x80000000)(vpath 0x1000 \<mapsto> Entry_new 0x80200000 (attr EA_URX OR attr EA_V)) \<and>
    (\<exists>M'. aspace 0x80000000 m' M')"
proof -
  have al: "page_aligned 0x80200000" "page_aligned 0x1000" by (simp_all add: page_aligned_unat)
  have "reserve (dirs 0x1000) 0x80000000 mem0" by (rule reserve_two) (simp add: free_mem0 MAX_PAGE_num)
  from pt.map_law[OF aspace_mem0 this order.refl al page_flags_attr(5)] show ?thesis by blast
qed

theorem mapped_page_translates_witness:
  "\<exists>m'. map_addr 0x80000000 0x1000 0x80200000 (attr EA_URX) 0 mem0 = Inr m' \<and>
     sv39_translate (mem m') 0x80000000 0x1234 = Some (0x80200234, 0x2008001b)"
proof -
  obtain m' where m': "map_addr 0x80000000 (0x1234 AND NOT 0xfff) 0x80200000 (attr EA_URX) 0 mem0 = Inr m'"
    using map_mem0 by auto
  have "sv39_translate (mem m') 0x80000000 0x1234 = Some (0x80200000 OR take_bit 12 0x1234, Entry_new 0x80200000 (attr EA_URX OR attr EA_V))"
    by (rule mapped_page_translates[OF aspace_mem0 _ _ _ page_flags_attr(5) _ _ m'])
      (simp_all add: mem0_def Allocator_new_def MAX_PAGE_num page_aligned_unat is_bit attr.simps bit_simps)
  then show ?thesis using m' by (simp add: Entry_new_def attr.simps take_bit_eq_mod)
qed

text \<open>\<open>paddr_of\<close> of a page that was just mapped is the physical address it was mapped to.
\<close>

theorem paddr_of_mapped:
  assumes "aspace r m M" "page_aligned pa" "page_aligned va" "page_flags f" "map_addr r va pa f 0 m = Inr m'"
  shows "paddr_of r va m' = Inr (Some pa)"
proof -
  let ?e = "Entry_new pa (f OR attr EA_V)" and ?q = "[unat (vpn2 va), unat (vpn1 va)]"
  obtain M' where M': "aspace r m' M'" "lookup (mem m') r = (lookup (mem m) r)(vpath va \<mapsto> ?e)"
    using map_addr_ok[OF assms(1-4)] assms(5) by auto
  have "lookup (mem m') r (?q @ [unat (vpn0 va)]) = Some ?e" by (simp add: M'(2) vpath_def)
  moreover have "path 2 ?q" "length ?q = 2" "unat (vpn0 va) < TABLE_ENTRY_CNT" using vpn_less by simp_all
  ultimately obtain t where t: "tb (mem m') r ?q = Some t" "mem m' t (unat (vpn0 va)) = ?e"
    by (elim lookup_SomeD)
  have "Entry_paddr ?e = pa"
    using assms(2,4) small_flags_attr by (intro Entry_paddr_new small_flags_or) (auto simp: page_flags_def)
  then show ?thesis unfolding paddr_of_ok[OF M'(1) assms(3)] by (simp only: t option.case)
qed

theorem paddr_of_mapped_witness:
  "\<exists>m'. map_addr 0x80000000 0x1000 0x80200000 (attr EA_URX) 0 mem0 = Inr m' \<and>
     paddr_of 0x80000000 0x1000 m' = Inr (Some 0x80200000)"
proof -
  have al: "page_aligned 0x80200000" "page_aligned 0x1000" by (simp_all add: page_aligned_unat)
  show ?thesis using map_mem0 paddr_of_mapped[OF aspace_mem0 al page_flags_attr(5)] by blast
qed

text \<open>C12: For a page that is not mapped, but lies in a 2 MiB region some page of which was mapped
  before, \<open>paddr_of\<close> does not return \<open>None\<close>: it returns the address field of the invalid entry.
\<close>

theorem paddr_of_unmapped_page:
  assumes "aspace r m M" "page_aligned va" "lookup (mem m) r (vpath va) = None"
    and "tb (mem m) r [unat (vpn2 va), unat (vpn1 va)] = Some t"
  shows "paddr_of r va m = Inr (Some (Entry_paddr (mem m t (unat (vpn0 va))))) \<and> \<not> is_v (mem m t (unat (vpn0 va)))"
proof -
  let ?q = "[unat (vpn2 va), unat (vpn1 va)]"
  have q: "path 2 ?q" "length ?q = 2" "unat (vpn0 va) < TABLE_ENTRY_CNT" using vpn_less by simp_all
  have "lookup (mem m) r (?q @ [unat (vpn0 va)]) = None" using assms(3) by (simp add: vpath_def)
  then have "\<not> is_v (mem m t (unat (vpn0 va)))"
    unfolding lookup_snoc[OF q] assms(4) by (simp split: if_splits)
  then show ?thesis unfolding paddr_of_ok[OF assms(1,2)] by (simp only: assms(4) option.case) simp
qed

theorem paddr_of_unmapped_page_witness:
  "\<exists>m' x. map_addr 0x80000000 0x1000 0x80200000 (attr EA_URX) 0 mem0 = Inr m' \<and>
     lookup (mem m') 0x80000000 (vpath 0x2000) = None \<and> paddr_of 0x80000000 0x2000 m' = Inr (Some x)"
proof -
  obtain m' M' where m': "map_addr 0x80000000 0x1000 0x80200000 (attr EA_URX) 0 mem0 = Inr m'" "aspace 0x80000000 m' M'"
    "lookup (mem m') 0x80000000 = (lookup (mem mem0) 0x80000000)(vpath 0x1000 \<mapsto> Entry_new 0x80200000 (attr EA_URX OR attr EA_V))"
    using map_mem0 by blast
  have vp: "vpath 0x1000 = [0, 0] @ [1]" "vpath 0x2000 = [0, 0] @ [2]"
    by (simp_all add: vpath_def vpn0_def vpn1_def vpn2_def)
  have "lookup (mem m') 0x80000000 ([0, 0] @ [1]) = Some (Entry_new 0x80200000 (attr EA_URX OR attr EA_V))"
    unfolding m'(3) vp by simp
  moreover have "path 2 [0, 0]" "length [0, 0 :: nat] = 2" "1 < TABLE_ENTRY_CNT" by simp_all
  ultimately obtain t where t: "tb (mem m') 0x80000000 [0, 0] = Some t" by (elim lookup_SomeD)
  have "lookup (mem mem0) 0x80000000 p = None" for p
    by (simp add: lookup_def mem0_def is_bit split: option.split)
  then have none: "lookup (mem m') 0x80000000 (vpath 0x2000) = None" unfolding m'(3) vp by simp
  have "tb (mem m') 0x80000000 [unat (vpn2 0x2000), unat (vpn1 0x2000)] = Some t"
    using t by (simp only: vpn1_def vpn2_def) simp
  moreover have "page_aligned 0x2000" by (simp add: page_aligned_unat)
  ultimately show ?thesis using paddr_of_unmapped_page[OF m'(2) _ none] m'(1) none by blast
qed

text \<open>C3: \<open>mem::init\<close> returns and the kernel page table is exactly the intended layout: sections,
  stacks and heap mapped to themselves, the device windows, the trampoline at the top, and
  nothing else.
\<close>

theorem kernel_page_table:
  assumes "linker_ok l kp" "mem m kp = Table_new" "length (page_allocated (alc m)) = MAX_PAGE"
  shows "\<exists>m' M'. mem_init l kp m = Inr m' \<and> aspace kp m' M' \<and>
    (\<forall>x. page_aligned x \<longrightarrow> unat x < 2 ^ 39 \<longrightarrow> lookup (mem m') kp (vpath x) = kernel_layout l x)"
  using mem_init_ok[OF assms] unfolding kmaps_def by blast

lemma example_linker_ok: "linker_ok example_linker 0x80017000"
  by (simp add: linker_ok_def example_linker_def page_aligned_unat)

theorem kernel_page_table_witness:
  "\<exists>m'. mem_init example_linker 0x80017000 mem0 = Inr m' \<and>
     lookup (mem m') 0x80017000 (vpath TRAMPOLINE_START) = Some (Entry_new 0x80011000 (attr EA_RX OR attr EA_V)) \<and>
     lookup (mem m') 0x80017000 (vpath 0x80013000) = Some (Entry_new 0x80013000 (attr EA_RX OR attr EA_V)) \<and>
     lookup (mem m') 0x80017000 (vpath 0x1000) = None"
proof -
  have "mem mem0 0x80017000 = Table_new" "length (page_allocated (alc mem0)) = MAX_PAGE"
    by (simp_all add: mem0_def Table_new_def Allocator_new_def)
  from kernel_page_table[OF example_linker_ok this] show ?thesis
    by (fastforce simp: kernel_layout_def page_in_def example_linker_def TRAMPOLINE_START_num page_aligned_unat
        PLIC_BASE_def CLINT_BASE_def VIRTIO_MMIO_BASE_def UART_BASE_ADDR_def)
qed

lemma page_in_ge:
  assumes "page_in a b x" "page_aligned c" "c \<le> a"
  shows "c \<le> x"
proof -
  have "unat c div 4096 * 4096 \<le> unat a div 4096 * 4096"
    using assms(3) by (intro mult_le_mono1 div_le_mono) (simp add: word_le_nat_alt)
  moreover have "unat c div 4096 * 4096 = unat c" using assms(2) by (auto simp: page_aligned_unat)
  ultimately show ?thesis using assms(1) by (simp add: page_in_def word_le_nat_alt)
qed

lemma page_in_lt: "page_in a b x \<Longrightarrow> x < b"
  by (simp add: page_in_def word_less_nat_alt)

lemma kernel_layout_image:
  assumes l: "linker_ok l kp" and x: "page_in (TEXT_START l) (TEXT_END l) x \<or> page_in (RODATA_START l) (RODATA_END l) x"
  shows "kernel_layout l x = Some (Entry_new x (attr EA_RX OR attr EA_V))"
proof -
  have lo: "0x80000000 \<le> x"
  proof -
    have "0x80000000 \<le> TEXT_START l" "0x80000000 \<le> RODATA_START l" using l by (auto simp: linker_ok_def)
    moreover have "page_aligned 0x80000000" by (simp add: page_aligned_unat)
    ultimately show ?thesis using x page_in_ge by blast
  qed
  have hi: "x < DATA_START l" using x l by (auto dest!: page_in_lt simp: linker_ok_def)
  have no: "\<not> page_in a b x" if "DATA_START l \<le> a" for a b
    using page_in_ge[of a b x "DATA_START l"] that hi l by (auto simp: linker_ok_def)
  have dev: "\<not> page_in a b x" if "b \<le> 0x80000000" for a b
    using page_in_lt[of a b x] lo that by auto
  have le: "DATA_START l \<le> BSS_START l" "DATA_START l \<le> KERNEL_STACK_START l" "DATA_START l \<le> HEAP_START l"
    using l by (auto simp: linker_ok_def word_le_nat_alt unat_word_ariths)
  have ne: "x \<noteq> TRAMPOLINE_START" "x \<noteq> VIRTIO_MMIO_BASE" "x \<noteq> UART_BASE_ADDR"
    using hi lo l by (auto simp: linker_ok_def TRAMPOLINE_START_num VIRTIO_MMIO_BASE_def UART_BASE_ADDR_def word_le_nat_alt word_less_nat_alt)
  have "\<not> page_in PLIC_BASE (PLIC_BASE + 0x400000) x" "\<not> page_in CLINT_BASE (CLINT_BASE + 0x10000) x"
    by (rule dev, simp add: PLIC_BASE_def CLINT_BASE_def)+
  then show ?thesis using x no[OF order.refl] no[OF le(1)] no[OF le(2)] no[OF le(3)] ne
    by (auto simp: kernel_layout_def Let_def)
qed

lemma kernel_layout_flags:
  assumes "kernel_layout l x = Some e"
  shows "\<not> is_u e \<and> (is_w e \<longleftrightarrow> \<not> is_x e)"
  using assms by (auto simp: kernel_layout_def Let_def is_bit Entry_new_bit attr.simps bit_simps split: if_splits)

text \<open>C8: No page of the kernel address space is accessible to user mode, each is either writable
  or executable but not both, and the pages of the text and read-only data are mapped to
  themselves and cannot be written.
\<close>

theorem kernel_text_protected:
  assumes "linker_ok l kp" "mem m kp = Table_new" "length (page_allocated (alc m)) = MAX_PAGE"
    and "mem_init l kp m = Inr m'" "page_aligned x" "unat x < 2 ^ 39"
  shows "(\<forall>e. lookup (mem m') kp (vpath x) = Some e \<longrightarrow> \<not> is_u e \<and> (is_w e \<longleftrightarrow> \<not> is_x e)) \<and>
    (page_in (TEXT_START l) (TEXT_END l) x \<or> page_in (RODATA_START l) (RODATA_END l) x \<longrightarrow>
       lookup (mem m') kp (vpath x) = Some (Entry_new x (attr EA_RX OR attr EA_V)))"
proof -
  have "lookup (mem m') kp (vpath x) = kernel_layout l x"
    using mem_init_ok[OF assms(1-3)] assms(4-6) by (auto simp: kmaps_def)
  then show ?thesis using kernel_layout_flags[of l x] kernel_layout_image[OF assms(1)] by simp
qed

theorem kernel_text_protected_witness:
  "\<exists>m'. mem_init example_linker 0x80017000 mem0 = Inr m' \<and>
     lookup (mem m') 0x80017000 (vpath 0x80001000) = Some (Entry_new 0x80001000 (attr EA_RX OR attr EA_V))"
proof -
  have z: "mem mem0 0x80017000 = Table_new" "length (page_allocated (alc mem0)) = MAX_PAGE"
    by (simp_all add: mem0_def Table_new_def Allocator_new_def)
  obtain m' where m': "mem_init example_linker 0x80017000 mem0 = Inr m'"
    using mem_init_ok[OF example_linker_ok z] by blast
  have "page_in (TEXT_START example_linker) (TEXT_END example_linker) 0x80001000"
    by (simp add: page_in_def example_linker_def)
  then show ?thesis
    using kernel_text_protected[OF example_linker_ok z m', of "0x80001000"] m' by (simp add: page_aligned_unat)
qed

section \<open>Several address spaces\<close>

lemma aspace_cong:
  assumes a: "aspace r m M" and c: "\<And>t. t \<in> tables (mem m) r \<Longrightarrow> c t = mem m t"
  shows "aspace r (m\<lparr>mem := c\<rparr>) M" "lookup c r = lookup (mem m) r"
proof -
  have t: "tb c r p = tb (mem m) r p" if "path 2 p" for p
    using tb_cong[of "[]" p "mem m" r r c] c that by simp
  have ct: "c t = mem m t" if "path 2 p" "tb (mem m) r p = Some t" for p t
    using c tablesI[OF that] by simp
  have tr: "tree_ok c r" "levels_ok c r"
    using a t ct unfolding aspace_def tree_ok_def levels_ok_def by (metis, metis)
  show "aspace r (m\<lparr>mem := c\<rparr>) M"
    using a tr t by (auto simp: aspace_def root_ok_def)
  show "lookup c r = lookup (mem m) r" by (rule lookup_cong) (use t c in auto)
qed

lemma mapping_elsewhere:
  assumes u: "aspace u m M" and k: "aspace k m M" and dis: "tables (mem m) u \<inter> tables (mem m) k = {}"
    and k': "aspace k m' M'" and e: "extends k m M m' M'"
  shows "aspace u m' M'" "lookup (mem m') u = lookup (mem m) u" "tables (mem m') u = tables (mem m) u"
    "tables (mem m') u \<inter> tables (mem m') k = {}"
proof -
  have below: "unat (base_addr (alc m)) \<le> unat t" if td: "t \<in> dom M'" for t
  proof -
    have "owns (alc m') M'" "base_addr (alc m') = base_addr (alc m)" using k' e by (auto simp: aspace_def extends_def)
    moreover obtain n where "M' t = Some n" using td by blast
    ultimately have "base_addr (alc m) \<le> t" using owned_above_base by metis
    then show ?thesis by (simp add: word_le_nat_alt)
  qed
  have dom: "t \<in> dom M \<or> unat t + 4096 \<le> unat (base_addr (alc m))" if tu: "t \<in> tables (mem m) u" for t
  proof -
    obtain p where p: "path 2 p" "tb (mem m) u p = Some t" using tu by (auto simp: tables_def)
    show ?thesis
    proof (cases "p = []")
      case True
      then show ?thesis using u p(2) by (auto simp: aspace_def root_ok_def)
    next
      case False
      then show ?thesis using u p by (auto simp: aspace_def)
    qed
  qed
  have new: "t \<notin> tables (mem m') k" if t: "t \<in> tables (mem m) u" for t
  proof
    assume "t \<in> tables (mem m') k"
    then have "t \<in> tables (mem m) k \<or> t \<in> dom M' - dom M" using e by (auto simp: extends_def)
    then have "t \<in> dom M' - dom M" using dis t by auto
    then show False using dom[OF t] below[of t] by auto
  qed
  then have same: "\<And>t. t \<in> tables (mem m) u \<Longrightarrow> mem m' t = mem m t" using e by (simp add: extends_def)
  have t: "tb (mem m') u p = tb (mem m) u p" if "path 2 p" for p
    using tb_cong[of "[]" p "mem m" u u "mem m'"] same that by simp
  show tt: "tables (mem m') u = tables (mem m) u" using t by (auto simp: tables_def)
  show "tables (mem m') u \<inter> tables (mem m') k = {}" unfolding tt using new by auto
  show "lookup (mem m') u = lookup (mem m) u" by (rule aspace_cong(2)[OF u same])
  have a: "aspace u (m\<lparr>mem := mem m'\<rparr>) M" by (rule aspace_cong(1)[OF u same])
  have "owns (alc m') M'" "M \<subseteq>\<^sub>m M'" "base_addr (alc m') = base_addr (alc m)"
    using k' e by (auto simp: aspace_def extends_def)
  then show "aspace u m' M'"
    using a by (auto simp: aspace_def root_ok_def map_le_def dom_def)
qed

lemma map_walk_free:
  assumes "owns (alc m) M" "map_walk va ls v m = Inr (m', v')"
  shows "\<exists>M'. owns (alc m') M' \<and> free_pages (alc m) \<le> free_pages (alc m') + length ls"
  using assms
proof (induction ls arbitrary: m M v)
  case Nil
  then show ?case by auto
next
  case (Cons l ls)
  have "\<exists>m1 v1 M1. map_walk va ls v1 m1 = Inr (m', v') \<and> owns (alc m1) M1 \<and> free_pages (alc m) \<le> free_pages (alc m1) + 1"
  proof (cases "is_v (mem m (fst v) (snd v))")
    case True
    then show ?thesis using Cons.prems by (auto simp del: split_paired_Ex)
  next
    case False
    then obtain m0 z v1 where b: "box_frame Table_new m = Inr (m0, z)"
      and w: "map_walk va ls v1 (set_entry (fst v) (snd v) (Entry_new z (attr EA_V)) m0) = Inr (m', v')"
      using Cons.prems(2) by auto
    note o = box_frame_ok[OF Cons.prems(1) b]
    have "free_pages (alc m) = free_pages (alc m0) + 1" by (rule owns_count_upd[OF Cons.prems(1) o(2,1)])
    moreover have "alc (set_entry (fst v) (snd v) (Entry_new z (attr EA_V)) m0) = alc m0" by (simp add: set_entry_def)
    ultimately show ?thesis using w o(2) by (metis order.refl)
  qed
  then obtain m1 v1 M1 where m1: "map_walk va ls v1 m1 = Inr (m', v')" "owns (alc m1) M1"
    "free_pages (alc m) \<le> free_pages (alc m1) + 1" by blast
  from Cons.IH[OF m1(2,1)] m1(3) show ?case by auto
qed

lemma map_addr_free:
  assumes "owns (alc m) M" "map_addr r va pa f 0 m = Inr m'"
  shows "free_pages (alc m) \<le> free_pages (alc m') + 2"
proof -
  from assms(2) obtain m1 v where w: "map_walk va (rev [0..<2]) (r, unat (vpn2 va)) m = Inr (m1, v)"
    and "alc m' = alc m1"
    by (auto simp: map_addr_def set_entry_def)
  then show ?thesis using map_walk_free[OF assms(1) w] by auto
qed

lemma tables_range:
  assumes "aspace r m M" "t \<in> tables (mem m) r"
  shows "t = r \<or> base_addr (alc m) \<le> t"
proof -
  obtain p where p: "path 2 p" "tb (mem m) r p = Some t" using assms(2) by (auto simp: tables_def)
  show ?thesis
  proof (cases "p = []")
    case True
    then show ?thesis using p(2) by simp
  next
    case False
    then have "M t = Some 1" using assms(1) p by (auto simp: aspace_def)
    then show ?thesis using owned_above_base assms(1) by (auto simp: aspace_def)
  qed
qed

lemma map_two_spaces:
  assumes a: "aspace u m M" "aspace k m M" and d: "tables (mem m) u \<inter> tables (mem m) k = {}"
    and "2 \<le> free_pages (alc m)" "page_aligned va" "page_aligned pa" "page_flags f"
  obtains m' M' where "map_addr u va pa f 0 m = Inr m'" "aspace u m' M'" "aspace k m' M'"
    "tables (mem m') u \<inter> tables (mem m') k = {}" "free_pages (alc m) \<le> free_pages (alc m') + 2"
    "lookup (mem m') u = (lookup (mem m) u)(vpath va \<mapsto> Entry_new pa (f OR attr EA_V))"
    "lookup (mem m') k = lookup (mem m) k" "base_addr (alc m') = base_addr (alc m)"
proof -
  obtain m' M' where m': "map_addr u va pa f 0 m = Inr m'" "aspace u m' M'" "extends u m M m' M'"
    "lookup (mem m') u = (lookup (mem m) u)(vpath va \<mapsto> Entry_new pa (f OR attr EA_V))"
    using pt.map_law[OF a(1) reserve_two[OF assms(4)] order.refl assms(6,5,7)] by blast
  note e = mapping_elsewhere[OF a(2,1) _ m'(2,3)]
  have "tables (mem m) k \<inter> tables (mem m) u = {}" using d by auto
  from e[OF this] show ?thesis
    using that[OF m'(1,2)] m'(3,4) map_addr_free[OF _ m'(1)] a(1) by (auto simp: aspace_def extends_def Int_commute)
qed

text \<open>Address spaces do not interfere: mapping a page in one of two address spaces with disjoint
  tables leaves every table and every mapping of the other as it was, and the tables stay
  disjoint.
\<close>

theorem address_spaces_independent:
  assumes "aspace u m M" "aspace k m M" "tables (mem m) u \<inter> tables (mem m) k = {}"
    and "page_aligned pa" "page_aligned va" "page_flags f" "map_addr k va pa f 0 m = Inr m'"
  shows "\<exists>M'. aspace u m' M' \<and> aspace k m' M' \<and> lookup (mem m') u = lookup (mem m) u \<and>
    tables (mem m') u = tables (mem m) u \<and> tables (mem m') u \<inter> tables (mem m') k = {} \<and>
    (\<forall>t\<in>tables (mem m) u. mem m' t = mem m t)"
proof -
  obtain M' where M': "aspace k m' M'" "extends k m M m' M'"
    using map_addr_ok[OF assms(2,4-6)] assms(7) by auto
  note e = mapping_elsewhere[OF assms(1-3) M']
  have "mem m' t = mem m t" if "t \<in> tables (mem m) u" for t
    using that e(3,4) M'(2) by (auto simp: extends_def)
  then show ?thesis using e M'(1) by blast
qed

lemma two_spaces_mem0:
  "aspace 0x80001000 mem0 Map.empty" "tables (mem mem0) 0x80000000 \<inter> tables (mem mem0) 0x80001000 = {}"
proof -
  show "aspace 0x80001000 mem0 Map.empty"
    using owns_example
    by (auto simp: aspace_def mem0_def root_ok_def tree_ok_def levels_ok_def is_bit tb_Table_new Table_new_def split: if_splits)
  have "tables (mem mem0) r = {r}" for r
    by (auto simp: tables_def mem0_def tb_Table_new Table_new_def split: if_splits intro: exI[of _ "[]"])
  then show "tables (mem mem0) 0x80000000 \<inter> tables (mem mem0) 0x80001000 = {}" by simp
qed

theorem address_spaces_independent_witness:
  "\<exists>m'. map_addr 0x80000000 0x1000 0x80200000 (attr EA_URX) 0 mem0 = Inr m' \<and>
     lookup (mem m') 0x80001000 = lookup (mem mem0) 0x80001000 \<and> lookup (mem m') 0x80000000 \<noteq> lookup (mem mem0) 0x80000000"
proof -
  obtain m' where m': "map_addr 0x80000000 0x1000 0x80200000 (attr EA_URX) 0 mem0 = Inr m'"
    "lookup (mem m') 0x80000000 = (lookup (mem mem0) 0x80000000)(vpath 0x1000 \<mapsto> Entry_new 0x80200000 (attr EA_URX OR attr EA_V))"
    using map_mem0 by blast
  have al: "page_aligned 0x80200000" "page_aligned 0x1000" by (simp_all add: page_aligned_unat)
  have d: "tables (mem mem0) 0x80001000 \<inter> tables (mem mem0) 0x80000000 = {}" using two_spaces_mem0(2) by auto
  have "lookup (mem m') 0x80001000 = lookup (mem mem0) 0x80001000"
    using address_spaces_independent[OF two_spaces_mem0(1) aspace_mem0 d al page_flags_attr(5) m'(1)] by blast
  moreover have "lookup (mem mem0) 0x80000000 (vpath 0x1000) = None"
    by (simp add: lookup_def mem0_def tb_Table_new Table_new_def is_bit vpath_def)
  ultimately show ?thesis using m' by (intro exI[of _ m']) (auto simp: fun_eq_iff)
qed

end
