(* ===== verification/Asm.thy ===== *)
theory Asm
  imports AddrSpace
begin

text \<open>
  The assembly of the kernel (\<open>kernel/src/asm\<close>): a machine with the instructions the files use,
  the five routines as lists of instructions, and what they do to registers and memory.
  Virtual addresses are translated by the page table that \<open>satp\<close> names, also while a routine
  changes \<open>satp\<close>.
\<close>

section \<open>Definitions\<close>

datatype csr = C_satp | C_sscratch | C_mscratch | C_sip | C_mhartid

datatype privilege = PrvM | PrvS

datatype access = Load | Store | Fetch

record machine =
  xr :: "nat \<Rightarrow> usize"
  csrs :: "csr \<Rightarrow> usize"
  pm :: cells
  prv :: privilege
  pc :: usize

definition getr :: "nat \<Rightarrow> machine \<Rightarrow> usize" where
  "getr r s = (if r = 0 then 0 else xr s r)"

definition setr :: "nat \<Rightarrow> usize \<Rightarrow> machine \<Rightarrow> machine" where
  "setr r v s = (if r = 0 then s else s\<lparr>xr := (xr s)(r := v)\<rparr>)"

text \<open>
  Translation in supervisor mode: \<open>satp\<close> mode 0 is bare, mode 8 is Sv39; user pages are not
  accessible, and the access needs its permission bit.
\<close>

primrec allows :: "access \<Rightarrow> Entry \<Rightarrow> bool" where
  "allows Load e = bit e 1"
| "allows Store e = bit e 2"
| "allows Fetch e = bit e 3"

definition satp_root :: "usize \<Rightarrow> usize" where
  "satp_root s = push_bit 12 (take_bit 44 s)"

definition xlat :: "access \<Rightarrow> machine \<Rightarrow> usize \<Rightarrow> usize option" where
  "xlat a s va =
     (if prv s = PrvM \<or> drop_bit 60 (csrs s C_satp) = 0 then Some va
      else if drop_bit 60 (csrs s C_satp) = 8 \<and> signed_take_bit 38 va = va then
        case sv39_translate (pm s) (satp_root (csrs s C_satp)) va of
          None \<Rightarrow> None
        | Some (pa, e) \<Rightarrow> if allows a e \<and> \<not> bit e 4 then Some pa else None
      else None)"

text \<open>The eight-byte cell at a physical address; the routines only make aligned accesses.\<close>

definition cell_frame :: "usize \<Rightarrow> usize" where
  "cell_frame pa = pa AND NOT 0xfff"

definition cell_index :: "usize \<Rightarrow> nat" where
  "cell_index pa = unat (pa AND 0xfff) div 8"

definition load_cell :: "machine \<Rightarrow> usize \<Rightarrow> usize option" where
  "load_cell s va =
     (if va AND 7 \<noteq> 0 then None else
      case xlat Load s va of None \<Rightarrow> None | Some pa \<Rightarrow> Some (pm s (cell_frame pa) (cell_index pa)))"

definition store_cell :: "usize \<Rightarrow> usize \<Rightarrow> machine \<Rightarrow> machine option" where
  "store_cell va v s =
     (if va AND 7 \<noteq> 0 then None else
      case xlat Store s va of None \<Rightarrow> None
      | Some pa \<Rightarrow> Some (s\<lparr>pm := upd_cell (cell_frame pa) (cell_index pa) v (pm s)\<rparr>))"

datatype instr =
    SD nat usize nat
  | LD nat usize nat
  | MV nat nat
  | LI nat usize
  | ADDI nat nat usize
  | ADD nat nat nat
  | MUL nat nat nat
  | CSRRW nat csr nat
  | CSRR nat csr
  | CSRW csr nat
  | SFENCE_VMA
  | JR nat
  | CALL usize
  | BGEU nat nat nat
  | BLTU nat nat nat

text \<open>
  One instruction; \<open>None\<close> is an exception. \<open>SD r off b\<close> is \<open>sd r, off(b)\<close>. The two branches
  are handled by the interpreter of whole programs below.
\<close>

primrec step :: "instr \<Rightarrow> machine \<Rightarrow> machine option" where
  "step (SD r off b) s = store_cell (getr b s + off) (getr r s) s"
| "step (LD r off b) s =
     (case load_cell s (getr b s + off) of None \<Rightarrow> None | Some v \<Rightarrow> Some (setr r v s))"
| "step (MV d r) s = Some (setr d (getr r s) s)"
| "step (LI d v) s = Some (setr d v s)"
| "step (ADDI d r v) s = Some (setr d (getr r s + v) s)"
| "step (ADD d r q) s = Some (setr d (getr r s + getr q s) s)"
| "step (MUL d r q) s = Some (setr d (getr r s * getr q s) s)"
| "step (CSRRW d c r) s = Some (setr d (csrs s c) (s\<lparr>csrs := (csrs s)(c := getr r s)\<rparr>))"
| "step (CSRR d c) s = Some (setr d (csrs s c) s)"
| "step (CSRW c r) s = Some (s\<lparr>csrs := (csrs s)(c := getr r s)\<rparr>)"
| "step SFENCE_VMA s = Some s"
| "step (JR r) s = Some (s\<lparr>pc := getr r s\<rparr>)"
| "step (CALL f) s = Some (s\<lparr>pc := f\<rparr>)"
| "step (BGEU r q l) s = None"
| "step (BLTU r q l) s = None"

text \<open>
  Straight-line code; \<open>F\<close> says whether the instruction can be fetched in the current state.
\<close>

primrec run :: "(machine \<Rightarrow> bool) \<Rightarrow> instr list \<Rightarrow> machine \<Rightarrow> machine option" where
  "run F [] s = Some s"
| "run F (i # is) s = (if F s then case step i s of None \<Rightarrow> None | Some s' \<Rightarrow> run F is s' else None)"

text \<open>
  Programs with branches: branch targets are positions in the list; the first argument
  bounds the number of instructions.
\<close>

primrec run_prog :: "nat \<Rightarrow> instr list \<Rightarrow> nat \<Rightarrow> machine \<Rightarrow> machine option" where
  "run_prog 0 p k s = None"
| "run_prog (Suc n) p k s =
     (if k = length p then Some s
      else if length p < k then None
      else case p ! k of
        BGEU r q l \<Rightarrow> run_prog n p (if getr q s \<le> getr r s then l else Suc k) s
      | BLTU r q l \<Rightarrow> run_prog n p (if getr r s < getr q s then l else Suc k) s
      | i \<Rightarrow> (case step i s of None \<Rightarrow> None | Some s' \<Rightarrow> run_prog n p (Suc k) s'))"

text \<open>
  Register numbers: ra 1, sp 2, gp 3, tp 4, t0 to t2 5 to 7, s0 and s1 8 and 9, a0 to a7 10 to 17,
  s2 to s11 18 to 27, t3 to t6 28 to 31. \<open>save_gp\<close> and \<open>load_gp\<close> are the macros of
  \<open>macro.S\<close>, whose default base register is t6.
\<close>

definition REG_SIZE :: usize where
  "REG_SIZE = 8"

definition save_gp :: "nat \<Rightarrow> nat \<Rightarrow> instr" where
  "save_gp i basereg = SD i (of_nat i * REG_SIZE) basereg"

definition load_gp :: "nat \<Rightarrow> nat \<Rightarrow> instr" where
  "load_gp i basereg = LD i (of_nat i * REG_SIZE) basereg"

definition uservec :: "instr list" where
  "uservec =
     [CSRRW 31 C_sscratch 31] @
     map (\<lambda>i. save_gp i 31) [1..<31] @
     [MV 30 31,
      CSRR 31 C_sscratch,
      save_gp 31 30,
      LD 2 520 30,
      LD 4 528 30,
      LD 5 536 30,
      LD 6 512 30,
      CSRW C_satp 6,
      SFENCE_VMA,
      JR 5]"

text \<open>\<open>sret\<close>, the last instruction of \<open>userret\<close>, leaves the kernel.\<close>

definition userret :: "instr list" where
  "userret =
     [CSRW C_satp 11,
      SFENCE_VMA,
      CSRW C_sscratch 10,
      MV 31 10] @
     map (\<lambda>i. load_gp i 31) [1..<32]"

text \<open>
  The registers in the order in which \<open>kernelvec\<close> saves them; it does not restore tp, the
  fourth.
\<close>

definition kernelvec_regs :: "nat list" where
  "kernelvec_regs = [1, 2, 3, 4, 5, 6, 7, 8, 9, 10, 11, 12, 13, 14, 15, 16, 17,
     18, 19, 20, 21, 22, 23, 24, 25, 26, 27, 28, 29, 30, 31]"

definition kernelvec_save :: "instr list" where
  "kernelvec_save = ADDI 2 2 (- 256) #
     map (\<lambda>(k, r). SD r (of_nat k * 8) 2) (enumerate 0 kernelvec_regs)"

definition kernelvec_restore :: "instr list" where
  "kernelvec_restore =
     map (\<lambda>(k, r). LD r (of_nat k * 8) 2) (filter (\<lambda>(k, r). r \<noteq> 4) (enumerate 0 kernelvec_regs)) @
     [ADDI 2 2 256]"

text \<open>\<open>kernelvec\<close>: save, call \<open>kerneltrap\<close>, restore; \<open>sret\<close> returns to the interrupted code.\<close>

definition kernelvec :: "(machine \<Rightarrow> bool) \<Rightarrow> (machine \<Rightarrow> machine option) \<Rightarrow> machine \<Rightarrow> machine option" where
  "kernelvec F kerneltrap s =
     (case run F kernelvec_save s of None \<Rightarrow> None | Some s1 \<Rightarrow>
      case kerneltrap s1 of None \<Rightarrow> None | Some s2 \<Rightarrow> run F kernelvec_restore s2)"

definition timervec :: "instr list" where
  "timervec =
     [CSRRW 10 C_mscratch 10,
      SD 11 0 10,
      SD 12 8 10,
      SD 13 16 10,
      LD 11 32 10,
      LD 12 40 10,
      LD 13 0 11,
      ADD 13 13 12,
      SD 13 0 11,
      LI 11 2,
      CSRW C_sip 11,
      LD 13 16 10,
      LD 12 8 10,
      LD 11 0 10,
      CSRRW 10 C_mscratch 10]"

text \<open>\<open>ra\<close>, \<open>sp\<close> and \<open>s0\<close> to \<open>s11\<close>, in the order of a context.\<close>

definition context_regs :: "nat list" where
  "context_regs = [1, 2, 8, 9, 18, 19, 20, 21, 22, 23, 24, 25, 26, 27]"

definition swtch_asm :: "instr list" where
  "swtch_asm =
     map (\<lambda>(k, r). SD r (of_nat k * 8) 10) (enumerate 0 context_regs) @
     map (\<lambda>(k, r). LD r (of_nat k * 8) 11) (enumerate 0 context_regs) @
     [JR 1]"

text \<open>
  \<open>_start\<close> of \<open>boot.S\<close>: positions 3 and 6 are the labels 1 and 2; \<open>la\<close> loads an address
  chosen by the linker.
\<close>

definition boot :: "linker \<Rightarrow> usize \<Rightarrow> instr list" where
  "boot l kinit =
     [LI 10 (BSS_START l),
      LI 11 (BSS_END l),
      BGEU 10 11 6,
      SD 0 0 10,
      ADDI 10 10 8,
      BLTU 10 11 3,
      LI 2 (KERNEL_STACK_START l),
      LI 10 0x10000,
      CSRR 11 C_mhartid,
      ADDI 11 11 1,
      MUL 10 10 11,
      ADD 2 2 10,
      CALL kinit]"

text \<open>
  A translation that holds whatever the frames in \<open>W\<close> contain, so that a routine that only
  stores into those frames keeps it.
\<close>

definition mapped :: "access \<Rightarrow> machine \<Rightarrow> usize set \<Rightarrow> usize \<Rightarrow> usize \<Rightarrow> bool" where
  "mapped a s W va pa \<longleftrightarrow> (\<forall>c. (\<forall>f. f \<notin> W \<longrightarrow> c f = pm s f) \<longrightarrow> xlat a (s\<lparr>pm := c\<rparr>) va = Some pa)"

definition same_view :: "usize set \<Rightarrow> machine \<Rightarrow> machine \<Rightarrow> bool" where
  "same_view W s s' \<longleftrightarrow> prv s' = prv s \<and> csrs s' C_satp = csrs s C_satp \<and> (\<forall>f. f \<notin> W \<longrightarrow> pm s' f = pm s f)"

definition fetch_at :: "usize \<Rightarrow> usize \<Rightarrow> machine \<Rightarrow> bool" where
  "fetch_at va pa s \<longleftrightarrow> xlat Fetch s va = Some pa"

definition cellv :: "cells \<Rightarrow> usize \<Rightarrow> usize" where
  "cellv c pa = c (cell_frame pa) (cell_index pa)"

text \<open>
  \<open>n\<close> cells at a virtual address, mapped to consecutive cells of memory.
\<close>

definition area :: "access \<Rightarrow> machine \<Rightarrow> usize set \<Rightarrow> usize \<Rightarrow> usize \<Rightarrow> nat \<Rightarrow> bool" where
  "area a s W va pa n \<longleftrightarrow> va AND 7 = 0 \<and> pa AND 7 = 0 \<and>
     (\<forall>k<n. mapped a s W (va + of_nat k * 8) (pa + of_nat k * 8))"

text \<open>What a call \<open>__swtch(cur, nxt)\<close> needs: two contexts that do not overlap.\<close>

definition swtch_call :: "usize \<Rightarrow> usize set \<Rightarrow> usize \<Rightarrow> usize \<Rightarrow> machine \<Rightarrow> bool" where
  "swtch_call cv W cur nxt s \<longleftrightarrow> xr s 10 = cur \<and> xr s 11 = nxt \<and> mapped Fetch s W cv cv \<and>
     area Store s W cur cur 14 \<and> area Load s W nxt nxt 14 \<and>
     (\<forall>j<14. cell_frame (cur + of_nat j * 8) \<in> W) \<and>
     (\<forall>j<14. \<forall>k<14. cur + of_nat j * 8 \<noteq> nxt + of_nat k * 8)"

definition with_satp :: "usize \<Rightarrow> machine \<Rightarrow> machine" where
  "with_satp v s = s\<lparr>csrs := (csrs s)(C_satp := v)\<rparr>"

text \<open>
  The trampoline page is executable at its address, and the trap frame \<open>tf\<close> is mapped.
\<close>

definition tramp_view :: "machine \<Rightarrow> usize \<Rightarrow> usize \<Rightarrow> bool" where
  "tramp_view s tf tx \<longleftrightarrow> mapped Fetch s {tf} TRAMPOLINE_START tx"

definition user_view :: "machine \<Rightarrow> usize \<Rightarrow> usize \<Rightarrow> bool" where
  "user_view s tf tx \<longleftrightarrow> tramp_view s tf tx \<and> page_aligned tf \<and>
     area Store s {tf} TRAPFRAME_START tf 69 \<and> area Load s {tf} TRAPFRAME_START tf 69"

text \<open>
  What \<open>kernelvec\<close> relies on: \<open>kerneltrap\<close> returns with the stack pointer, the page tables (the
  frames outside \<open>W\<close>) and the saved registers as it found them.
\<close>

definition handler_ok :: "usize set \<Rightarrow> usize \<Rightarrow> (machine \<Rightarrow> machine option) \<Rightarrow> bool" where
  "handler_ok W sp K \<longleftrightarrow> (\<forall>t. xr t 2 = sp \<longrightarrow> (\<exists>t'. K t = Some t' \<and> xr t' 2 = sp \<and> same_view W t t' \<and>
     (\<forall>k<31. cellv (pm t') (sp + of_nat k * 8) = cellv (pm t) (sp + of_nat k * 8))))"

definition wr_cell :: "cells \<Rightarrow> usize \<Rightarrow> usize \<Rightarrow> cells" where
  "wr_cell c pa v = upd_cell (cell_frame pa) (cell_index pa) v c"

text \<open>
  A process in user mode: its page table \<open>u\<close> and the kernel's \<open>k\<close> both map the trampoline, \<open>u\<close> maps the
  trap frame, and the frame itself is not a table.
\<close>

definition trap_setup :: "usize \<Rightarrow> usize \<Rightarrow> usize \<Rightarrow> usize \<Rightarrow> kmem \<Rightarrow> bool" where
  "trap_setup u k tf tx m \<longleftrightarrow> (\<exists>M. aspace u m M \<and> aspace k m M) \<and>
     unat (base_addr (alc m)) + MAX_PAGE * 4096 \<le> 2 ^ 52 \<and> unat u < 2 ^ 52 \<and> unat k < 2 ^ 52 \<and>
     lookup (mem m) u (vpath TRAPFRAME_START) = Some (Entry_new tf (attr EA_RW OR attr EA_V)) \<and>
     lookup (mem m) u (vpath TRAMPOLINE_START) = Some (Entry_new tx (attr EA_RX OR attr EA_V)) \<and>
     lookup (mem m) k (vpath TRAMPOLINE_START) = Some (Entry_new tx (attr EA_RX OR attr EA_V)) \<and>
     page_aligned tf \<and> page_aligned tx \<and> unat tf < 2 ^ 56 \<and> unat tx < 2 ^ 56 \<and>
     tf \<notin> tables (mem m) u \<and> tf \<notin> tables (mem m) k"

section \<open>Registers and cells\<close>

lemma getr_simps [simp]:
  "getr r (s\<lparr>pm := c\<rparr>) = getr r s"
  "getr r (s\<lparr>csrs := g\<rparr>) = getr r s"
  "getr r (s\<lparr>pc := a\<rparr>) = getr r s"
  by (simp_all add: getr_def)

lemma getr_setr: "getr r (setr q v s) = (if r = q \<and> r \<noteq> 0 then v else getr r s)"
  by (simp add: getr_def setr_def)

lemma setr_fields [simp]:
  "csrs (setr r v s) = csrs s" "pm (setr r v s) = pm s" "prv (setr r v s) = prv s" "pc (setr r v s) = pc s"
  by (simp_all add: setr_def)

lemma xr_setr: "r \<noteq> 0 \<Longrightarrow> xr (setr r v s) = (xr s)(r := v)"
  by (simp add: setr_def)

lemma setr_xr: "setr r v s = s\<lparr>xr := xr (setr r v s)\<rparr>"
  by (simp add: setr_def)

lemma same_view_refl [simp]: "same_view W s s"
  by (simp add: same_view_def)

lemma same_view_trans: "same_view W s t \<Longrightarrow> same_view W t u \<Longrightarrow> same_view W s u"
  by (simp add: same_view_def)

lemma same_view_setr [simp]: "same_view W s (setr r v s)"
  by (simp add: same_view_def)

lemma xlat_cong:
  assumes "prv s' = prv s" "csrs s' C_satp = csrs s C_satp" "pm s' = pm s"
  shows "xlat a s' va = xlat a s va"
  using assms by (simp add: xlat_def)

lemma mapped_xlat:
  assumes "mapped a s W va pa" "same_view W s s'"
  shows "xlat a s' va = Some pa"
proof -
  have "xlat a (s\<lparr>pm := pm s'\<rparr>) va = Some pa" using assms by (simp add: mapped_def same_view_def)
  moreover have "xlat a s' va = xlat a (s\<lparr>pm := pm s'\<rparr>) va"
    using assms(2) by (intro xlat_cong) (simp_all add: same_view_def)
  ultimately show ?thesis by simp
qed

lemma mapped_view:
  assumes "mapped a s W va pa" "same_view W s s'"
  shows "mapped a s' W va pa"
  unfolding mapped_def
proof (intro allI impI)
  fix c assume "\<forall>f. f \<notin> W \<longrightarrow> c f = pm s' f"
  then have "same_view W s (s'\<lparr>pm := c\<rparr>)" using assms(2) by (auto simp: same_view_def)
  then show "xlat a (s'\<lparr>pm := c\<rparr>) va = Some pa" by (rule mapped_xlat[OF assms(1)])
qed

lemma fetch_view: "mapped Fetch s W va pa \<Longrightarrow> same_view W s s' \<Longrightarrow> fetch_at va pa s'"
  by (simp add: fetch_at_def mapped_xlat)

lemma run_append: "run F (p @ q) s = (case run F p s of None \<Rightarrow> None | Some s' \<Rightarrow> run F q s')"
  by (induction p arbitrary: s) (auto split: option.split)

section \<open>Runs of stores and of loads\<close>

lemma run_stores:
  assumes "mapped Fetch s W cv cp"
    and "\<And>k r. (k, r) \<in> set L \<Longrightarrow> (getr b s + off k) AND 7 = 0 \<and> mapped Store s W (getr b s + off k) (pa k) \<and>
      cell_frame (pa k) \<in> W"
    and "distinct (map fst L)" "inj_on (\<lambda>k. (cell_frame (pa k), cell_index (pa k))) (fst ` set L)"
  shows "\<exists>c. run (fetch_at cv cp) (map (\<lambda>(k, r). SD r (off k) b) L) s = Some (s\<lparr>pm := c\<rparr>) \<and>
    (\<forall>(k, r)\<in>set L. cellv c (pa k) = getr r s) \<and>
    (\<forall>f j. (\<forall>(k, r)\<in>set L. (cell_frame (pa k), cell_index (pa k)) \<noteq> (f, j)) \<longrightarrow> c f j = pm s f j)"
  using assms
proof (induction L arbitrary: s)
  case Nil
  then show ?case by (auto intro: exI[of _ "pm s"])
next
  case (Cons x L)
  obtain k r where x: "x = (k, r)" by fastforce
  let ?s1 = "s\<lparr>pm := upd_cell (cell_frame (pa k)) (cell_index (pa k)) (getr r s) (pm s)\<rparr>"
  have k: "(getr b s + off k) AND 7 = 0" "mapped Store s W (getr b s + off k) (pa k)" "cell_frame (pa k) \<in> W"
    using Cons.prems(2)[of k r] x by auto
  have st: "step (SD r (off k) b) s = Some ?s1"
    using k mapped_xlat[OF k(2) same_view_refl] by (simp add: store_cell_def)
  have v: "same_view W s ?s1" using k(3) by (auto simp: same_view_def upd_cell_def)
  have p: "mapped Fetch ?s1 W cv cp" "distinct (map fst L)"
    "inj_on (\<lambda>k. (cell_frame (pa k), cell_index (pa k))) (fst ` set L)"
    using mapped_view[OF Cons.prems(1) v] Cons.prems(3,4) x by (auto intro: inj_on_subset)
  have "\<exists>c. run (fetch_at cv cp) (map (\<lambda>(k, r). SD r (off k) b) L) ?s1 = Some (?s1\<lparr>pm := c\<rparr>) \<and>
    (\<forall>(k, r)\<in>set L. cellv c (pa k) = getr r ?s1) \<and>
    (\<forall>f j. (\<forall>(k, r)\<in>set L. (cell_frame (pa k), cell_index (pa k)) \<noteq> (f, j)) \<longrightarrow> c f j = pm ?s1 f j)"
  proof (rule Cons.IH[OF p(1) _ p(2,3)])
    fix k' r' assume "(k', r') \<in> set L"
    then show "(getr b ?s1 + off k') AND 7 = 0 \<and> mapped Store ?s1 W (getr b ?s1 + off k') (pa k') \<and> cell_frame (pa k') \<in> W"
      using Cons.prems(2)[of k' r'] mapped_view[OF _ v] by auto
  qed
  then obtain c where c: "run (fetch_at cv cp) (map (\<lambda>(k, r). SD r (off k) b) L) ?s1 = Some (?s1\<lparr>pm := c\<rparr>)"
    "\<forall>(k, r)\<in>set L. cellv c (pa k) = getr r s"
    "\<And>f j. (\<forall>(k, r)\<in>set L. (cell_frame (pa k), cell_index (pa k)) \<noteq> (f, j)) \<Longrightarrow> c f j = pm ?s1 f j"
    by auto
  have ne: "\<forall>(k', r')\<in>set L. (cell_frame (pa k'), cell_index (pa k')) \<noteq> (cell_frame (pa k), cell_index (pa k))"
  proof (clarify)
    fix k' r' assume a: "(k', r') \<in> set L" "cell_frame (pa k') = cell_frame (pa k)" "cell_index (pa k') = cell_index (pa k)"
    have "k' \<in> fst ` set (x # L)" "k \<in> fst ` set (x # L)" using a(1) x by (force, simp)
    then have "k' = k" using inj_onD[OF Cons.prems(4)] a(2,3) by blast
    then show False using Cons.prems(3) x a(1) by force
  qed
  have "cellv c (pa k) = getr r s"
    using c(3)[OF ne] by (simp add: cellv_def upd_cell_def)
  moreover have "c f j = pm s f j" if "\<forall>(k, r)\<in>set (x # L). (cell_frame (pa k), cell_index (pa k)) \<noteq> (f, j)" for f j
    using c(3)[of f j] that x by (auto simp: upd_cell_def)
  ultimately show ?case
    using c(1,2) st fetch_view[OF Cons.prems(1) same_view_refl] x by (intro exI[of _ c]) simp
qed

lemma run_loads:
  assumes "mapped Fetch s W cv cp"
    and "\<And>k r. (k, r) \<in> set L \<Longrightarrow> (getr b s + off k) AND 7 = 0 \<and> mapped Load s W (getr b s + off k) (pa k) \<and> r \<noteq> 0"
    and "\<And>k. (k, b) \<in> set (butlast L) \<Longrightarrow> cellv (pm s) (pa k) = getr b s" "distinct (map snd L)"
  shows "\<exists>x. run (fetch_at cv cp) (map (\<lambda>(k, r). LD r (off k) b) L) s = Some (s\<lparr>xr := x\<rparr>) \<and>
    (\<forall>(k, r)\<in>set L. x r = cellv (pm s) (pa k)) \<and> (\<forall>r. r \<notin> snd ` set L \<longrightarrow> x r = xr s r)"
  using assms
proof (induction L arbitrary: s)
  case Nil
  then show ?case by (auto intro: exI[of _ "xr s"])
next
  case (Cons y L)
  obtain k r where y: "y = (k, r)" by fastforce
  have k: "(getr b s + off k) AND 7 = 0" "mapped Load s W (getr b s + off k) (pa k)" "r \<noteq> 0"
    using Cons.prems(2)[of k r] y by auto
  let ?s1 = "setr r (cellv (pm s) (pa k)) s"
  have st: "step (LD r (off k) b) s = Some ?s1"
    using k(1) mapped_xlat[OF k(2) same_view_refl] by (simp add: load_cell_def cellv_def)
  have f: "fetch_at cv cp s" by (rule fetch_view[OF Cons.prems(1) same_view_refl])
  show ?case
  proof (cases "L = []")
    case True
    obtain x where x: "?s1 = s\<lparr>xr := x\<rparr>" "x r = cellv (pm s) (pa k)" "\<forall>q. q \<noteq> r \<longrightarrow> x q = xr s q"
      by (rule that[of "xr ?s1"]) (rule setr_xr, simp_all add: xr_setr k(3))
    then show ?thesis using st f y True by (intro exI[of _ x]) simp
  next
    case False
    have b: "getr b ?s1 = getr b s"
      using Cons.prems(3)[of k] False y by (auto simp: getr_setr)
    have "\<exists>x. run (fetch_at cv cp) (map (\<lambda>(k, r). LD r (off k) b) L) ?s1 = Some (?s1\<lparr>xr := x\<rparr>) \<and>
      (\<forall>(k, r)\<in>set L. x r = cellv (pm ?s1) (pa k)) \<and> (\<forall>r. r \<notin> snd ` set L \<longrightarrow> x r = xr ?s1 r)"
    proof (rule Cons.IH)
      show "mapped Fetch ?s1 W cv cp" by (rule mapped_view[OF Cons.prems(1) same_view_setr])
      fix k' r' assume "(k', r') \<in> set L"
      then show "(getr b ?s1 + off k') AND 7 = 0 \<and> mapped Load ?s1 W (getr b ?s1 + off k') (pa k') \<and> r' \<noteq> 0"
        using Cons.prems(2)[of k' r'] b by (auto intro: mapped_view[OF _ same_view_setr])
    next
      fix k' assume "(k', b) \<in> set (butlast L)"
      then show "cellv (pm ?s1) (pa k') = getr b ?s1" using Cons.prems(3)[of k'] False b by simp
    next
      show "distinct (map snd L)" using Cons.prems(4) by simp
    qed
    then obtain x where x: "run (fetch_at cv cp) (map (\<lambda>(k, r). LD r (off k) b) L) ?s1 = Some (?s1\<lparr>xr := x\<rparr>)"
      "\<forall>(k, r)\<in>set L. x r = cellv (pm s) (pa k)" "\<forall>r. r \<notin> snd ` set L \<longrightarrow> x r = xr ?s1 r"
      by auto
    have "x r = cellv (pm s) (pa k)" using x(3) Cons.prems(4) y k(3) by (simp add: xr_setr)
    moreover have "?s1\<lparr>xr := x\<rparr> = s\<lparr>xr := x\<rparr>" by (simp add: setr_def)
    moreover have "x q = xr s q" if "q \<notin> snd ` set (y # L)" for q
      using x(3) that y k(3) by (simp add: xr_setr)
    ultimately show ?thesis using x(1,2) st f y by (intro exI[of _ x]) simp
  qed
qed

section \<open>Cells at aligned addresses\<close>

lemma and_7: "(a :: usize) AND 7 = take_bit 3 a"
proof -
  have "(7 :: usize) = mask 3" by (simp add: mask_eq_exp_minus_1)
  then show ?thesis by (simp only: take_bit_eq_mask)
qed

lemma and_7_unat: "(a :: usize) AND 7 = 0 \<longleftrightarrow> 8 dvd unat a"
proof -
  have "unat (take_bit 3 a) = unat a mod 8" by (simp add: unat_mod take_bit_eq_mod)
  then show ?thesis by (metis and_7 dvd_eq_mod_eq_0 unsigned_eq_0_iff)
qed

lemma aligned_offset:
  assumes "(a :: usize) AND 7 = 0"
  shows "(a + of_nat k * 8) AND 7 = 0"
proof -
  have d: "(8 :: nat) dvd 2 ^ 64" by simp
  have "8 dvd unat (of_nat k * 8 :: usize)" using d by (simp add: unat_word_ariths dvd_mod)
  then have "8 dvd unat a + unat (of_nat k * 8 :: usize)" using assms by (simp add: and_7_unat)
  then have "8 dvd unat (a + of_nat k * 8)" unfolding unat_word_ariths(1)[of a "of_nat k * 8"] using d by (simp add: dvd_mod)
  then show ?thesis by (simp only: and_7_unat)
qed

lemma cell_inj:
  assumes "(a :: usize) AND 7 = 0" "b AND 7 = 0" "cell_frame a = cell_frame b" "cell_index a = cell_index b"
  shows "a = b"
proof -
  have lo: "unat (x AND 0xfff) mod 8 = 0" if "x AND 7 = 0" for x :: usize
  proof -
    have "(x AND 0xfff) AND 7 = 0" using that by (simp add: and.assoc)
    then show ?thesis by (simp only: and_7_unat dvd_eq_mod_eq_0)
  qed
  have "unat (a AND 0xfff) = unat (b AND 0xfff)"
    using lo[OF assms(1)] lo[OF assms(2)] assms(4) unfolding cell_index_def by (metis div_mult_mod_eq)
  then have "a AND 0xfff = b AND 0xfff" by (simp add: word_unat_eq_iff)
  moreover have "x = (x AND NOT 0xfff) OR (x AND 0xfff)" for x :: usize
    by (rule bit_word_eqI) (auto simp: bit_simps)
  ultimately show ?thesis using assms(3) unfolding cell_frame_def by metis
qed

lemma offset_inj:
  assumes "(a :: usize) + of_nat j * 8 = a + of_nat k * 8" "j < 2 ^ 60" "k < 2 ^ 60"
  shows "j = k"
proof -
  have "(of_nat j * 8 :: usize) = of_nat k * 8" by (rule add_left_imp_eq[OF assms(1)])
  then have "(of_nat (j * 8) :: usize) = of_nat (k * 8)" by (simp only: of_nat_mult of_nat_numeral)
  moreover have "j * 8 < 2 ^ LENGTH(64)" "k * 8 < 2 ^ LENGTH(64)" using assms(2,3) by simp_all
  ultimately have "j * 8 = k * 8" by (simp only: word_of_nat_eq_iff take_bit_nat_eq_self)
  then show ?thesis by simp
qed

lemma cells_inj_on:
  assumes "(a :: usize) AND 7 = 0" "\<forall>k\<in>K. k < 2 ^ 60"
  shows "inj_on (\<lambda>k. (cell_frame (a + of_nat k * 8), cell_index (a + of_nat k * 8))) K"
proof (rule inj_onI)
  fix j k assume jk: "j \<in> K" "k \<in> K"
    "(cell_frame (a + of_nat j * 8), cell_index (a + of_nat j * 8)) = (cell_frame (a + of_nat k * 8), cell_index (a + of_nat k * 8))"
  then have "cell_frame (a + of_nat j * 8) = cell_frame (a + of_nat k * 8)"
    "cell_index (a + of_nat j * 8) = cell_index (a + of_nat k * 8)"
    by (simp_all only: prod.inject)
  then have "a + of_nat j * 8 = a + of_nat k * 8"
    by (rule cell_inj[OF aligned_offset[OF assms(1)] aligned_offset[OF assms(1)]])
  moreover have "j < 2 ^ 60" "k < 2 ^ 60" using assms(2) jk(1,2) by blast+
  ultimately show "j = k" by (rule offset_inj)
qed

section \<open>Saving and loading an area\<close>

lemma save_area:
  assumes f: "mapped Fetch s W cv cp" and a: "area Store s W (getr b s) pa n" and L: "fst ` set L \<subseteq> {..<n}" "n \<le> 512"
    and W: "\<forall>j<n. cell_frame (pa + of_nat j * 8) \<in> W" and d: "distinct (map fst L)"
  obtains c where "run (fetch_at cv cp) (map (\<lambda>(k, r). SD r (of_nat k * 8) b) L) s = Some (s\<lparr>pm := c\<rparr>)"
    "\<And>k r. (k, r) \<in> set L \<Longrightarrow> cellv c (pa + of_nat k * 8) = getr r s"
    "\<And>q. q AND 7 = 0 \<Longrightarrow> (\<And>k. k < n \<Longrightarrow> k \<in> fst ` set L \<Longrightarrow> q \<noteq> pa + of_nat k * 8) \<Longrightarrow> cellv c q = cellv (pm s) q"
    "same_view W s (s\<lparr>pm := c\<rparr>)"
proof -
  have al: "getr b s AND 7 = 0" "pa AND 7 = 0" using a by (simp_all add: area_def)
  have "\<exists>c. run (fetch_at cv cp) (map (\<lambda>(k, r). SD r (of_nat k * 8) b) L) s = Some (s\<lparr>pm := c\<rparr>) \<and>
    (\<forall>(k, r)\<in>set L. cellv c (pa + of_nat k * 8) = getr r s) \<and>
    (\<forall>f j. (\<forall>(k, r)\<in>set L. (cell_frame (pa + of_nat k * 8), cell_index (pa + of_nat k * 8)) \<noteq> (f, j)) \<longrightarrow>
       c f j = pm s f j)"
  proof (rule run_stores[OF f])
    fix k r assume "(k, r) \<in> set L"
    then have "k < n" using L(1) by force
    then show "(getr b s + of_nat k * 8) AND 7 = 0 \<and>
      mapped Store s W (getr b s + of_nat k * 8) (pa + of_nat k * 8) \<and> cell_frame (pa + of_nat k * 8) \<in> W"
      using a W aligned_offset[OF al(1)] by (simp add: area_def)
  next
    show "distinct (map fst L)" by (rule d)
    show "inj_on (\<lambda>k. (cell_frame (pa + of_nat k * 8), cell_index (pa + of_nat k * 8))) (fst ` set L)"
      using L by (intro cells_inj_on[OF al(2)]) auto
  qed
  then obtain c where c: "run (fetch_at cv cp) (map (\<lambda>(k, r). SD r (of_nat k * 8) b) L) s = Some (s\<lparr>pm := c\<rparr>)"
    "\<forall>(k, r)\<in>set L. cellv c (pa + of_nat k * 8) = getr r s"
    "\<And>f j. (\<forall>(k, r)\<in>set L. (cell_frame (pa + of_nat k * 8), cell_index (pa + of_nat k * 8)) \<noteq> (f, j)) \<Longrightarrow>
       c f j = pm s f j"
    by blast
  show ?thesis
  proof (rule that[OF c(1)])
    show "cellv c (pa + of_nat k * 8) = getr r s" if "(k, r) \<in> set L" for k r using c(2) that by auto
    show "cellv c q = cellv (pm s) q" if q: "q AND 7 = 0" "\<And>k. k < n \<Longrightarrow> k \<in> fst ` set L \<Longrightarrow> q \<noteq> pa + of_nat k * 8" for q
      unfolding cellv_def
    proof (rule c(3), clarify)
      fix k r assume k: "(k, r) \<in> set L" "cell_frame (pa + of_nat k * 8) = cell_frame q"
        "cell_index (pa + of_nat k * 8) = cell_index q"
      then have "q = pa + of_nat k * 8" using cell_inj[OF q(1) aligned_offset[OF al(2)]] by simp
      moreover have "k < n" "k \<in> fst ` set L" using k(1) L(1) by force+
      ultimately show False using q(2) by blast
    qed
    show "same_view W s (s\<lparr>pm := c\<rparr>)"
      unfolding same_view_def
    proof (simp, intro allI impI ext)
      fix f j assume f: "f \<notin> W"
      show "c f j = pm s f j"
      proof (rule c(3), clarify)
        fix k r assume "(k, r) \<in> set L" "f = cell_frame (pa + of_nat k * 8)"
        moreover from this have "k < n" using L(1) by force
        ultimately show False using W f by blast
      qed
    qed
  qed
qed

lemma load_area:
  assumes f: "mapped Fetch s W cv cp" and a: "area Load s W (getr b s) pa n" and L: "fst ` set L \<subseteq> {..<n}"
    and "\<And>k. (k, b) \<in> set (butlast L) \<Longrightarrow> cellv (pm s) (pa + of_nat k * 8) = getr b s"
    and "distinct (map snd L)" "0 \<notin> snd ` set L"
  obtains x where "run (fetch_at cv cp) (map (\<lambda>(k, r). LD r (of_nat k * 8) b) L) s = Some (s\<lparr>xr := x\<rparr>)"
    "\<And>k r. (k, r) \<in> set L \<Longrightarrow> x r = cellv (pm s) (pa + of_nat k * 8)"
    "\<And>r. r \<notin> snd ` set L \<Longrightarrow> x r = xr s r"
proof -
  have "\<exists>x. run (fetch_at cv cp) (map (\<lambda>(k, r). LD r (of_nat k * 8) b) L) s = Some (s\<lparr>xr := x\<rparr>) \<and>
    (\<forall>(k, r)\<in>set L. x r = cellv (pm s) (pa + of_nat k * 8)) \<and> (\<forall>r. r \<notin> snd ` set L \<longrightarrow> x r = xr s r)"
  proof (rule run_loads[OF f])
    fix k r assume kr: "(k, r) \<in> set L"
    then have "k < n" using L by force
    moreover have "r \<noteq> 0" using assms(6) kr by force
    ultimately show "(getr b s + of_nat k * 8) AND 7 = 0 \<and>
      mapped Load s W (getr b s + of_nat k * 8) (pa + of_nat k * 8) \<and> r \<noteq> 0"
      using a by (simp add: area_def aligned_offset)
  qed (use assms in auto)
  then show ?thesis using that by fast
qed

lemma area_view: "area a s W va pa n \<Longrightarrow> same_view W s s' \<Longrightarrow> area a s' W va pa n"
  by (auto simp: area_def intro: mapped_view)

section \<open>Switching contexts\<close>

lemma context_regs_facts:
  "length context_regs = 14" "distinct context_regs" "0 \<notin> set context_regs" "10 \<notin> set context_regs" "11 \<notin> set context_regs"
  "context_regs ! 0 = 1" "1 \<in> set context_regs"
  by (simp_all add: context_regs_def)

lemma enumerate_facts:
  "map fst (enumerate 0 xs) = [0..<length xs]" "map snd (enumerate 0 xs) = xs"
  "(k, r) \<in> set (enumerate 0 xs) \<longleftrightarrow> k < length xs \<and> r = xs ! k"
  by (simp_all add: enumerate_eq_zip) (auto simp: in_set_zip intro!: exI[of _ k])

lemma swtch_effect:
  assumes "swtch_call cv W cur nxt s"
  obtains s' where "run (fetch_at cv cv) swtch_asm s = Some s'"
    "\<And>k. k < 14 \<Longrightarrow> cellv (pm s') (cur + of_nat k * 8) = xr s (context_regs ! k)"
    "\<And>k. k < 14 \<Longrightarrow> xr s' (context_regs ! k) = cellv (pm s) (nxt + of_nat k * 8)"
    "\<And>r. r \<notin> set context_regs \<Longrightarrow> xr s' r = xr s r"
    "\<And>pa. pa AND 7 = 0 \<Longrightarrow> (\<forall>k<14. pa \<noteq> cur + of_nat k * 8) \<Longrightarrow> cellv (pm s') pa = cellv (pm s) pa"
    "pc s' = cellv (pm s) nxt" "csrs s' = csrs s" "prv s' = prv s"
proof -
  note c = assms[unfolded swtch_call_def]
  let ?L = "enumerate 0 context_regs"
  have L: "fst ` set ?L \<subseteq> {..<14}" "distinct (map fst ?L)" "distinct (map snd ?L)" "snd ` set ?L = set context_regs"
    using context_regs_facts by (auto simp: enumerate_facts simp flip: set_map)
  have b: "getr 10 s = cur" "getr 11 s = nxt" using c by (simp_all add: getr_def)
  obtain m where m: "run (fetch_at cv cv) (map (\<lambda>(k, r). SD r (of_nat k * 8) 10) ?L) s = Some (s\<lparr>pm := m\<rparr>)"
    "\<And>k r. (k, r) \<in> set ?L \<Longrightarrow> cellv m (cur + of_nat k * 8) = getr r s"
    "\<And>pa. pa AND 7 = 0 \<Longrightarrow> (\<forall>k<14. pa \<noteq> cur + of_nat k * 8) \<Longrightarrow> cellv m pa = cellv (pm s) pa"
    "same_view W s (s\<lparr>pm := m\<rparr>)"
    by (rule save_area[of s W cv cv 10 cur 14 ?L]) (use c L b in auto)
  let ?s1 = "s\<lparr>pm := m\<rparr>"
  have f: "mapped Fetch ?s1 W cv cv" "area Load ?s1 W nxt nxt 14"
    using c by (auto intro: mapped_view[OF _ m(4)] area_view[OF _ m(4)])
  obtain x where x: "run (fetch_at cv cv) (map (\<lambda>(k, r). LD r (of_nat k * 8) 11) ?L) ?s1 = Some (?s1\<lparr>xr := x\<rparr>)"
    "\<And>k r. (k, r) \<in> set ?L \<Longrightarrow> x r = cellv m (nxt + of_nat k * 8)"
    "\<And>r. r \<notin> snd ` set ?L \<Longrightarrow> x r = xr s r"
  proof (rule load_area[of ?s1 W cv cv 11 nxt 14 ?L])
    show "\<And>k. (k, 11) \<in> set (butlast ?L) \<Longrightarrow> cellv (pm ?s1) (nxt + of_nat k * 8) = getr 11 ?s1"
      using context_regs_facts(5) L(4) by (metis in_set_butlastD image_eqI snd_conv)
  qed (use f L b context_regs_facts in auto)
  have nx: "cellv m (nxt + of_nat k * 8) = cellv (pm s) (nxt + of_nat k * 8)" if "k < 14" for k
  proof (rule m(3))
    show "(nxt + of_nat k * 8) AND 7 = 0" using c by (simp add: area_def aligned_offset)
    have "\<forall>j<14. cur + of_nat j * 8 \<noteq> nxt + of_nat k * 8" using c that by blast
    then show "\<forall>j<14. nxt + of_nat k * 8 \<noteq> cur + of_nat j * 8" by metis
  qed
  let ?s2 = "?s1\<lparr>xr := x\<rparr>"
  have "fetch_at cv cv ?s2"
    by (rule fetch_view[OF f(1)]) (simp add: same_view_def)
  then have "run (fetch_at cv cv) swtch_asm s = Some (?s2\<lparr>pc := x 1\<rparr>)"
    using m(1) x(1) by (simp add: swtch_asm_def run_append getr_def)
  moreover have "x 1 = cellv (pm s) nxt"
    using x(2)[of 0 1] nx[of 0] context_regs_facts by (simp add: enumerate_facts)
  moreover have "cellv m (cur + of_nat k * 8) = xr s (context_regs ! k)" if "k < 14" for k
  proof -
    have "context_regs ! k \<in> set context_regs" using that context_regs_facts(1) by simp
    then have "context_regs ! k \<noteq> 0" using context_regs_facts(3) by metis
    then show ?thesis using m(2)[of k "context_regs ! k"] that context_regs_facts(1) by (simp add: enumerate_facts getr_def)
  qed
  moreover have "x (context_regs ! k) = cellv (pm s) (nxt + of_nat k * 8)" if "k < 14" for k
    using x(2)[of k "context_regs ! k"] nx[OF that] that context_regs_facts(1) by (simp add: enumerate_facts)
  ultimately show ?thesis
    using that[of "?s2\<lparr>pc := x 1\<rparr>"] m(3) x(3) L(4) by simp
qed

section \<open>The trampoline\<close>

lemma page_offset_bits:
  assumes "page_aligned f" "k < 512"
  shows "f OR of_nat k * 8 = f + of_nat k * 8" "(f + of_nat k * 8) AND NOT 0xfff = f"
    "(f + of_nat k * 8) AND 0xfff = of_nat k * 8" "unat (of_nat k * 8 :: usize) = k * 8"
proof -
  show k: "unat (of_nat k * 8 :: usize) = k * 8" using assms(2) by (simp add: unat_word_ariths unat_of_nat)
  have tk: "take_bit 12 (of_nat k * 8 :: usize) = of_nat k * 8"
    by (rule take_bit_small) (use k assms(2) in simp)
  have kb: "bit (of_nat k * 8 :: usize) n \<Longrightarrow> n < 12" for n using tk by (metis bit_take_bit_iff)
  have fb: "bit f n \<Longrightarrow> 12 \<le> n" for n using assms(1) by (simp add: page_aligned_bit)
  have no: "\<not> (bit f n \<and> bit (of_nat k * 8 :: usize) n)" for n using fb[of n] kb[of n] by linarith
  have "f AND of_nat k * 8 = 0"
    by (rule bit_word_eqI) (use no in \<open>auto simp: bit_simps\<close>)
  then show s: "f OR of_nat k * 8 = f + of_nat k * 8" by (simp add: disjunctive_add_eq_or)
  show "(f + of_nat k * 8) AND NOT 0xfff = f"
    unfolding s[symmetric] mask_nums by (rule bit_word_eqI) (use no fb kb in \<open>force simp: bit_simps\<close>)
  show "(f + of_nat k * 8) AND 0xfff = of_nat k * 8"
    unfolding s[symmetric] mask_nums by (rule bit_word_eqI) (use no fb kb in \<open>force simp: bit_simps\<close>)
qed

lemma cell_of_page:
  assumes "page_aligned f" "k < 512"
  shows "cell_frame (f + of_nat k * 8) = f" "cell_index (f + of_nat k * 8) = k"
  unfolding cell_frame_def cell_index_def page_offset_bits(2-4)[OF assms] by simp_all

lemma save_gp_list: "map (\<lambda>i. save_gp i b) ks = map (\<lambda>(k, r). SD r (of_nat k * 8) b) (map (\<lambda>i. (i, i)) ks)"
  by (simp add: save_gp_def REG_SIZE_def)

lemma load_gp_list: "map (\<lambda>i. load_gp i b) ks = map (\<lambda>(k, r). LD r (of_nat k * 8) b) (map (\<lambda>i. (i, i)) ks)"
  by (simp add: load_gp_def REG_SIZE_def)

lemma uservec_effect:
  assumes v: "user_view s tf tx" and sc: "csrs s C_sscratch = TRAPFRAME_START"
    and k: "tramp_view (with_satp (cellv (pm s) (tf + of_nat 64 * 8)) s) tf tx"
  obtains s' where "run (fetch_at TRAMPOLINE_START tx) uservec s = Some s'"
    "\<And>i. 1 \<le> i \<Longrightarrow> i < 32 \<Longrightarrow> cellv (pm s') (tf + of_nat i * 8) = xr s i"
    "\<And>q. q AND 7 = 0 \<Longrightarrow> (\<And>i. 1 \<le> i \<Longrightarrow> i < 32 \<Longrightarrow> q \<noteq> tf + of_nat i * 8) \<Longrightarrow> cellv (pm s') q = cellv (pm s) q"
    "\<And>f. f \<noteq> tf \<Longrightarrow> pm s' f = pm s f"
    "xr s' 2 = cellv (pm s) (tf + of_nat 65 * 8)" "xr s' 4 = cellv (pm s) (tf + of_nat 66 * 8)"
    "pc s' = cellv (pm s) (tf + of_nat 67 * 8)"
    "csrs s' C_satp = cellv (pm s) (tf + of_nat 64 * 8)" "prv s' = prv s"
proof -
  have uv: "mapped Fetch s {tf} TRAMPOLINE_START tx" "area Store s {tf} TRAPFRAME_START tf 69"
    "area Load s {tf} TRAPFRAME_START tf 69" "page_aligned tf"
    using v by (simp_all add: user_view_def tramp_view_def)
  have al: "tf AND 7 = 0" using uv(2) by (simp add: area_def)
  let ?F = "fetch_at TRAMPOLINE_START tx"
  have fr: "\<forall>j<69. cell_frame (tf + of_nat j * 8) \<in> {tf}" using cell_of_page(1)[OF uv(4)] by simp
  let ?s1 = "setr 31 TRAPFRAME_START (s\<lparr>csrs := (csrs s)(C_sscratch := xr s 31)\<rparr>)"
  have st1: "?F s" "step (CSRRW 31 C_sscratch 31) s = Some ?s1"
    using sc fetch_view[OF uv(1) same_view_refl] by (simp_all add: getr_def)
  have v1: "same_view {tf} s ?s1" by (simp add: same_view_def)
  have m1: "mapped Fetch ?s1 {tf} TRAMPOLINE_START tx" "area Store ?s1 {tf} TRAPFRAME_START tf 69"
    using mapped_view[OF uv(1) v1] area_view[OF uv(2) v1] by simp_all
  have b1: "getr 31 ?s1 = TRAPFRAME_START" by (simp add: getr_setr)
  let ?L = "map (\<lambda>i. (i, i)) [1..<31] :: (nat \<times> nat) list"
  obtain c1 where c1: "run ?F (map (\<lambda>(k, r). SD r (of_nat k * 8) 31) ?L) ?s1 = Some (?s1\<lparr>pm := c1\<rparr>)"
    "\<And>k r. (k, r) \<in> set ?L \<Longrightarrow> cellv c1 (tf + of_nat k * 8) = getr r ?s1"
    "\<And>q. q AND 7 = 0 \<Longrightarrow> (\<And>k. k < 69 \<Longrightarrow> k \<in> fst ` set ?L \<Longrightarrow> q \<noteq> tf + of_nat k * 8) \<Longrightarrow> cellv c1 q = cellv (pm s) q"
    "same_view {tf} ?s1 (?s1\<lparr>pm := c1\<rparr>)"
    by (rule save_area[of ?s1 "{tf}" TRAMPOLINE_START tx 31 tf 69 ?L])
      (use m1 b1 fr in \<open>auto simp: comp_def\<close>)
  let ?s2 = "?s1\<lparr>pm := c1\<rparr>"
  let ?s4 = "setr 31 (xr s 31) (setr 30 TRAPFRAME_START ?s2)"
  have v4: "same_view {tf} s ?s4"
    using same_view_trans[OF v1 c1(4)] by (simp add: same_view_def)
  have f2: "?F ?s2" "?F (setr 30 TRAPFRAME_START ?s2)"
    using same_view_trans[OF v1 c1(4)] by (auto simp: same_view_def intro!: fetch_view[OF uv(1)])
  have m4: "mapped Fetch ?s4 {tf} TRAMPOLINE_START tx" "area Store ?s4 {tf} TRAPFRAME_START tf 69"
    "area Load ?s4 {tf} TRAPFRAME_START tf 69"
    using mapped_view[OF uv(1) v4] area_view[OF uv(2) v4] area_view[OF uv(3) v4] by simp_all
  have b4: "getr 30 ?s4 = TRAPFRAME_START" "getr 31 ?s4 = xr s 31" by (simp_all add: getr_setr)
  obtain c2 where c2: "run ?F (map (\<lambda>(k, r). SD r (of_nat k * 8) 30) [(31, 31)]) ?s4 = Some (?s4\<lparr>pm := c2\<rparr>)"
    "\<And>k r. (k, r) \<in> set [(31, 31)] \<Longrightarrow> cellv c2 (tf + of_nat k * 8) = getr r ?s4"
    "\<And>q. q AND 7 = 0 \<Longrightarrow> (\<And>k. k < 69 \<Longrightarrow> k \<in> fst ` set [(31 :: nat, 31 :: nat)] \<Longrightarrow> q \<noteq> tf + of_nat k * 8) \<Longrightarrow> cellv c2 q = cellv (pm ?s4) q"
    "same_view {tf} ?s4 (?s4\<lparr>pm := c2\<rparr>)"
    by (rule save_area[of ?s4 "{tf}" TRAMPOLINE_START tx 30 tf 69 "[(31, 31)]"])
      (use m4 b4 fr in auto)
  let ?s5 = "?s4\<lparr>pm := c2\<rparr>"
  let ?K = "[(65, 2), (66, 4), (67, 5), (64, 6)] :: (nat \<times> nat) list"
  obtain x where x: "run ?F (map (\<lambda>(k, r). LD r (of_nat k * 8) 30) ?K) ?s5 = Some (?s5\<lparr>xr := x\<rparr>)"
    "\<And>k r. (k, r) \<in> set ?K \<Longrightarrow> x r = cellv (pm ?s5) (tf + of_nat k * 8)"
    "\<And>r. r \<notin> snd ` set ?K \<Longrightarrow> x r = xr ?s5 r"
    by (rule load_area[of ?s5 "{tf}" TRAMPOLINE_START tx 30 tf 69 ?K])
      (use mapped_view[OF m4(1) c2(4)] area_view[OF m4(3) c2(4)] b4 in auto)
  have hi: "cellv c2 (tf + of_nat k * 8) = cellv (pm s) (tf + of_nat k * 8)" if "32 \<le> k" "k < 69" for k
  proof -
    have ne: "tf + of_nat k * 8 \<noteq> tf + of_nat j * 8" if "j < 32" for j :: nat
    proof
      assume "tf + of_nat k * 8 = tf + of_nat j * 8"
      then have "k = j" by (rule offset_inj) (use \<open>k < 69\<close> that in simp_all)
      then show False using that \<open>32 \<le> k\<close> by simp
    qed
    have "cellv c2 (tf + of_nat k * 8) = cellv c1 (tf + of_nat k * 8)"
      using c2(3)[OF aligned_offset[OF al], of k] ne[of 31] by simp
    also have "\<dots> = cellv (pm s) (tf + of_nat k * 8)"
    proof (rule c1(3)[OF aligned_offset[OF al]])
      fix j assume "j \<in> fst ` set ?L"
      then have "j < 32" by auto
      then show "tf + of_nat k * 8 \<noteq> tf + of_nat j * 8" by (rule ne)
    qed
    finally show ?thesis .
  qed
  let ?s6 = "?s5\<lparr>xr := x\<rparr>"
  have xk: "x 2 = cellv (pm s) (tf + of_nat 65 * 8)" "x 4 = cellv (pm s) (tf + of_nat 66 * 8)"
    "x 5 = cellv (pm s) (tf + of_nat 67 * 8)" "x 6 = cellv (pm s) (tf + of_nat 64 * 8)"
    using x(2)[of 65 2] x(2)[of 66 4] x(2)[of 67 5] x(2)[of 64 6] hi[of 64] hi[of 65] hi[of 66] hi[of 67] by simp_all
  have v5: "same_view {tf} s ?s5" by (rule same_view_trans[OF v4 c2(4)])
  let ?s7 = "with_satp (x 6) ?s6"
  have f6: "?F ?s6" using v5 by (intro fetch_view[OF uv(1)]) (simp add: same_view_def)
  have "same_view {tf} (with_satp (x 6) s) ?s7" using v5 by (simp add: same_view_def with_satp_def)
  then have f7: "?F ?s7" using k unfolding xk(4)[symmetric] tramp_view_def by (rule fetch_view[rotated])
  have r3: "run ?F [LD 2 520 30, LD 4 528 30, LD 5 536 30, LD 6 512 30, CSRW C_satp 6, SFENCE_VMA, JR 5] ?s5 =
    Some (?s7\<lparr>pc := x 5\<rparr>)"
  proof -
    have "[LD 2 520 30, LD 4 528 30, LD 5 536 30, LD 6 512 30, CSRW C_satp 6, SFENCE_VMA, JR 5] =
      map (\<lambda>(k, r). LD r (of_nat k * 8) 30) ?K @ [CSRW C_satp 6, SFENCE_VMA, JR 5]" by simp
    then show ?thesis using x(1) f6 f7 by (simp only: run_append) (simp add: with_satp_def getr_def)
  qed
  have r2: "run ?F [MV 30 31, CSRR 31 C_sscratch, save_gp 31 30] ?s2 = Some ?s5"
  proof -
    have "save_gp 31 30 = SD 31 (of_nat 31 * 8) 30" by (simp add: save_gp_def REG_SIZE_def)
    then show ?thesis using c2(1) f2 b1 by (simp add: getr_setr)
  qed
  have us: "uservec = [CSRRW 31 C_sscratch 31] @ map (\<lambda>(k, r). SD r (of_nat k * 8) 31) ?L @
    [MV 30 31, CSRR 31 C_sscratch, save_gp 31 30] @
    [LD 2 520 30, LD 4 528 30, LD 5 536 30, LD 6 512 30, CSRW C_satp 6, SFENCE_VMA, JR 5]"
    unfolding uservec_def save_gp_list by simp
  have r1: "run ?F [CSRRW 31 C_sscratch 31] s = Some ?s1" using st1 by simp
  have r: "run ?F uservec s = Some (?s7\<lparr>pc := x 5\<rparr>)"
    unfolding us run_append r1 option.case c1(1) r2 by (rule r3)
  show ?thesis
  proof (rule that[OF r])
    fix i :: nat assume i: "1 \<le> i" "i < 32"
    show "cellv (pm (?s7\<lparr>pc := x 5\<rparr>)) (tf + of_nat i * 8) = xr s i"
    proof (cases "i = 31")
      case True
      then show ?thesis using c2(2)[of 31 31] b4(2) by (simp add: with_satp_def)
    next
      case False
      have "tf + of_nat i * 8 \<noteq> tf + of_nat 31 * 8"
      proof
        assume "tf + of_nat i * 8 = tf + of_nat 31 * 8"
        then have "i = 31" by (rule offset_inj) (use i in simp_all)
        then show False using False by simp
      qed
      then have "cellv c2 (tf + of_nat i * 8) = cellv c1 (tf + of_nat i * 8)"
        using c2(3)[OF aligned_offset[OF al], of i] by simp
      also have "\<dots> = getr i ?s1" using c1(2)[of i i] i False by (auto simp: image_iff)
      also have "\<dots> = xr s i" using i False by (simp add: getr_def setr_def)
      finally show ?thesis by (simp add: with_satp_def)
    qed
  next
    fix q assume q: "q AND 7 = 0" "\<And>i. 1 \<le> i \<Longrightarrow> i < 32 \<Longrightarrow> q \<noteq> tf + of_nat i * 8"
    have "cellv c2 q = cellv c1 q" using c2(3)[OF q(1)] q(2)[of 31] by simp
    also have "\<dots> = cellv (pm s) q"
    proof (rule c1(3)[OF q(1)])
      fix k assume "k \<in> fst ` set ?L"
      then have "1 \<le> k" "k < 32" by auto
      then show "q \<noteq> tf + of_nat k * 8" by (rule q(2))
    qed
    finally show "cellv (pm (?s7\<lparr>pc := x 5\<rparr>)) q = cellv (pm s) q" by (simp add: with_satp_def)
  next
    show "pm (?s7\<lparr>pc := x 5\<rparr>) f = pm s f" if "f \<noteq> tf" for f
      using v5 that by (simp add: same_view_def with_satp_def)
  qed (use xk in \<open>simp_all add: with_satp_def\<close>)
qed

lemma userret_effect:
  assumes a: "xr s 10 = TRAPFRAME_START" "xr s 11 = usatp" and k: "tramp_view s tf tx"
    and u: "user_view (with_satp usatp s) tf tx"
  obtains s' where "run (fetch_at TRAMPOLINE_START tx) userret s = Some s'"
    "\<And>i. 1 \<le> i \<Longrightarrow> i < 32 \<Longrightarrow> xr s' i = cellv (pm s) (tf + of_nat i * 8)"
    "pm s' = pm s" "csrs s' C_satp = usatp" "csrs s' C_sscratch = TRAPFRAME_START" "prv s' = prv s"
proof -
  let ?F = "fetch_at TRAMPOLINE_START tx"
  let ?s1 = "with_satp usatp s"
  let ?s2 = "setr 31 TRAPFRAME_START (?s1\<lparr>csrs := (csrs ?s1)(C_sscratch := TRAPFRAME_START)\<rparr>)"
  have uv: "mapped Fetch ?s1 {tf} TRAMPOLINE_START tx" "area Load ?s1 {tf} TRAPFRAME_START tf 69"
    using u by (simp_all add: user_view_def tramp_view_def)
  have v2: "same_view {tf} ?s1 ?s2" by (simp add: same_view_def)
  have f: "?F s" "?F ?s1" "?F (?s1\<lparr>csrs := (csrs ?s1)(C_sscratch := TRAPFRAME_START)\<rparr>)"
    using fetch_view[OF k[unfolded tramp_view_def] same_view_refl] fetch_view[OF uv(1) same_view_refl]
      fetch_view[OF uv(1), of "?s1\<lparr>csrs := (csrs ?s1)(C_sscratch := TRAPFRAME_START)\<rparr>"]
    by (simp_all add: same_view_def)
  have pre: "run ?F [CSRW C_satp 11, SFENCE_VMA, CSRW C_sscratch 10, MV 31 10] s = Some ?s2"
    using a f by (simp add: with_satp_def getr_def)
  let ?L = "map (\<lambda>i. (i, i)) [1..<32] :: (nat \<times> nat) list"
  have b: "getr 31 ?s2 = TRAPFRAME_START" by (simp add: getr_setr)
  have "[1..<32] = [1..<31] @ [31 :: nat]" using upt_Suc_append[of 1 31] by simp
  then have bl: "butlast ?L = map (\<lambda>i. (i, i)) [1..<31]" by (simp only: map_append list.map butlast_snoc)
  obtain x where x: "run ?F (map (\<lambda>(k, r). LD r (of_nat k * 8) 31) ?L) ?s2 = Some (?s2\<lparr>xr := x\<rparr>)"
    "\<And>k r. (k, r) \<in> set ?L \<Longrightarrow> x r = cellv (pm ?s2) (tf + of_nat k * 8)"
    "\<And>r. r \<notin> snd ` set ?L \<Longrightarrow> x r = xr ?s2 r"
  proof (rule load_area[of ?s2 "{tf}" TRAMPOLINE_START tx 31 tf 69 ?L])
    show "\<And>k. (k, 31) \<in> set (butlast ?L) \<Longrightarrow> cellv (pm ?s2) (tf + of_nat k * 8) = getr 31 ?s2"
      unfolding bl by auto
  qed (use mapped_view[OF uv(1) v2] area_view[OF uv(2) v2] b in \<open>auto simp: comp_def\<close>)
  have r: "run ?F userret s = Some (?s2\<lparr>xr := x\<rparr>)"
    using pre x(1) unfolding userret_def load_gp_list by (simp only: run_append option.case)
  show ?thesis
  proof (rule that[OF r])
    show "xr (?s2\<lparr>xr := x\<rparr>) i = cellv (pm s) (tf + of_nat i * 8)" if "1 \<le> i" "i < 32" for i
      using x(2)[of i i] that by (auto simp: with_satp_def image_iff)
  qed (simp_all add: with_satp_def)
qed

section \<open>Translations from an address space\<close>

lemma take_bit_12: "take_bit 12 (a :: usize) = a AND 0xfff"
  unfolding mask_nums by (rule take_bit_eq_mask)

lemma canonical_below:
  assumes "page_aligned va" "unat va < 2 ^ 38" "k < 512"
  shows "signed_take_bit 38 (va + of_nat k * 8) = va + of_nat k * 8"
proof -
  have "unat va mod 4096 = 0" using assms(1) by (simp add: page_aligned_unat)
  then have "unat va + 4096 \<le> 2 ^ 38" using assms(2) by (auto simp: mod_eq_0_iff_dvd elim!: dvdE)
  then have "unat va + unat (of_nat k * 8 :: usize) < 2 ^ 38"
    using page_offset_bits(4)[OF assms(1,3)] assms(3) by linarith
  then have u: "unat (va + of_nat k * 8) < 2 ^ 38" by (simp add: unat_word_ariths(1)[of va])
  have t: "take_bit 38 (va + of_nat k * 8) = va + of_nat k * 8" by (rule take_bit_small[OF u])
  then have "\<not> bit (va + of_nat k * 8) 38" by (metis bit_take_bit_iff less_irrefl)
  then show ?thesis using t by (simp add: signed_take_bit_eq_if_positive)
qed

lemma mapped_aspace:
  assumes a: "aspace r m M" and hi: "unat (base_addr (alc m)) + MAX_PAGE * 4096 \<le> 2 ^ 52"
    and l: "lookup (mem m) r (vpath va) = Some (Entry_new pa (attr p OR attr EA_V))"
    and p: "allows acc (attr p)" "is_r (attr p) \<or> is_x (attr p)" "is_w (attr p) \<longrightarrow> is_r (attr p)" "\<not> is_u (attr p)"
    and pa: "page_aligned pa" "unat pa < 2 ^ 56" and va: "page_aligned va" "unat va < 2 ^ 38" "k < 512"
    and s: "pm s = mem m" "prv s = PrvS" "build_satp 8 0 r = Inr (csrs s C_satp)" "unat r < 2 ^ 52"
    and W: "W \<inter> tables (mem m) r = {}"
  shows "mapped acc s W (va + of_nat k * 8) (pa + of_nat k * 8)"
  unfolding mapped_def
proof (intro allI impI)
  fix c assume c: "\<forall>f. f \<notin> W \<longrightarrow> c f = pm s f"
  let ?e = "Entry_new pa (attr p OR attr EA_V)" and ?x = "va + of_nat k * 8"
  have ct: "\<And>t. t \<in> tables (mem m) r \<Longrightarrow> c t = mem m t" using c W s(1) by auto
  have root: "drop_bit 60 (csrs s C_satp) = 8" "satp_root (csrs s C_satp) = r"
  proof -
    have "r mod PAGE_SIZE = 0" using s(3) by (auto simp: build_satp_def rif_def split: if_splits)
    then obtain v where "build_satp 8 0 r = Inr v" "drop_bit 60 v = 8" "push_bit 12 (take_bit 44 v) = r"
      using build_satp_parts[of 8 r 0] s(4) by auto
    then show "drop_bit 60 (csrs s C_satp) = 8" "satp_root (csrs s C_satp) = r" using s(3) by (simp_all add: satp_root_def)
  qed
  have "vpath ?x = vpath (?x AND NOT 0xfff)" by (rule vpath_page[symmetric])
  also have "\<dots> = vpath va" using page_offset_bits(2)[OF va(1,3)] by simp
  finally have vp: "vpath ?x = vpath va" .
  have sf: "small_flags (attr p OR attr EA_V)" by (rule small_flags_or[OF small_flags_attr small_flags_attr])
  have ep: "Entry_paddr ?e = pa" by (rule Entry_paddr_new[OF sf pa(1)])
  have eb: "j < 10 \<Longrightarrow> bit ?e j = (bit (attr p) j \<or> j = 0)" for j by (simp add: Entry_new_bit bit_simps attr_V_bit)
  have "sv39_translate (mem (m\<lparr>mem := c\<rparr>)) r ?x = Some (Entry_paddr ?e OR take_bit 12 ?x, ?e)"
  proof (rule sv39_translate_lookup[OF aspace_cong(1)[OF a ct]])
    show "unat (base_addr (alc (m\<lparr>mem := c\<rparr>))) + MAX_PAGE * 4096 \<le> 2 ^ 56" using hi by simp
    show "lookup (mem (m\<lparr>mem := c\<rparr>)) r (vpath ?x) = Some ?e" using l aspace_cong(2)[OF a ct] vp by simp
    show "bit ?e 1 \<or> bit ?e 3" "bit ?e 2 \<longrightarrow> bit ?e 1" using p(2,3) eb by (auto simp: is_bit)
    show "unat (Entry_paddr ?e) < 2 ^ 56" using ep pa(2) by simp
  qed
  then have tr: "sv39_translate c r ?x = Some (pa + of_nat k * 8, ?e)"
    using ep page_offset_bits(3)[OF va(1,3)] page_offset_bits(1)[OF pa(1) va(3)] by (simp add: take_bit_12)
  have al: "allows acc ?e" "\<not> bit ?e 4" using p(1,4) eb by (cases acc; auto simp: is_bit)+
  have "signed_take_bit 38 ?x = ?x" by (rule canonical_below[OF va])
  then show "xlat acc (s\<lparr>pm := c\<rparr>) ?x = Some (pa + of_nat k * 8)"
    using s(2) root tr al by (simp add: xlat_def)
qed

section \<open>Interrupts in the kernel\<close>

lemma kernelvec_regs_facts:
  "length kernelvec_regs = 31" "distinct kernelvec_regs" "set kernelvec_regs = {1..31}"
  "k < 31 \<Longrightarrow> kernelvec_regs ! k = Suc k"
proof -
  have e: "kernelvec_regs = [1..<32]" by (simp add: kernelvec_regs_def upt_rec)
  show "length kernelvec_regs = 31" "distinct kernelvec_regs" "set kernelvec_regs = {1..31}"
    "k < 31 \<Longrightarrow> kernelvec_regs ! k = Suc k"
    unfolding e by (simp_all add: atLeastLessThanSuc_atLeastAtMost[symmetric])
qed

lemma kernelvec_effect:
  assumes f: "mapped Fetch s W kv kp" and a: "area Store s W (xr s 2 - 256) (xr s 2 - 256) 31"
    "area Load s W (xr s 2 - 256) (xr s 2 - 256) 31" "\<forall>j<31. cell_frame (xr s 2 - 256 + of_nat j * 8) \<in> W"
    and K: "handler_ok W (xr s 2 - 256) K"
  obtains s1 s2 s3 where "kernelvec (fetch_at kv kp) K s = Some s3" "K s1 = Some s2"
    "\<And>r. 1 \<le> r \<Longrightarrow> r \<le> 31 \<Longrightarrow> r \<noteq> 4 \<Longrightarrow> xr s3 r = xr s r" "xr s3 4 = xr s2 4"
    "pm s3 = pm s2" "csrs s3 = csrs s2" "prv s3 = prv s2" "same_view W s s1"
proof -
  let ?sp = "xr s 2 - 256" and ?F = "fetch_at kv kp" and ?L = "enumerate 0 kernelvec_regs"
  let ?s0 = "setr 2 ?sp s"
  have L: "fst ` set ?L \<subseteq> {..<31}" "distinct (map fst ?L)" "distinct (map snd ?L)"
    using kernelvec_regs_facts by (auto simp: enumerate_facts)
  have b: "getr 2 ?s0 = ?sp" by (simp add: getr_setr)
  have v0: "same_view W s ?s0" by simp
  obtain c where c: "run ?F (map (\<lambda>(k, r). SD r (of_nat k * 8) 2) ?L) ?s0 = Some (?s0\<lparr>pm := c\<rparr>)"
    "\<And>k r. (k, r) \<in> set ?L \<Longrightarrow> cellv c (?sp + of_nat k * 8) = getr r ?s0"
    "\<And>q. q AND 7 = 0 \<Longrightarrow> (\<And>k. k < 31 \<Longrightarrow> k \<in> fst ` set ?L \<Longrightarrow> q \<noteq> ?sp + of_nat k * 8) \<Longrightarrow> cellv c q = cellv (pm ?s0) q"
    "same_view W ?s0 (?s0\<lparr>pm := c\<rparr>)"
    by (rule save_area[of ?s0 W kv kp 2 ?sp 31 ?L])
      (use mapped_view[OF f v0] area_view[OF a(1) v0] a(3) L b in auto)
  let ?s1 = "?s0\<lparr>pm := c\<rparr>"
  have sv: "run ?F kernelvec_save s = Some ?s1"
    using c(1) fetch_view[OF f same_view_refl] by (simp add: kernelvec_save_def getr_def)
  have v1: "same_view W s ?s1" by (rule same_view_trans[OF v0 c(4)])
  have "xr ?s1 2 = ?sp" by (simp add: xr_setr)
  then have "\<exists>t'. K ?s1 = Some t' \<and> xr t' 2 = ?sp \<and> same_view W ?s1 t' \<and>
      (\<forall>k<31. cellv (pm t') (?sp + of_nat k * 8) = cellv (pm ?s1) (?sp + of_nat k * 8))"
    by (rule K[unfolded handler_ok_def, rule_format])
  then obtain s2 where s2: "K ?s1 = Some s2" "xr s2 2 = ?sp" "same_view W ?s1 s2"
    "\<forall>k<31. cellv (pm s2) (?sp + of_nat k * 8) = cellv c (?sp + of_nat k * 8)"
    by auto
  have v2: "same_view W s s2" by (rule same_view_trans[OF v1 s2(3)])
  let ?M = "filter (\<lambda>(k, r). r \<noteq> 4) ?L"
  have b2: "getr 2 s2 = ?sp" using s2(2) by (simp add: getr_def)
  have val: "cellv (pm s2) (?sp + of_nat k * 8) = getr r ?s0" if "(k, r) \<in> set ?L" for k r
    using s2(4) c(2)[OF that] L(1) that by force
  obtain x where x: "run ?F (map (\<lambda>(k, r). LD r (of_nat k * 8) 2) ?M) s2 = Some (s2\<lparr>xr := x\<rparr>)"
    "\<And>k r. (k, r) \<in> set ?M \<Longrightarrow> x r = cellv (pm s2) (?sp + of_nat k * 8)"
    "\<And>r. r \<notin> snd ` set ?M \<Longrightarrow> x r = xr s2 r"
  proof (rule load_area[of s2 W kv kp 2 ?sp 31 ?M])
    show "cellv (pm s2) (?sp + of_nat k * 8) = getr 2 s2" if "(k, 2) \<in> set (butlast ?M)" for k
      using val[of k 2] in_set_butlastD[OF that] b b2 by simp
    show "distinct (map snd ?M)" by (rule distinct_map_filter[OF L(3)])
    show "0 \<notin> snd ` set ?M" using kernelvec_regs_facts(3,4) by (auto simp: enumerate_facts kernelvec_regs_facts(1))
  qed (use mapped_view[OF f v2] area_view[OF a(2) v2] L b2 in auto)
  have x2: "x r = getr r ?s0" if "1 \<le> r" "r \<le> 31" "r \<noteq> 4" for r
  proof -
    have m: "(r - 1, r) \<in> set ?M"
      using that kernelvec_regs_facts(1) kernelvec_regs_facts(4)[of "r - 1"] by (auto simp: enumerate_facts)
    then have "(r - 1, r) \<in> set ?L" by simp
    then show ?thesis using x(2)[OF m] val[of "r - 1" r] by simp
  qed
  have x4: "x 4 = xr s2 4" by (rule x(3)) auto
  let ?s3 = "setr 2 (x 2 + 256) (s2\<lparr>xr := x\<rparr>)"
  have "?F (s2\<lparr>xr := x\<rparr>)" using v2 by (intro fetch_view[OF f]) (simp add: same_view_def)
  then have "run ?F kernelvec_restore s2 = Some ?s3"
    using x(1) by (simp add: kernelvec_restore_def run_append getr_def)
  then have r: "kernelvec ?F K s = Some ?s3" using sv s2(1) by (simp add: kernelvec_def)
  show ?thesis
  proof (rule that[OF r s2(1)])
    show "xr ?s3 r = xr s r" if "1 \<le> r" "r \<le> 31" "r \<noteq> 4" for r
      using x2[OF that] b that by (cases "r = 2") (simp_all add: xr_setr getr_setr getr_def setr_def)
    show "xr ?s3 4 = xr s2 4" using x4 by (simp add: xr_setr)
  qed (use v1 in simp_all)
qed

section \<open>The machine-mode timer\<close>

lemma cellv_wr_cell:
  assumes "pa AND 7 = 0" "qa AND 7 = 0"
  shows "cellv (wr_cell c pa v) qa = (if pa = qa then v else cellv c qa)"
  using cell_inj[OF assms] by (auto simp: cellv_def wr_cell_def upd_cell_def)

lemma machine_mode:
  assumes "prv s = PrvM"
  shows "va AND 7 = 0 \<Longrightarrow> load_cell s va = Some (cellv (pm s) va)"
    "va AND 7 = 0 \<Longrightarrow> store_cell va v s = Some (s\<lparr>pm := wr_cell (pm s) va v\<rparr>)" "fetch_at kv kv s"
  using assms by (simp_all add: load_cell_def store_cell_def xlat_def cellv_def wr_cell_def fetch_at_def)

lemma timervec_effect:
  assumes m: "prv s = PrvM" and al: "csrs s C_mscratch = sc" "sc AND 7 = 0" "cmp AND 7 = 0"
    and sc: "cellv (pm s) (sc + 32) = cmp" "\<And>k. k < 6 \<Longrightarrow> cmp \<noteq> sc + of_nat k * 8"
  obtains s' where "run (fetch_at tv tv) timervec s = Some s'" "\<And>r. xr s' r = xr s r"
    "cellv (pm s') cmp = cellv (pm s) cmp + cellv (pm s) (sc + 40)"
    "csrs s' = (csrs s)(C_sip := 2)" "prv s' = PrvM" "pc s' = pc s"
    "\<And>q. q AND 7 = 0 \<Longrightarrow> q \<noteq> cmp \<Longrightarrow> (\<And>k. k < 3 \<Longrightarrow> q \<noteq> sc + of_nat k * 8) \<Longrightarrow> cellv (pm s') q = cellv (pm s) q"
proof -
  have as: "(sc + 8) AND 7 = 0" "(sc + 16) AND 7 = 0" "(sc + 32) AND 7 = 0" "(sc + 40) AND 7 = 0"
    using aligned_offset[OF al(2), of 1] aligned_offset[OF al(2), of 2] aligned_offset[OF al(2), of 4]
      aligned_offset[OF al(2), of 5] by simp_all
  have ne: "sc \<noteq> cmp" "sc + 8 \<noteq> cmp" "sc + 16 \<noteq> cmp" "sc + 32 \<noteq> cmp" "sc + 40 \<noteq> cmp"
    using sc(2)[of 0] sc(2)[of 1] sc(2)[of 2] sc(2)[of 4] sc(2)[of 5] by auto
  note al' = al(2,3) as
  have "\<exists>s'. run (fetch_at tv tv) timervec s = Some s' \<and> xr s' = xr s \<and>
    pm s' = wr_cell (wr_cell (wr_cell (wr_cell (pm s) sc (xr s 11)) (sc + 8) (xr s 12)) (sc + 16) (xr s 13)) cmp
      (cellv (pm s) cmp + cellv (pm s) (sc + 40)) \<and>
    csrs s' = (csrs s)(C_sip := 2) \<and> prv s' = PrvM \<and> pc s' = pc s"
    using m al(1) sc(1) ne
    by (simp add: timervec_def machine_mode getr_def setr_def al' cellv_wr_cell fun_eq_iff)
  then obtain s' where s': "run (fetch_at tv tv) timervec s = Some s'" "xr s' = xr s"
    "pm s' = wr_cell (wr_cell (wr_cell (wr_cell (pm s) sc (xr s 11)) (sc + 8) (xr s 12)) (sc + 16) (xr s 13)) cmp
      (cellv (pm s) cmp + cellv (pm s) (sc + 40))"
    "csrs s' = (csrs s)(C_sip := 2)" "prv s' = PrvM" "pc s' = pc s"
    by blast
  show ?thesis
  proof (rule that[OF s'(1)])
    show "cellv (pm s') cmp = cellv (pm s) cmp + cellv (pm s) (sc + 40)" by (simp add: s'(3) cellv_wr_cell al')
    show "cellv (pm s') q = cellv (pm s) q"
      if "q AND 7 = 0" "q \<noteq> cmp" "\<And>k. k < 3 \<Longrightarrow> q \<noteq> sc + of_nat k * 8" for q
      using that(1,2) that(3)[of 0] that(3)[of 1] that(3)[of 2] by (simp add: s'(3) cellv_wr_cell al')
  qed (use s' in simp_all)
qed

section \<open>Booting\<close>

lemma boot_loop:
  assumes "prv s = PrvM" "xr s 10 = a" "xr s 11 = e" "a AND 7 = 0" "unat a < unat e" "unat e < 2 ^ 63"
    "(unat e - unat a + 7) div 8 = n"
  shows "\<exists>s'. (\<forall>f. run_prog (3 * n + f) (boot l kinit) 3 s = run_prog f (boot l kinit) 6 s') \<and> prv s' = PrvM \<and>
    csrs s' = csrs s \<and>
    (\<forall>q. q AND 7 = 0 \<longrightarrow> cellv (pm s') q = (if unat a \<le> unat q \<and> unat q < unat e then 0 else cellv (pm s) q))"
  using assms
proof (induction n arbitrary: s a)
  case 0
  then show ?case by simp
next
  case (Suc n)
  let ?b = "boot l kinit"
  have b: "length ?b = 13" "?b ! 3 = SD 0 0 10" "?b ! 4 = ADDI 10 10 8" "?b ! 5 = BLTU 10 11 3"
    by (simp_all add: boot_def)
  let ?s2 = "setr 10 (a + 8) (s\<lparr>pm := wr_cell (pm s) a 0\<rparr>)"
  have "unat a + 8 < 2 ^ 64" using Suc.prems(5,6) by simp
  then have u: "unat (a + 8) = unat a + 8" by (simp add: unat_word_ariths(1)[of a])
  have run3: "run_prog (Suc (Suc (Suc f))) ?b 3 s = run_prog f ?b (if a + 8 < e then 3 else 6) ?s2" for f
    using Suc.prems(1-4) b by (simp add: machine_mode getr_def setr_def)
  have d: "8 dvd unat q" "8 dvd unat a" if "q AND 7 = 0" for q :: usize
    using that Suc.prems(4) by (simp_all only: and_7_unat)
  have cell: "cellv (wr_cell (pm s) a 0) q = (if q = a then 0 else cellv (pm s) q)" if "q AND 7 = 0" for q
    using cellv_wr_cell[OF Suc.prems(4) that] by auto
  show ?case
  proof (cases "a + 8 < e")
    case True
    then have lt: "unat (a + 8) < unat e" by (simp add: word_less_nat_alt)
    have "\<exists>s'. (\<forall>f. run_prog (3 * n + f) ?b 3 ?s2 = run_prog f ?b 6 s') \<and> prv s' = PrvM \<and> csrs s' = csrs ?s2 \<and>
      (\<forall>q. q AND 7 = 0 \<longrightarrow> cellv (pm s') q = (if unat (a + 8) \<le> unat q \<and> unat q < unat e then 0 else cellv (pm ?s2) q))"
    proof (rule Suc.IH)
      show "(a + 8) AND 7 = 0" using aligned_offset[OF Suc.prems(4), of 1] by simp
      show "(unat e - unat (a + 8) + 7) div 8 = n" using Suc.prems(7) lt u by simp
    qed (use Suc.prems lt in \<open>simp_all add: setr_def\<close>)
    then obtain s' where s': "\<And>f. run_prog (3 * n + f) ?b 3 ?s2 = run_prog f ?b 6 s'" "prv s' = PrvM" "csrs s' = csrs s"
      "\<And>q. q AND 7 = 0 \<Longrightarrow> cellv (pm s') q = (if unat (a + 8) \<le> unat q \<and> unat q < unat e then 0 else cellv (pm ?s2) q)"
      by auto
    have "run_prog (3 * Suc n + f) ?b 3 s = run_prog f ?b 6 s'" for f
    proof -
      have "3 * Suc n + f = Suc (Suc (Suc (3 * n + f)))" by simp
      then show ?thesis using True by (simp only: run3 s'(1) if_True)
    qed
    moreover have "cellv (pm s') q = (if unat a \<le> unat q \<and> unat q < unat e then 0 else cellv (pm s) q)" if q: "q AND 7 = 0" for q
    proof -
      have "unat a \<le> unat q \<longleftrightarrow> q = a \<or> unat (a + 8) \<le> unat q"
        using d[OF q] u unfolding word_unat_eq_iff by (auto elim!: dvdE)
      then show ?thesis using s'(4)[OF q] cell[OF q] Suc.prems(5) by auto
    qed
    ultimately show ?thesis using s'(2,3) by blast
  next
    case False
    then have ge: "unat e \<le> unat a + 8" using u by (simp add: word_less_nat_alt)
    then have "(unat e - unat a + 7) div 8 = 1" using Suc.prems(5) by auto
    then have n: "n = 0" using Suc.prems(7) by simp
    have "run_prog (3 * Suc n + f) ?b 3 s = run_prog f ?b 6 ?s2" for f
    proof -
      have "3 * Suc n + f = Suc (Suc (Suc f))" using n by simp
      then show ?thesis using False by (simp only: run3 if_False)
    qed
    moreover have "cellv (pm ?s2) q = (if unat a \<le> unat q \<and> unat q < unat e then 0 else cellv (pm s) q)" if q: "q AND 7 = 0" for q
    proof -
      have "unat a \<le> unat q \<and> unat q < unat e \<longleftrightarrow> q = a"
        using d[OF q] ge Suc.prems(5) unfolding word_unat_eq_iff by (auto elim!: dvdE)
      then show ?thesis using cell[OF q] by auto
    qed
    ultimately show ?thesis using Suc.prems(1) by (intro exI[of _ ?s2]) simp
  qed
qed

section \<open>Properties\<close>

lemma trap_views:
  assumes t: "trap_setup u k tf tx m" and s: "pm s = mem m" "prv s = PrvS"
  shows "build_satp 8 0 u = Inr (csrs s C_satp) \<Longrightarrow> user_view s tf tx"
    "build_satp 8 0 k = Inr (csrs s C_satp) \<Longrightarrow> tramp_view s tf tx"
proof -
  obtain M where M: "aspace u m M" "aspace k m M" using t by (auto simp: trap_setup_def)
  note T = t[unfolded trap_setup_def]
  have va: "page_aligned TRAPFRAME_START" "unat TRAPFRAME_START < 2 ^ 38" "page_aligned TRAMPOLINE_START" "unat TRAMPOLINE_START < 2 ^ 38"
    by (simp_all add: page_aligned_unat consts_simps)
  have rw: "allows Load (attr EA_RW)" "allows Store (attr EA_RW)" "is_r (attr EA_RW) \<or> is_x (attr EA_RW)"
    "is_w (attr EA_RW) \<longrightarrow> is_r (attr EA_RW)" "\<not> is_u (attr EA_RW)"
    and rx: "allows Fetch (attr EA_RX)" "is_r (attr EA_RX) \<or> is_x (attr EA_RX)"
    "is_w (attr EA_RX) \<longrightarrow> is_r (attr EA_RX)" "\<not> is_u (attr EA_RX)"
    by (simp_all add: attr.simps is_bit bit_simps)
  have al7: "TRAPFRAME_START AND 7 = 0" "tf AND 7 = 0"
    using T by (auto simp: and_7_unat page_aligned_unat consts_simps intro: dvd_trans[of 8 4096])
  show "user_view s tf tx" if u: "build_satp 8 0 u = Inr (csrs s C_satp)"
  proof -
    have W: "{tf} \<inter> tables (mem m) u = {}" "page_aligned tf" "page_aligned tx" "unat tf < 2 ^ 56" "unat tx < 2 ^ 56"
      "unat (base_addr (alc m)) + MAX_PAGE * 4096 \<le> 2 ^ 52" "unat u < 2 ^ 52"
      "lookup (mem m) u (vpath TRAPFRAME_START) = Some (Entry_new tf (attr EA_RW OR attr EA_V))"
      "lookup (mem m) u (vpath TRAMPOLINE_START) = Some (Entry_new tx (attr EA_RX OR attr EA_V))"
      using T by simp_all
    have ar: "area acc s {tf} TRAPFRAME_START tf 69" if "allows acc (attr EA_RW)" for acc
      unfolding area_def using al7
      by (auto intro!: mapped_aspace[OF M(1) W(6,8) that rw(3-5) W(2,4) va(1,2) _ s u W(7) W(1)])
    have "mapped Fetch s {tf} (TRAMPOLINE_START + of_nat 0 * 8) (tx + of_nat 0 * 8)"
      by (rule mapped_aspace[OF M(1) W(6,9) rx W(3,5) va(3,4) _ s u W(7) W(1)]) simp
    then show ?thesis using ar rw(1,2) W(2) by (simp add: user_view_def tramp_view_def)
  qed
  show "tramp_view s tf tx" if k: "build_satp 8 0 k = Inr (csrs s C_satp)"
  proof -
    have W: "{tf} \<inter> tables (mem m) k = {}" "page_aligned tx" "unat tx < 2 ^ 56"
      "unat (base_addr (alc m)) + MAX_PAGE * 4096 \<le> 2 ^ 52" "unat k < 2 ^ 52"
      "lookup (mem m) k (vpath TRAMPOLINE_START) = Some (Entry_new tx (attr EA_RX OR attr EA_V))"
      using T by simp_all
    have "mapped Fetch s {tf} (TRAMPOLINE_START + of_nat 0 * 8) (tx + of_nat 0 * 8)"
      by (rule mapped_aspace[OF M(2) W(4,6) rx W(2,3) va(3,4) _ s k W(5) W(1)]) simp
    then show ?thesis by (simp add: tramp_view_def)
  qed
qed

lemma trap_setup_kept:
  assumes t: "trap_setup u k tf tx m"
    and c: "\<And>f. f \<in> tables (mem m) u \<union> tables (mem m) k \<Longrightarrow> c f = mem m f"
  shows "trap_setup u k tf tx (m\<lparr>mem := c\<rparr>)"
proof -
  obtain M where M: "aspace u m M" "aspace k m M" using t by (auto simp: trap_setup_def)
  note u = aspace_cong[OF M(1)] and k = aspace_cong[OF M(2)]
  have tab: "tables c r = tables (mem m) r" if "\<And>f. f \<in> tables (mem m) r \<Longrightarrow> c f = mem m f" for r
    using tb_cong[of "[]" _ "mem m" r r c] that by (auto simp: tables_def)
  show ?thesis
    using t u(1)[of c] k(1)[of c] u(2)[of c] k(2)[of c] tab[of u] tab[of k] c by (auto simp: trap_setup_def)
qed


text \<open>A page table on top of another one, in the memory of the examples.\<close>

lemma trap_example:
  obtains m where "trap_setup 0x80000000 0x80001000 0x80010000 0x80011000 m"
proof -
  let ?u = "0x80000000 :: usize" and ?k = "0x80001000 :: usize"
  have f0: "6 \<le> free_pages (alc mem0)" by (simp add: free_mem0 MAX_PAGE_num)
  have va: "page_aligned TRAPFRAME_START" "page_aligned TRAMPOLINE_START" "page_aligned 0x80010000" "page_aligned 0x80011000"
    by (simp_all add: page_aligned_unat consts_simps)
  have pf: "page_flags (attr EA_RW)" "page_flags (attr EA_RX)" by (rule page_flags_attr)+
  obtain m1 M1 where m1: "aspace ?u m1 M1" "aspace ?k m1 M1" "tables (mem m1) ?u \<inter> tables (mem m1) ?k = {}"
    "4 \<le> free_pages (alc m1)"
    "lookup (mem m1) ?u = (lookup (mem mem0) ?u)(vpath TRAMPOLINE_START \<mapsto> Entry_new 0x80011000 (attr EA_RX OR attr EA_V))"
    "base_addr (alc m1) = base_addr (alc mem0)"
    by (rule map_two_spaces[OF aspace_mem0 two_spaces_mem0 _ va(2,4) pf(2)]) (use f0 in auto)
  obtain m2 M2 where m2: "aspace ?u m2 M2" "aspace ?k m2 M2" "tables (mem m2) ?u \<inter> tables (mem m2) ?k = {}"
    "2 \<le> free_pages (alc m2)"
    "lookup (mem m2) ?u = (lookup (mem m1) ?u)(vpath TRAPFRAME_START \<mapsto> Entry_new 0x80010000 (attr EA_RW OR attr EA_V))"
    "base_addr (alc m2) = base_addr (alc mem0)"
    by (rule map_two_spaces[OF m1(1-3) _ va(1,3) pf(1)]) (use m1(4,6) in auto)
  obtain m3 M3 where m3: "aspace ?k m3 M3" "aspace ?u m3 M3"
    "lookup (mem m3) ?k = (lookup (mem m2) ?k)(vpath TRAMPOLINE_START \<mapsto> Entry_new 0x80011000 (attr EA_RX OR attr EA_V))"
    "lookup (mem m3) ?u = lookup (mem m2) ?u" "base_addr (alc m3) = base_addr (alc mem0)"
    by (rule map_two_spaces[OF m2(2,1) _ _ va(2,4) pf(2)]) (use m2(3,4,6) in auto)
  have ne: "vpath TRAMPOLINE_START \<noteq> vpath TRAPFRAME_START"
    using vpath_inj[OF _ va(2,1)] by (auto simp: consts_simps)
  have b: "base_addr (alc m3) = 0x80100000" using m3(5) by (simp add: mem0_def)
  have "(0x80010000 :: usize) \<notin> tables (mem m3) r" if "r = ?u \<or> r = ?k" for r
    using tables_range[OF m3(1), of "0x80010000"] tables_range[OF m3(2), of "0x80010000"] that b by auto
  then have "trap_setup ?u ?k 0x80010000 0x80011000 m3"
    using m3 m2(5) m1(5) ne va b by (auto simp: trap_setup_def MAX_PAGE_num)
  then show ?thesis by (rule that)
qed


text \<open>C14: A context switch is a round trip. \<open>__swtch(cur, nxt)\<close> stores ra, sp and s0 to s11 in \<open>cur\<close>, loads
  them from \<open>nxt\<close> and returns to the loaded ra; a later switch to \<open>cur\<close>, on any hart and from any
  state in which \<open>cur\<close> still has its contents, restores the registers and returns to where the
  first caller was.
\<close>

theorem swtch_roundtrip:
  assumes "swtch_call cv W cur nxt s"
  shows "\<exists>s1. run (fetch_at cv cv) swtch_asm s = Some s1 \<and> pc s1 = cellv (pm s) nxt \<and>
    (\<forall>k<14. xr s1 (context_regs ! k) = cellv (pm s) (nxt + of_nat k * 8)) \<and>
    (\<forall>r. r \<notin> set context_regs \<longrightarrow> xr s1 r = xr s r) \<and> csrs s1 = csrs s \<and>
    (\<forall>t V other. swtch_call cv V other cur t \<longrightarrow> (\<forall>k<14. cellv (pm t) (cur + of_nat k * 8) = cellv (pm s1) (cur + of_nat k * 8)) \<longrightarrow>
       (\<exists>t1. run (fetch_at cv cv) swtch_asm t = Some t1 \<and> (\<forall>r\<in>set context_regs. xr t1 r = xr s r) \<and> pc t1 = xr s 1))"
proof -
  obtain s1 where s1: "run (fetch_at cv cv) swtch_asm s = Some s1"
    "\<And>k. k < 14 \<Longrightarrow> cellv (pm s1) (cur + of_nat k * 8) = xr s (context_regs ! k)"
    "\<And>k. k < 14 \<Longrightarrow> xr s1 (context_regs ! k) = cellv (pm s) (nxt + of_nat k * 8)"
    "\<And>r. r \<notin> set context_regs \<Longrightarrow> xr s1 r = xr s r" "pc s1 = cellv (pm s) nxt" "csrs s1 = csrs s"
    by (rule swtch_effect[OF assms]) simp
  have "\<exists>t1. run (fetch_at cv cv) swtch_asm t = Some t1 \<and> (\<forall>r\<in>set context_regs. xr t1 r = xr s r) \<and> pc t1 = xr s 1"
    if t: "swtch_call cv V other cur t" "\<forall>k<14. cellv (pm t) (cur + of_nat k * 8) = cellv (pm s1) (cur + of_nat k * 8)" for t V other
  proof -
    obtain t1 where t1: "run (fetch_at cv cv) swtch_asm t = Some t1"
      "\<And>k. k < 14 \<Longrightarrow> xr t1 (context_regs ! k) = cellv (pm t) (cur + of_nat k * 8)" "pc t1 = cellv (pm t) cur"
      by (rule swtch_effect[OF t(1)]) simp
    have "xr t1 r = xr s r" if "r \<in> set context_regs" for r
      using that t1(2) t(2) s1(2) context_regs_facts(1) by (auto simp: in_set_conv_nth)
    moreover have "pc t1 = xr s 1" using t1(3) t(2)[rule_format, of 0] s1(2)[of 0] context_regs_facts(6) by simp
    ultimately show ?thesis using t1(1) by blast
  qed
  then show ?thesis using s1 by (intro exI[of _ s1]) auto
qed


text \<open>C16: The machine-mode timer interrupt leaves all registers as they were, moves the compare
  register of its hart on by the interval, raises the supervisor software interrupt, and
  changes no other memory than its own save area.
\<close>

theorem timervec_rearms:
  assumes "prv s = PrvM" "csrs s C_mscratch = sc" "sc AND 7 = 0" "cmp AND 7 = 0"
    and "cellv (pm s) (sc + 32) = cmp" "\<forall>k<6. cmp \<noteq> sc + of_nat k * 8"
  shows "\<exists>s'. run (fetch_at tv tv) timervec s = Some s' \<and> xr s' = xr s \<and> csrs s' = (csrs s)(C_sip := 2) \<and>
    cellv (pm s') cmp = cellv (pm s) cmp + cellv (pm s) (sc + 40) \<and>
    (\<forall>q. q AND 7 = 0 \<longrightarrow> q \<noteq> cmp \<longrightarrow> (\<forall>k<3. q \<noteq> sc + of_nat k * 8) \<longrightarrow> cellv (pm s') q = cellv (pm s) q)"
proof -
  obtain s' where "run (fetch_at tv tv) timervec s = Some s'" "\<And>r. xr s' r = xr s r"
    "cellv (pm s') cmp = cellv (pm s) cmp + cellv (pm s) (sc + 40)" "csrs s' = (csrs s)(C_sip := 2)" "prv s' = PrvM" "pc s' = pc s"
    "\<And>q. q AND 7 = 0 \<Longrightarrow> q \<noteq> cmp \<Longrightarrow> (\<And>k. k < 3 \<Longrightarrow> q \<noteq> sc + of_nat k * 8) \<Longrightarrow> cellv (pm s') q = cellv (pm s) q"
    by (rule timervec_effect[OF assms(1-5)]) (use assms(6) in auto)
  then show ?thesis by (intro exI[of _ s']) (auto simp: fun_eq_iff)
qed

lemma run_prog_straight:
  assumes "run (\<lambda>_. True) q s = Some s'"
  shows "run_prog (length q + n) (p @ q @ r) (length p) s = run_prog n (p @ q @ r) (length p + length q) s'"
  using assms
proof (induction q arbitrary: p s)
  case Nil
  then show ?case by simp
next
  case (Cons i q)
  then obtain s1 where s1: "step i s = Some s1" "run (\<lambda>_. True) q s1 = Some s'" by (auto split: option.splits)
  have "run_prog (Suc m) (p @ i # q @ r) (length p) s = run_prog m (p @ i # q @ r) (Suc (length p)) s1" for m
    using s1(1) by (cases i) (auto simp: nth_append)
  then show ?case using Cons.IH[OF s1(2), of "p @ [i]"] by simp
qed

text \<open>C17: The boot code terminates, having cleared exactly the aligned cells that begin in \<open>.bss\<close> and having
  set the stack pointer to the top of the hart's own 64 KiB of the kernel stack area; it ends at
  \<open>kinit\<close>. Eleven steps plus three per cell are enough.
\<close>

theorem boot_clears_bss:
  assumes "prv s = PrvM" "BSS_START l AND 7 = 0" "BSS_START l \<le> BSS_END l" "unat (BSS_END l) < 2 ^ 63"
    and "csrs s C_mhartid = of_nat h" "h < NCPUS"
  shows "\<exists>s'. run_prog (11 + 3 * ((unat (BSS_END l) - unat (BSS_START l) + 7) div 8)) (boot l kinit) 0 s = Some s' \<and>
    pc s' = kinit \<and> xr s' 2 = KERNEL_STACK_START l + of_nat (Suc h) * 0x10000 \<and> csrs s' = csrs s \<and>
    (\<forall>q. q AND 7 = 0 \<longrightarrow> cellv (pm s') q = (if BSS_START l \<le> q \<and> q < BSS_END l then 0 else cellv (pm s) q))"
proof -
  let ?b = "boot l kinit" and ?n = "(unat (BSS_END l) - unat (BSS_START l) + 7) div 8"
  have b: "length ?b = 13" "?b ! 0 = LI 10 (BSS_START l)" "?b ! 1 = LI 11 (BSS_END l)" "?b ! 2 = BGEU 10 11 6"
    "?b ! 6 = LI 2 (KERNEL_STACK_START l)" "?b ! 7 = LI 10 0x10000" "?b ! 8 = CSRR 11 C_mhartid"
    "?b ! 9 = ADDI 11 11 1" "?b ! 10 = MUL 10 10 11" "?b ! 11 = ADD 2 2 10" "?b ! 12 = CALL kinit"
    by (simp_all add: boot_def)
  let ?s1 = "setr 11 (BSS_END l) (setr 10 (BSS_START l) s)"
  have start: "run_prog (Suc (Suc (Suc f))) ?b 0 s = run_prog f ?b (if BSS_END l \<le> BSS_START l then 6 else 3) ?s1" for f
    using b by (simp add: getr_setr numeral_2_eq_2 numeral_3_eq_3)
  have tail: "\<exists>s'. run_prog 8 ?b 6 t = Some s' \<and> pc s' = kinit \<and>
      xr s' 2 = KERNEL_STACK_START l + of_nat (Suc h) * 0x10000 \<and> csrs s' = csrs t \<and> pm s' = pm t"
    if "csrs t = csrs s" for t
  proof -
    let ?q = "[LI 2 (KERNEL_STACK_START l), LI 10 0x10000, CSRR 11 C_mhartid, ADDI 11 11 1, MUL 10 10 11, ADD 2 2 10, CALL kinit]"
    have "\<exists>s'. run (\<lambda>_. True) ?q t = Some s' \<and> pc s' = kinit \<and>
      xr s' 2 = KERNEL_STACK_START l + of_nat (Suc h) * 0x10000 \<and> csrs s' = csrs t \<and> pm s' = pm t"
      using that assms(5) by (simp add: getr_setr xr_setr algebra_simps)
    moreover have "run_prog 8 ?b 6 t = Some s'" if "run (\<lambda>_. True) ?q t = Some s'" for s'
    proof -
      have e: "take 6 ?b @ ?q @ [] = ?b" "length (take 6 ?b) = 6" "length ?q + 1 = 8" "6 + length ?q = 13"
        by (simp_all add: boot_def)
      have "run_prog 8 ?b 6 t = run_prog 1 ?b 13 s'"
        using run_prog_straight[OF that, of 1 "take 6 ?b" "[]"] by (simp only: e)
      also have "\<dots> = Some s'" using b(1) by simp
      finally show ?thesis .
    qed
    ultimately show ?thesis by blast
  qed
  show ?thesis
  proof (cases "BSS_START l = BSS_END l")
    case True
    then have "run_prog (11 + 3 * ?n) ?b 0 s = run_prog 8 ?b 6 ?s1"
      using start[of 8] by simp
    then show ?thesis using tail[of ?s1] True by auto
  next
    case False
    then have lt: "unat (BSS_START l) < unat (BSS_END l)" using assms(3) by (simp add: word_le_nat_alt word_unat_eq_iff)
    have "\<exists>s'. (\<forall>f. run_prog (3 * ?n + f) ?b 3 ?s1 = run_prog f ?b 6 s') \<and> prv s' = PrvM \<and> csrs s' = csrs ?s1 \<and>
      (\<forall>q. q AND 7 = 0 \<longrightarrow> cellv (pm s') q =
        (if unat (BSS_START l) \<le> unat q \<and> unat q < unat (BSS_END l) then 0 else cellv (pm ?s1) q))"
      by (rule boot_loop) (use assms lt in \<open>simp_all add: setr_def\<close>)
    then obtain s2 where s2: "\<And>f. run_prog (3 * ?n + f) ?b 3 ?s1 = run_prog f ?b 6 s2" "csrs s2 = csrs s"
      "\<And>q. q AND 7 = 0 \<Longrightarrow> cellv (pm s2) q =
        (if unat (BSS_START l) \<le> unat q \<and> unat q < unat (BSS_END l) then 0 else cellv (pm s) q)"
      by auto
    obtain s3 where s3: "run_prog 8 ?b 6 s2 = Some s3" "pc s3 = kinit"
      "xr s3 2 = KERNEL_STACK_START l + of_nat (Suc h) * 0x10000" "csrs s3 = csrs s2" "pm s3 = pm s2"
      using tail[OF s2(2)] by blast
    have "11 + 3 * ?n = Suc (Suc (Suc (3 * ?n + 8)))" by simp
    moreover have "\<not> BSS_END l \<le> BSS_START l" using lt by (simp add: word_le_nat_alt)
    ultimately have "run_prog (11 + 3 * ?n) ?b 0 s = Some s3" by (simp only: start if_False s2(1) s3(1))
    then show ?thesis using s3 s2 by (auto simp: word_le_nat_alt word_less_nat_alt)
  qed
qed

lemma mapped_bare: "csrs s C_satp = 0 \<Longrightarrow> mapped a s W va va"
  by (simp add: mapped_def xlat_def)

lemma area_bare: "csrs s C_satp = 0 \<Longrightarrow> va AND 7 = 0 \<Longrightarrow> area a s W va va n"
  by (simp add: area_def mapped_bare)

theorem swtch_roundtrip_witness:
  "\<exists>s s1 t t1. run (fetch_at 0 0) swtch_asm s = Some s1 \<and> xr s 1 = 0x80002222 \<and> pc s1 = 0x80001111 \<and>
     run (fetch_at 0 0) swtch_asm t = Some t1 \<and> pc t1 = 0x80002222"
proof -
  let ?s = "\<lparr>xr = (\<lambda>_. 7)(1 := 0x80002222, 10 := 0x80020000, 11 := 0x80020100), csrs = (\<lambda>_. 0),
    pm = upd_cell 0x80020000 32 0x80001111 (\<lambda>_ _. 0), prv = PrvS, pc = 0\<rparr>"
  have ne: "0x80020000 + of_nat j * 8 \<noteq> 0x80020100 + (of_nat k * 8 :: usize)" if "j < 14" "k < 14" for j k :: nat
  proof
    assume "0x80020000 + of_nat j * 8 = 0x80020100 + (of_nat k * 8 :: usize)"
    then have "0x80020000 + of_nat j * 8 = 0x80020000 + (of_nat (k + 32) * 8 :: usize)" by (simp add: algebra_simps)
    then have "j = k + 32" by (rule offset_inj) (use that in simp_all)
    then show False using that by simp
  qed
  then have c: "swtch_call 0 UNIV 0x80020000 0x80020100 ?s"
    by (simp add: swtch_call_def mapped_bare area_bare)
  obtain s1 where s1: "run (fetch_at 0 0) swtch_asm ?s = Some s1" "pc s1 = cellv (pm ?s) 0x80020100" "csrs s1 = csrs ?s"
    "\<And>t V other. swtch_call 0 V other 0x80020000 t \<Longrightarrow>
       \<forall>k<14. cellv (pm t) (0x80020000 + of_nat k * 8) = cellv (pm s1) (0x80020000 + of_nat k * 8) \<Longrightarrow>
       \<exists>t1. run (fetch_at 0 0) swtch_asm t = Some t1 \<and> (\<forall>r\<in>set context_regs. xr t1 r = xr ?s r) \<and> pc t1 = xr ?s 1"
    using swtch_roundtrip[OF c] by (elim exE conjE) (rule that, assumption+, blast)
  let ?t = "s1\<lparr>xr := (\<lambda>_. 0)(10 := 0x80020100, 11 := 0x80020000)\<rparr>"
  have "csrs ?t C_satp = 0" using s1(3) by simp
  then have "swtch_call 0 UNIV 0x80020100 0x80020000 ?t"
    using ne by (auto simp: swtch_call_def mapped_bare area_bare) (metis)
  then obtain t1 where "run (fetch_at 0 0) swtch_asm ?t = Some t1" "pc t1 = xr ?s 1" using s1(4)[of UNIV _ ?t] by auto
  then show ?thesis using s1(1,2)
    by (intro exI[of _ ?s] exI[of _ s1] exI[of _ ?t] exI[of _ t1])
      (simp add: cellv_def cell_frame_def cell_index_def upd_cell_def)
qed


theorem timervec_rearms_witness:
  "\<exists>s s'. run (fetch_at 0 0) timervec s = Some s' \<and> cellv (pm s) 0x2004000 = 500 \<and> cellv (pm s') 0x2004000 = 1000500 \<and>
     csrs s' C_sip = 2"
proof -
  let ?s = "\<lparr>xr = (\<lambda>_. 7), csrs = (\<lambda>_. 0)(C_mscratch := 0x80030000),
    pm = upd_cell 0x80030000 4 0x2004000 (upd_cell 0x80030000 5 1000000 (upd_cell 0x2004000 0 500 (\<lambda>_ _. 0))), prv = PrvM, pc = 0\<rparr>"
  have ne: "0x2004000 \<noteq> 0x80030000 + (of_nat k * 8 :: usize)" if "k < 6" for k :: nat
  proof
    assume "0x2004000 = 0x80030000 + (of_nat k * 8 :: usize)"
    then have "unat (0x2004000 :: usize) = unat (0x80030000 + (of_nat k * 8 :: usize))" by (rule arg_cong)
    then show False using that by (simp add: unat_word_ariths unat_of_nat)
  qed
  obtain s' where "run (fetch_at 0 0) timervec ?s = Some s'" "csrs s' = (csrs ?s)(C_sip := 2)"
    "cellv (pm s') 0x2004000 = cellv (pm ?s) 0x2004000 + cellv (pm ?s) (0x80030000 + 40)"
    using timervec_rearms[of ?s "0x80030000" "0x2004000" 0] ne
    by (auto simp: cellv_def cell_frame_def cell_index_def upd_cell_def)
  then show ?thesis by (intro exI[of _ ?s] exI[of _ s']) (simp add: cellv_def cell_frame_def cell_index_def upd_cell_def)
qed

theorem boot_clears_bss_witness:
  "\<exists>s s'. run_prog (11 + 3 * 1024) (boot example_linker 0x80000100) 0 s = Some s' \<and> pc s' = 0x80000100 \<and>
     xr s' 2 = 0x80048000 \<and> cellv (pm s) 0x80017ff8 = 1 \<and> cellv (pm s') 0x80017ff8 = 0 \<and> cellv (pm s') 0x80018000 = 1"
proof -
  let ?s = "\<lparr>xr = (\<lambda>_. 7), csrs = (\<lambda>_. 0)(C_mhartid := 2), pm = (\<lambda>_ _. 1), prv = PrvM, pc = 0\<rparr>"
  obtain s' where s': "run_prog (11 + 3 * 1024) (boot example_linker 0x80000100) 0 ?s = Some s'" "pc s' = 0x80000100"
    "xr s' 2 = 0x80048000"
    "\<forall>q. q AND 7 = 0 \<longrightarrow> cellv (pm s') q = (if 0x80016000 \<le> q \<and> q < 0x80018000 then 0 else cellv (pm ?s) q)"
    using boot_clears_bss[of ?s example_linker 2 "0x80000100"] by (auto simp: example_linker_def NCPUS_num)
  have "cellv (pm s') 0x80017ff8 = 0" "cellv (pm s') 0x80018000 = 1"
    using s'(4)[rule_format, of "0x80017ff8"] s'(4)[rule_format, of "0x80018000"] by (simp_all add: cellv_def)
  then show ?thesis using s' by (intro exI[of _ ?s] exI[of _ s']) (simp add: cellv_def)
qed

end
