(* ===== verification/UserMem.thy ===== *)
theory UserMem
  imports AddrSpace
begin

text \<open>
  The memory of a user process: the pages it can reach and what they hold. \<open>upages\<close> is the
  abstract state, a map from the indices of a page to its flags and contents; mapping a new
  page is an update of that map, and \<open>Table::clone\<close> makes an equal map out of new frames.
\<close>

section \<open>Definitions\<close>

definition upages :: "cells \<Rightarrow> usize \<Rightarrow> nat list \<rightharpoonup> usize \<times> (nat \<Rightarrow> usize)" where
  "upages c r p =
     (case lookup c r p of
        None \<Rightarrow> None
      | Some e \<Rightarrow> if is_u e then Some (Entry_flags e, c (Entry_paddr e)) else None)"

text \<open>
  An address space whose user pages are blocks of the allocator, not tables, and mapped once.
\<close>

definition uspace :: "usize \<Rightarrow> kmem \<Rightarrow> (usize \<rightharpoonup> nat) \<Rightarrow> bool" where
  "uspace r m M \<longleftrightarrow> aspace r m M \<and> (\<forall>p e. lookup (mem m) r p = Some e \<longrightarrow> is_u e \<longrightarrow>
     M (Entry_paddr e) = Some 1 \<and> Entry_paddr e \<notin> tables (mem m) r \<and>
     (\<forall>q e'. lookup (mem m) r q = Some e' \<longrightarrow> is_u e' \<longrightarrow> Entry_paddr e' = Entry_paddr e \<longrightarrow> q = p))"

text \<open>The frames of the user pages and the tables of an address space.\<close>

definition uframes :: "cells \<Rightarrow> usize \<Rightarrow> usize set" where
  "uframes c r = tables c r \<union> {Entry_paddr e |p e. lookup c r p = Some e \<and> is_u e}"

text \<open>An address no later allocation returns: an allocated block, or below the heap.\<close>

definition safe :: "usize \<Rightarrow> (usize \<rightharpoonup> nat) \<Rightarrow> usize \<Rightarrow> bool" where
  "safe b M x \<longleftrightarrow> x \<in> dom M \<or> unat x + 4096 \<le> unat b"

text \<open>
  What an operation may do to the rest of memory: blocks stay, and only free memory and the
  frames \<open>F\<close> are written; \<open>grows\<close>: only new blocks are written, and they are single pages.
\<close>

definition touches :: "usize set \<Rightarrow> kmem \<Rightarrow> (usize \<rightharpoonup> nat) \<Rightarrow> kmem \<Rightarrow> (usize \<rightharpoonup> nat) \<Rightarrow> bool" where
  "touches F m M m' M' \<longleftrightarrow> owns (alc m') M' \<and> M \<subseteq>\<^sub>m M' \<and> base_addr (alc m') = base_addr (alc m) \<and>
     (\<forall>x. safe (base_addr (alc m)) M x \<longrightarrow> x \<notin> F \<longrightarrow> mem m' x = mem m x)"

definition grows :: "kmem \<Rightarrow> (usize \<rightharpoonup> nat) \<Rightarrow> kmem \<Rightarrow> (usize \<rightharpoonup> nat) \<Rightarrow> bool" where
  "grows m M m' M' \<longleftrightarrow> touches {} m M m' M' \<and> (\<forall>x\<in>dom M' - dom M. M' x = Some 1) \<and>
     (\<forall>x. x \<notin> dom M' - dom M \<longrightarrow> mem m' x = mem m x)"

text \<open>What an operation on one address space may do: the others do not notice.\<close>

definition evolves :: "usize \<Rightarrow> kmem \<Rightarrow> (usize \<rightharpoonup> nat) \<Rightarrow> kmem \<Rightarrow> (usize \<rightharpoonup> nat) \<Rightarrow> bool" where
  "evolves r m M m' M' \<longleftrightarrow> uspace r m' M' \<and> touches (uframes (mem m) r) m M m' M' \<and>
     uframes (mem m') r \<subseteq> uframes (mem m) r \<union> (dom M' - dom M)"

text \<open>An address space in which only the entries of the pages \<open>P\<close> may have changed.\<close>

definition maps_only :: "usize \<Rightarrow> nat list set \<Rightarrow> kmem \<Rightarrow> kmem \<Rightarrow> bool" where
  "maps_only r P m m' \<longleftrightarrow> (\<forall>q. q \<notin> P \<longrightarrow> lookup (mem m') r q = lookup (mem m) r q)"

text \<open>
  The entries a clone copies, the tree of tables and pages below a table with \<open>k\<close> levels of
  entries, and that a tree is a copy of another one out of the frames \<open>S\<close>.
\<close>

definition cloned :: "Entry \<Rightarrow> bool" where
  "cloned v \<longleftrightarrow> is_v v \<and> (is_leaf v \<longrightarrow> is_u v)"

primrec source :: "usize \<Rightarrow> (usize \<rightharpoonup> nat) \<Rightarrow> cells \<Rightarrow> nat \<Rightarrow> usize \<Rightarrow> bool" where
  "source b M c 0 t \<longleftrightarrow> safe b M t"
| "source b M c (Suc k) t \<longleftrightarrow> safe b M t \<and> (\<forall>i<TABLE_ENTRY_CNT. is_v (c t i) \<longrightarrow>
     (is_leaf (c t i) \<longleftrightarrow> k = 0) \<and> (cloned (c t i) \<longrightarrow> Entry_paddr (c t i) \<noteq> 0 \<and> source b M c k (Entry_paddr (c t i))))"

primrec copied :: "cells \<Rightarrow> cells \<Rightarrow> nat \<Rightarrow> usize \<Rightarrow> usize \<Rightarrow> usize set \<Rightarrow> bool" where
  "copied c c' 0 t t' S \<longleftrightarrow> t' \<in> S \<and> page_aligned t' \<and> c' t' = c t"
| "copied c c' (Suc k) t t' S \<longleftrightarrow> t' \<in> S \<and> page_aligned t' \<and>
     (\<exists>P Q. (\<forall>i<TABLE_ENTRY_CNT. if cloned (c t i)
        then c' t' i = Entry_new (P i) (Entry_flags (c t i)) \<and> Q i \<subseteq> S - {t'} \<and> copied c c' k (Entry_paddr (c t i)) (P i) (Q i)
        else c' t' i = 0) \<and>
      (\<forall>i<TABLE_ENTRY_CNT. \<forall>j<TABLE_ENTRY_CNT. i \<noteq> j \<longrightarrow> Q i \<inter> Q j = {}))"

text \<open>
  The contract of an operation that clones a tree of \<open>k\<close> levels, in a memory that has the
  contents \<open>c\<close> on the blocks \<open>M0\<close>.
\<close>

definition clone_ok :: "usize \<Rightarrow> (usize \<rightharpoonup> nat) \<Rightarrow> cells \<Rightarrow> nat \<Rightarrow> (usize \<Rightarrow> kmem \<Rightarrow> (kmem \<times> usize) res) \<Rightarrow> bool" where
  "clone_ok b M0 c k g \<longleftrightarrow> (\<forall>t m M. owns (alc m) M \<longrightarrow> base_addr (alc m) = b \<longrightarrow> M0 \<subseteq>\<^sub>m M \<longrightarrow>
     source b M0 c k t \<longrightarrow> (\<forall>x. safe b M0 x \<longrightarrow> mem m x = c x) \<longrightarrow>
     (case g t m of
        Inl e \<Rightarrow> e \<in> alloc_panics
      | Inr (m', t') \<Rightarrow> \<exists>M'. grows m M m' M' \<and> copied c (mem m') k t t' (dom M' - dom M)))"

text \<open>One turn of the loop of \<open>clone_walk\<close> with the call for the subtree as a parameter, and its invariant.\<close>

definition clone_loop :: "(usize \<Rightarrow> kmem \<Rightarrow> (kmem \<times> usize) res) \<Rightarrow> usize \<Rightarrow> nat \<Rightarrow>
    kmem \<times> (nat \<Rightarrow> usize) \<Rightarrow> (kmem \<times> (nat \<Rightarrow> usize)) res" where
  "clone_loop g t i = (\<lambda>(m, pgtable). let v = mem m t i in
     if cloned v then rbind (g (Entry_paddr v) m) (\<lambda>(m', pg). Inr (m', pgtable(i := Entry_new pg (Entry_flags v))))
     else Inr (m, pgtable))"

definition clone_inv :: "cells \<Rightarrow> nat \<Rightarrow> usize \<Rightarrow> kmem \<Rightarrow> (usize \<rightharpoonup> nat) \<Rightarrow> nat \<Rightarrow> kmem \<times> (nat \<Rightarrow> usize) \<Rightarrow> bool" where
  "clone_inv c k t m M i = (\<lambda>(m', pgt). \<exists>M' P Q. grows m M m' M' \<and>
     (\<forall>j<i. if cloned (c t j)
        then pgt j = Entry_new (P j) (Entry_flags (c t j)) \<and> copied c (mem m') k (Entry_paddr (c t j)) (P j) (Q j)
        else pgt j = 0) \<and>
     (\<forall>j<i. Q j \<subseteq> dom M' - dom M) \<and> (\<forall>j\<ge>i. pgt j = 0) \<and> (\<forall>j<i. \<forall>j'<i. j \<noteq> j' \<longrightarrow> Q j \<inter> Q j' = {}))"

section \<open>New blocks\<close>

lemma touchesD:
  assumes "touches F m M m' M'"
  shows "owns (alc m') M'" "M \<subseteq>\<^sub>m M'" "base_addr (alc m') = base_addr (alc m)" "x \<in> dom M' - dom M \<Longrightarrow> base_addr (alc m) \<le> x"
    "safe (base_addr (alc m)) M x \<Longrightarrow> x \<notin> F \<Longrightarrow> mem m' x = mem m x" "dom M \<subseteq> dom M'"
proof -
  show "owns (alc m') M'" "M \<subseteq>\<^sub>m M'" "base_addr (alc m') = base_addr (alc m)"
    "safe (base_addr (alc m)) M x \<Longrightarrow> x \<notin> F \<Longrightarrow> mem m' x = mem m x" "dom M \<subseteq> dom M'"
    using assms map_le_implies_dom_le[of M M'] by (auto simp: touches_def)
  then show "x \<in> dom M' - dom M \<Longrightarrow> base_addr (alc m) \<le> x" using owned_above_base[of "alc m'" M' x] by auto
qed

lemma safe_old:
  assumes "safe (base_addr (alc m)) M x" "touches F m M m' M'"
  shows "x \<notin> dom M' - dom M"
proof
  assume x: "x \<in> dom M' - dom M"
  show False using touchesD(4)[OF assms(2) x] assms(1) x by (auto simp: safe_def word_le_nat_alt)
qed

lemma safe_mono: "safe b M x \<Longrightarrow> M \<subseteq>\<^sub>m M' \<Longrightarrow> safe b M' x"
  using map_le_implies_dom_le[of M M'] by (auto simp: safe_def)

lemma touches_refl: "owns (alc m) M \<Longrightarrow> touches F m M m M"
  by (simp add: touches_def)

lemma touches_trans:
  assumes "touches F m M m1 M1" "touches G m1 M1 m2 M2" "G \<subseteq> F \<union> (dom M1 - dom M)"
  shows "touches F m M m2 M2"
proof -
  note A = touchesD[OF assms(1)] and B = touchesD[OF assms(2)]
  have "mem m2 x = mem m x" if x: "safe (base_addr (alc m)) M x" "x \<notin> F" for x
  proof -
    have "x \<notin> G" using safe_old[OF x(1) assms(1)] x(2) assms(3) by blast
    then show ?thesis using A(5)[OF x] B(5)[of x] safe_mono[OF x(1) A(2)] A(3) by simp
  qed
  then show ?thesis using A B map_le_trans[OF A(2) B(2)] by (simp add: touches_def)
qed

lemma touches_mono: "touches F m M m' M' \<Longrightarrow> F \<subseteq> G \<Longrightarrow> touches G m M m' M'"
  by (auto simp: touches_def)

lemma grows_touches: "grows m M m' M' \<Longrightarrow> touches {} m M m' M'"
  by (simp add: grows_def)

lemma growsD:
  assumes "grows m M m' M'"
  shows "owns (alc m') M'" "M \<subseteq>\<^sub>m M'" "base_addr (alc m') = base_addr (alc m)" "x \<in> dom M' - dom M \<Longrightarrow> M' x = Some 1"
    "x \<notin> dom M' - dom M \<Longrightarrow> mem m' x = mem m x" "dom M \<subseteq> dom M'"
  using touchesD(1-3,6)[OF grows_touches[OF assms]] assms unfolding grows_def by blast+

lemma grows_refl: "owns (alc m) M \<Longrightarrow> grows m M m M"
  by (simp add: grows_def touches_refl)

lemma grows_trans:
  assumes "grows m M m1 M1" "grows m1 M1 m2 M2"
  shows "grows m M m2 M2"
proof -
  note A = growsD[OF assms(1)] and B = growsD[OF assms(2)]
  have "M2 x = Some 1" if "x \<in> dom M2 - dom M" for x
  proof (cases "x \<in> dom M1")
    case True
    then have "M1 x = Some 1" using A(4)[of x] that by blast
    moreover have "M2 x = M1 x" using B(2) True by (simp add: map_le_def)
    ultimately show ?thesis by simp
  next
    case False
    then show ?thesis using B(4)[of x] that by blast
  qed
  moreover have "mem m2 x = mem m x" if "x \<notin> dom M2 - dom M" for x
  proof -
    have "x \<notin> dom M2 - dom M1" "x \<notin> dom M1 - dom M" using that A(6) B(6) by blast+
    then show ?thesis using A(5)[of x] B(5)[of x] by simp
  qed
  moreover have "touches {} m M m2 M2"
    by (rule touches_trans[OF grows_touches[OF assms(1)] grows_touches[OF assms(2)]]) blast
  ultimately show ?thesis by (simp add: grows_def)
qed

lemma grows_new:
  assumes "owns (alc m') (M(z \<mapsto> 1))" "M z = None" "base_addr (alc m') = base_addr (alc m)" "base_addr (alc m) \<le> z"
    "mem m' = (mem m)(z := f)"
  shows "grows m M m' (M(z \<mapsto> 1))"
proof -
  have "x \<noteq> z" if "safe (base_addr (alc m)) M x" for x
    using that assms(2,4) by (auto simp: safe_def word_le_nat_alt)
  then show ?thesis using assms by (auto simp: grows_def touches_def map_le_def)
qed

lemma grows_box:
  assumes "owns (alc m) M" "box_frame f m = Inr (m', z)"
  shows "grows m M m' (M(z \<mapsto> 1))"
  using box_frame_ok[OF assms] by (intro grows_new)

lemma grows_clone_page:
  assumes "owns (alc m) M" "clone_page s m = Inr (m', z)" "s \<noteq> z"
  shows "grows m M m' (M(z \<mapsto> 1))" "mem m' z = mem m s" "M z = None" "page_aligned z" "base_addr (alc m) \<le> z"
proof -
  obtain m1 where b: "box_frame (\<lambda>i. 0) m = Inr (m1, z)" and m': "m' = m1\<lparr>mem := (mem m1)(z := mem m1 s)\<rparr>"
    using assms(2) by (auto simp: clone_page_def Page_new_def)
  note B = box_frame_ok[OF assms(1) b]
  show "mem m' z = mem m s" using m' B(5) assms(3) by simp
  show "M z = None" "page_aligned z" "base_addr (alc m) \<le> z" using B by simp_all
  show "grows m M m' (M(z \<mapsto> 1))" by (rule grows_new[where f = "mem m1 s"]) (use B m' in auto)
qed

lemma safe_mem:
  assumes "safe (base_addr (alc m)) M x" "grows m M m' M'"
  shows "mem m' x = mem m x"
  using growsD(5)[OF assms(2)] safe_old[OF assms(1) grows_touches[OF assms(2)]] by blast

lemma copied_cong:
  assumes "copied c c1 k t t' S" "\<And>x. x \<in> S \<Longrightarrow> c2 x = c1 x"
  shows "copied c c2 k t t' S"
  using assms
proof (induction k arbitrary: t t' S)
  case 0
  then show ?case by simp
next
  case (Suc k)
  obtain P Q where t': "t' \<in> S" "page_aligned t'" and PQ: "\<forall>i<TABLE_ENTRY_CNT. if cloned (c t i)
        then c1 t' i = Entry_new (P i) (Entry_flags (c t i)) \<and> Q i \<subseteq> S - {t'} \<and> copied c c1 k (Entry_paddr (c t i)) (P i) (Q i)
        else c1 t' i = 0" "\<forall>i<TABLE_ENTRY_CNT. \<forall>j<TABLE_ENTRY_CNT. i \<noteq> j \<longrightarrow> Q i \<inter> Q j = {}"
    using Suc.prems(1) by (simp only: copied.simps) blast
  have "if cloned (c t i)
        then c2 t' i = Entry_new (P i) (Entry_flags (c t i)) \<and> Q i \<subseteq> S - {t'} \<and> copied c c2 k (Entry_paddr (c t i)) (P i) (Q i)
        else c2 t' i = 0" if i: "i < TABLE_ENTRY_CNT" for i
  proof -
    have "c2 t' = c1 t'" using Suc.prems(2) t'(1) by blast
    moreover have "copied c c2 k (Entry_paddr (c t i)) (P i) (Q i)" if "cloned (c t i)"
    proof (rule Suc.IH)
      show "copied c c1 k (Entry_paddr (c t i)) (P i) (Q i)" using PQ(1) i that by (auto split: if_splits)
      fix x assume "x \<in> Q i"
      then show "c2 x = c1 x" using PQ(1) i that Suc.prems(2) by (auto split: if_splits)
    qed
    ultimately show ?thesis using PQ(1) i by (auto split: if_splits)
  qed
  then show ?case using t' PQ(2) by (simp only: copied.simps) blast
qed


section \<open>Cloning\<close>

lemma clone_okD:
  assumes "clone_ok b M0 c k g" "owns (alc m) M" "base_addr (alc m) = b" "M0 \<subseteq>\<^sub>m M" "source b M0 c k t"
    "\<forall>x. safe b M0 x \<longrightarrow> mem m x = c x"
  obtains e where "g t m = Inl e" "e \<in> alloc_panics"
  | m' t' M' where "g t m = Inr (m', t')" "grows m M m' M'" "copied c (mem m') k t t' (dom M' - dom M)"
proof -
  have "case g t m of Inl e \<Rightarrow> e \<in> alloc_panics
    | Inr (m', t') \<Rightarrow> \<exists>M'. grows m M m' M' \<and> copied c (mem m') k t t' (dom M' - dom M)"
    using assms(1)[unfolded clone_ok_def, rule_format, OF assms(2-5)] assms(6) by blast
  then show thesis using that by (auto split: sum.splits)
qed

lemma clone_page_ok: "clone_ok b M0 c 0 clone_page"
  unfolding clone_ok_def
proof (intro allI impI)
  fix t :: usize and m :: kmem and M
  assume o: "owns (alc m) M" and b: "base_addr (alc m) = b" and M: "M0 \<subseteq>\<^sub>m M" and s: "source b M0 c 0 t"
    and c: "\<forall>x. safe b M0 x \<longrightarrow> mem m x = c x"
  have s: "safe b M t" "mem m t = c t" using s c safe_mono[OF _ M] by simp_all
  show "case clone_page t m of Inl e \<Rightarrow> e \<in> alloc_panics
    | Inr (m', t') \<Rightarrow> \<exists>M'. grows m M m' M' \<and> copied c (mem m') 0 t t' (dom M' - dom M)"
  proof (cases "clone_page t m")
    case (Inl e)
    then have "box_frame (\<lambda>i. 0) m = Inl e" by (auto simp: clone_page_def Page_new_def rbind_def split: sum.splits)
    then show ?thesis using box_frame_panics[OF o] Inl by simp
  next
    case (Inr r)
    obtain m' z where r: "clone_page t m = Inr (m', z)" using Inr by (cases r) simp
    obtain m1 where bx: "box_frame (\<lambda>i. 0) m = Inr (m1, z)"
      using r by (auto simp: clone_page_def Page_new_def rbind_def split: sum.splits)
    have "t \<noteq> z"
      using box_frame_ok(1,4)[OF o bx] s(1) b by (auto simp: safe_def word_le_nat_alt)
    from grows_clone_page[OF o r this] r show ?thesis using s(2) by (auto intro!: exI[of _ "M(z \<mapsto> 1)"])
  qed
qed

lemma clone_invE:
  assumes "clone_inv c k t m M i (m1, pgt)"
  obtains M1 P Q where "grows m M m1 M1"
    and "\<forall>j<i. if cloned (c t j)
        then pgt j = Entry_new (P j) (Entry_flags (c t j)) \<and> copied c (mem m1) k (Entry_paddr (c t j)) (P j) (Q j)
        else pgt j = 0"
    and "\<forall>j<i. Q j \<subseteq> dom M1 - dom M" and "\<forall>j\<ge>i. pgt j = 0"
    and "\<forall>j<i. \<forall>j'<i. j \<noteq> j' \<longrightarrow> Q j \<inter> Q j' = {}"
  using assms unfolding clone_inv_def prod.case by (elim exE conjE) (rule that)

lemma clone_loop_step:
  assumes g: "clone_ok b M0 c k g" and b: "base_addr (alc m) = b" and M: "M0 \<subseteq>\<^sub>m M"
    and s: "source b M0 c (Suc k) t" and c: "\<And>x. safe b M0 x \<Longrightarrow> mem m x = c x"
    and i: "i < 512" and I: "clone_inv c k t m M i s"
    and F: "\<And>m1 pgt. mem m1 t i = c t i \<Longrightarrow> F i (m1, pgt) = clone_loop g t i (m1, pgt)"
  shows "case F i s of Inl e \<Rightarrow> e \<in> alloc_panics | Inr s' \<Rightarrow> clone_inv c k t m M (Suc i) s'"
proof -
  obtain m1 pgt where s1: "s = (m1, pgt)" by (cases s)
  from I[unfolded s1] obtain M1 P Q where gr: "grows m M m1 M1"
    and E: "\<forall>j<i. if cloned (c t j)
        then pgt j = Entry_new (P j) (Entry_flags (c t j)) \<and> copied c (mem m1) k (Entry_paddr (c t j)) (P j) (Q j)
        else pgt j = 0"
    and Sub: "\<forall>j<i. Q j \<subseteq> dom M1 - dom M" and Z: "\<forall>j\<ge>i. pgt j = 0"
    and QQ: "\<forall>j<i. \<forall>j'<i. j \<noteq> j' \<longrightarrow> Q j \<inter> Q j' = {}"
    by (rule clone_invE)
  note e = E[rule_format] and sub = Sub[rule_format] and z = Z[rule_format] and q = QQ[rule_format]
  have c1: "mem m1 x = c x" if "safe b M0 x" for x
    using safe_mem[OF _ gr] safe_mono[OF that M] c[OF that] b by simp
  have v: "mem m1 t i = c t i" using c1[of t] s by simp
  show ?thesis
  proof (cases "cloned (c t i)")
    case False
    have "clone_inv c k t m M (Suc i) (m1, pgt)"
      unfolding clone_inv_def prod.case
    proof (intro exI[of _ M1] exI[of _ P] exI[of _ "Q(i := {})"] conjI allI impI)
      fix j assume "j < Suc i"
      then consider "j < i" | "j = i" by linarith
      then show "if cloned (c t j)
        then pgt j = Entry_new (P j) (Entry_flags (c t j)) \<and>
          copied c (mem m1) k (Entry_paddr (c t j)) (P j) ((Q(i := {})) j)
        else pgt j = 0"
      proof cases
        case 1
        then show ?thesis using e[OF 1] by simp
      next
        case 2
        then show ?thesis using False z[of i] by simp
      qed
    next
      fix j assume "j < Suc i"
      then show "(Q(i := {})) j \<subseteq> dom M1 - dom M" using sub[of j] by (auto simp: less_Suc_eq)
    next
      fix j j' assume "j < Suc i" "j' < Suc i" "j \<noteq> j'"
      then show "(Q(i := {})) j \<inter> (Q(i := {})) j' = {}" using q[of j j'] by (auto simp: less_Suc_eq)
    qed (use gr z in simp_all)
    then show ?thesis using False v by (simp add: F clone_loop_def s1)
  next
    case True
    have sk: "source b M0 c k (Entry_paddr (c t i))" using s True i by (simp add: cloned_def)
    have b1: "base_addr (alc m1) = b" using growsD(3)[OF gr] b by simp
    have M1: "M0 \<subseteq>\<^sub>m M1" using M growsD(2)[OF gr] map_le_trans by blast
    have "\<forall>x. safe b M0 x \<longrightarrow> mem m1 x = c x" using c1 by blast
    from clone_okD[OF g growsD(1)[OF gr] b1 M1 sk this] show ?thesis
    proof cases
      case (1 e)
      then show ?thesis using True v by (simp add: F clone_loop_def s1)
    next
      case (2 m2 pg M2)
      let ?pgt = "pgt(i := Entry_new pg (Entry_flags (c t i)))" and ?P = "P(i := pg)" and ?Q = "Q(i := dom M2 - dom M1)"
      have d: "dom M \<subseteq> dom M1" "dom M1 \<subseteq> dom M2" using growsD(6)[OF gr] growsD(6)[OF 2(2)] by simp_all
      have "clone_inv c k t m M (Suc i) (m2, ?pgt)"
        unfolding clone_inv_def prod.case
      proof (intro exI[of _ M2] exI[of _ ?P] exI[of _ ?Q] conjI allI impI)
        show "grows m M m2 M2" by (rule grows_trans[OF gr 2(2)])
      next
        fix j assume "j < Suc i"
        then consider "j < i" | "j = i" by linarith
        then show "if cloned (c t j)
          then ?pgt j = Entry_new (?P j) (Entry_flags (c t j)) \<and>
            copied c (mem m2) k (Entry_paddr (c t j)) (?P j) (?Q j)
          else ?pgt j = 0"
        proof cases
          case 1
          show ?thesis
          proof (cases "cloned (c t j)")
            case True
            then have E: "pgt j = Entry_new (P j) (Entry_flags (c t j))"
              "copied c (mem m1) k (Entry_paddr (c t j)) (P j) (Q j)" using e[OF 1] by simp_all
            have "copied c (mem m2) k (Entry_paddr (c t j)) (P j) (Q j)"
              by (rule copied_cong[OF E(2)]) (use sub[OF 1] growsD(5)[OF 2(2)] in blast)
            then show ?thesis using 1 True E by auto
          next
            case False
            then show ?thesis using e[OF 1] 1 by simp
          qed
        next
          case 2
          then show ?thesis using True \<open>copied c (mem m2) k (Entry_paddr (c t i)) pg (dom M2 - dom M1)\<close> by auto
        qed
      next
        fix j assume "j < Suc i"
        then consider "j < i" | "j = i" by linarith
        then show "?Q j \<subseteq> dom M2 - dom M"
        proof cases
          case 1
          then show ?thesis using sub[OF 1] d by (simp only: fun_upd_other less_not_refl2) blast
        next
          case 2
          then show ?thesis using d by (simp only: fun_upd_same) blast
        qed
      next
        fix j assume "Suc i \<le> j"
        then show "?pgt j = 0" using z[of j] by simp
      next
        fix j j' assume "j < Suc i" "j' < Suc i" "j \<noteq> j'"
        then show "?Q j \<inter> ?Q j' = {}" using q[of j j'] sub[of j] sub[of j'] by (auto simp: less_Suc_eq)
      qed
      then show ?thesis using True v 2(1) by (simp add: F clone_loop_def s1)
    qed
  qed
qed

lemma clone_loop_ok:
  assumes g: "clone_ok b M0 c k g"
    and F: "\<And>t i m pgt. source b M0 c (Suc k) t \<Longrightarrow> i < 512 \<Longrightarrow> mem m t i = c t i \<Longrightarrow>
      F t i (m, pgt) = clone_loop g t i (m, pgt)"
  shows "clone_ok b M0 c (Suc k) (\<lambda>t m. rbind (rfor 0 512 (F t) (m, \<lambda>_. 0)) (\<lambda>(m', pgtable). box_frame pgtable m'))"
  unfolding clone_ok_def
proof (intro allI impI)
  fix t :: usize and m :: kmem and M
  assume o: "owns (alc m) M" and b: "base_addr (alc m) = b" and M: "M0 \<subseteq>\<^sub>m M" and s: "source b M0 c (Suc k) t"
    and c: "\<forall>x. safe b M0 x \<longrightarrow> mem m x = c x"
  let ?r = "rfor 0 512 (F t) (m, \<lambda>_. 0)"
  have I0: "clone_inv c k t m M 0 (m, \<lambda>_. 0)"
    unfolding clone_inv_def using grows_refl[OF o] by auto
  have r: "case ?r of Inl e \<Rightarrow> e \<in> alloc_panics | Inr y \<Rightarrow> clone_inv c k t m M (0 + 512) y"
    by (rule rfor_result, rule I0, rule clone_loop_step[OF g b M s]) (use c F[OF s] in auto)
  show "case rbind ?r (\<lambda>(m', pgtable). box_frame pgtable m') of
      Inl e \<Rightarrow> e \<in> alloc_panics
    | Inr (m', t') \<Rightarrow> \<exists>M'. grows m M m' M' \<and> copied c (mem m') (Suc k) t t' (dom M' - dom M)"
  proof (cases ?r)
    case (Inl e)
    then show ?thesis using r by simp
  next
    case (Inr y)
    obtain m1 pgt where y: "y = (m1, pgt)" by (cases y)
    have I: "clone_inv c k t m M 512 (m1, pgt)" using r by (simp only: Inr y sum.case add_0)
    from I obtain M1 P Q where gr: "grows m M m1 M1"
      and E: "\<forall>j<512. if cloned (c t j)
        then pgt j = Entry_new (P j) (Entry_flags (c t j)) \<and> copied c (mem m1) k (Entry_paddr (c t j)) (P j) (Q j)
        else pgt j = 0"
      and Sub: "\<forall>j<512. Q j \<subseteq> dom M1 - dom M" and Z: "\<forall>j\<ge>512. pgt j = 0"
      and QQ: "\<forall>j<512. \<forall>j'<512. j \<noteq> j' \<longrightarrow> Q j \<inter> Q j' = {}"
      by (rule clone_invE)
    note e = E[rule_format] and sub = Sub[rule_format] and q = QQ[rule_format]
    note o1 = growsD(1)[OF gr]
    show ?thesis
    proof (cases "box_frame pgt m1")
      case (Inl e)
      then show ?thesis using Inr y box_frame_panics[OF o1 Inl] by simp
    next
      case (Inr w)
      obtain m2 t' where w: "box_frame pgt m1 = Inr (m2, t')" using Inr by (cases w) simp
      note bf = box_frame_ok[OF o1 w]
      let ?M = "M1(t' \<mapsto> 1)"
      have t': "t' \<notin> dom M1" "t' \<notin> dom M" using bf(1) growsD(6)[OF gr] by (auto simp: domIff)
      have "copied c (mem m2) (Suc k) t t' (dom ?M - dom M)"
        unfolding copied.simps
      proof (intro conjI exI[of _ P] exI[of _ Q] allI impI)
        fix i assume "i < TABLE_ENTRY_CNT"
        then have i: "i < 512" by simp
        have "copied c (mem m2) k (Entry_paddr (c t i)) (P i) (Q i)" if "cloned (c t i)"
          by (rule copied_cong[of c "mem m1"]) (use e[OF i] that sub[OF i] t' bf(5) in auto)
        then show "if cloned (c t i)
          then mem m2 t' i = Entry_new (P i) (Entry_flags (c t i)) \<and> Q i \<subseteq> dom ?M - dom M - {t'} \<and>
            copied c (mem m2) k (Entry_paddr (c t i)) (P i) (Q i)
          else mem m2 t' i = 0"
          using e[OF i] sub[OF i] t' bf(5) by (auto split: if_splits)
      qed (use t' bf(3) q in simp_all)
      moreover have "grows m M m2 ?M" by (rule grows_trans[OF gr grows_box[OF o1 w]])
      ultimately have "\<exists>M'. grows m M m2 M' \<and> copied c (mem m2) (Suc k) t t' (dom M' - dom M)" by blast
      then show ?thesis by (simp only: \<open>?r = Inr y\<close> y w rbind_simps prod.case sum.case)
    qed
  qed
qed

lemma clone_walk_ok: "clone_ok b M0 c (Suc level) (clone_walk level)"
proof (induction level)
  case 0
  show ?case
    unfolding clone_walk.simps Table_new_def TABLE_ENTRY_CNT_num
    by (rule clone_loop_ok[OF clone_page_ok]) (auto simp: clone_loop_def cloned_def Let_def rif_def)
next
  case (Suc level)
  show ?case
    unfolding clone_walk.simps Table_new_def TABLE_ENTRY_CNT_num
    by (rule clone_loop_ok[OF Suc.IH]) (auto simp: clone_loop_def cloned_def Let_def rif_def)
qed

section \<open>The clone as an address space\<close>

lemma Entry_flags_small: "small_flags (Entry_flags e)"
  unfolding small_flags_bit Entry_flags_def mask_nums by (auto simp: bit_simps)

lemma Entry_flags_bit: "k < 10 \<Longrightarrow> bit (Entry_flags e) k = bit e k"
  unfolding Entry_flags_def mask_nums by (auto simp: bit_simps)

lemma reflag:
  assumes "page_aligned p"
  shows "Entry_paddr (Entry_new p (Entry_flags e)) = p" "Entry_flags (Entry_new p (Entry_flags e)) = Entry_flags e"
    "is_v (Entry_new p (Entry_flags e)) = is_v e" "is_u (Entry_new p (Entry_flags e)) = is_u e"
    "is_leaf (Entry_new p (Entry_flags e)) = is_leaf e"
  using assms by (simp_all add: Entry_paddr_new Entry_flags_new Entry_flags_small is_bit is_leaf_bit Entry_new_bit Entry_flags_bit)

lemma is_v_0: "\<not> is_v 0"
  by (simp add: is_bit)

lemma copied_root: "copied c c' k t t' S \<Longrightarrow> t' \<in> S \<and> page_aligned t'"
  by (cases k) simp_all

lemma copiedE:
  assumes "copied c c' (Suc k) t t' S"
  obtains P Q where
    "\<forall>i<512. if cloned (c t i)
        then c' t' i = Entry_new (P i) (Entry_flags (c t i)) \<and> Q i \<subseteq> S - {t'} \<and> copied c c' k (Entry_paddr (c t i)) (P i) (Q i)
        else c' t' i = 0"
    "\<forall>i<512. \<forall>j<512. i \<noteq> j \<longrightarrow> Q i \<inter> Q j = {}"
  using assms unfolding copied.simps TABLE_ENTRY_CNT_num by (elim exE conjE) (rule that)

text \<open>The entry of a copy, in terms of the entry of the source.\<close>

lemma copied_entry:
  assumes "copied c c' (Suc k) t t' S" "i < 512"
  shows "if cloned (c t i) then \<exists>p Q. c' t' i = Entry_new p (Entry_flags (c t i)) \<and> page_aligned p \<and>
      Entry_paddr (c' t' i) = p \<and> is_v (c' t' i) \<and> Q \<subseteq> S \<and> copied c c' k (Entry_paddr (c t i)) p Q
    else c' t' i = 0"
proof -
  obtain P Q where e: "\<forall>i<512. if cloned (c t i)
        then c' t' i = Entry_new (P i) (Entry_flags (c t i)) \<and> Q i \<subseteq> S - {t'} \<and> copied c c' k (Entry_paddr (c t i)) (P i) (Q i)
        else c' t' i = 0"
    using assms(1) by (rule copiedE)
  show ?thesis
  proof (cases "cloned (c t i)")
    case True
    then have e': "c' t' i = Entry_new (P i) (Entry_flags (c t i))" "Q i \<subseteq> S" "copied c c' k (Entry_paddr (c t i)) (P i) (Q i)"
      using e[rule_format, OF assms(2)] by auto
    have "page_aligned (P i)" using copied_root[OF e'(3)] by simp
    then show ?thesis using True e' reflag[of "P i" "c t i"] by (auto simp: cloned_def intro!: exI[of _ "Q i"])
  next
    case False
    then show ?thesis using e assms(2) by simp
  qed
qed

lemma copied_tb:
  assumes "copied c c' k t t' S" "source b M c k t" "length p < k" "\<forall>i\<in>set p. i < 512"
  shows "(tb c t p = None \<and> tb c' t' p = None) \<or>
    (\<exists>u u' S'. tb c t p = Some u \<and> tb c' t' p = Some u' \<and> S' \<subseteq> S \<and> copied c c' (k - length p) u u' S' \<and>
      source b M c (k - length p) u)"
  using assms
proof (induction p arbitrary: k t t' S)
  case Nil
  then show ?case by auto
next
  case (Cons i p)
  obtain k' where k: "k = Suc k'" "length p < k'" using Cons.prems(3) by (cases k) auto
  have i: "i < 512" using Cons.prems(4) by simp
  note ent = copied_entry[OF Cons.prems(1)[unfolded k] i]
  show ?case
  proof (cases "is_v (c t i)")
    case True
    then have cl: "cloned (c t i)" and src: "source b M c k' (Entry_paddr (c t i))"
      using Cons.prems(2) k i by (auto simp: cloned_def)
    obtain P Q where PQ: "Entry_paddr (c' t' i) = P" "is_v (c' t' i)" "Q \<subseteq> S" "copied c c' k' (Entry_paddr (c t i)) P Q"
      using ent cl by auto
    have "\<forall>i\<in>set p. i < 512" using Cons.prems(4) by simp
    from Cons.IH[OF PQ(4) src k(2) this] show ?thesis
      using True PQ(1-3) k(1) by (auto; blast)
  next
    case False
    then have "\<not> is_v (c' t' i)" using ent is_v_0 by (auto simp: cloned_def)
    then show ?thesis using False by simp
  qed
qed

lemma copied_frames:
  assumes "copied c c' k t t' S" "length p \<le> k" "\<forall>i\<in>set p. i < 512" "tb c' t' p = Some x"
  shows "x \<in> S"
  using assms
proof (induction p arbitrary: k t t' S)
  case Nil
  then show ?case using copied_root by auto
next
  case (Cons i p)
  obtain k' where k: "k = Suc k'" "length p \<le> k'" using Cons.prems(2) by (cases k) auto
  have i: "i < 512" using Cons.prems(3) by simp
  have v: "is_v (c' t' i)" "tb c' (Entry_paddr (c' t' i)) p = Some x" using Cons.prems(4) by (auto split: if_splits)
  obtain Q where "Q \<subseteq> S" "copied c c' k' (Entry_paddr (c t i)) (Entry_paddr (c' t' i)) Q"
    using copied_entry[OF Cons.prems(1)[unfolded k] i] v(1) is_v_0 by (auto split: if_splits)
  then show ?case using Cons.IH[OF _ k(2) _ v(2)] Cons.prems(3) by auto
qed

lemma copied_Cons:
  assumes e: "\<forall>i<512. if cloned (c t i)
        then c' t' i = Entry_new (P i) (Entry_flags (c t i)) \<and> Q i \<subseteq> S - {t'} \<and> copied c c' k (Entry_paddr (c t i)) (P i) (Q i)
        else c' t' i = 0"
    and p: "length p \<le> k" "\<forall>j\<in>set p. j < 512" "i < 512" "tb c' t' (i # p) = Some x"
  shows "copied c c' k (Entry_paddr (c t i)) (P i) (Q i)" "tb c' (P i) p = Some x" "x \<in> Q i" "Q i \<subseteq> S - {t'}"
proof -
  have v: "is_v (c' t' i)" "tb c' (Entry_paddr (c' t' i)) p = Some x" using p(4) by (auto split: if_splits)
  then have cl: "cloned (c t i)" using e[rule_format, OF p(3)] is_v_0 by (auto split: if_splits)
  then show E: "copied c c' k (Entry_paddr (c t i)) (P i) (Q i)" "Q i \<subseteq> S - {t'}" using e[rule_format, OF p(3)] by auto
  have "Entry_paddr (c' t' i) = P i" using e[rule_format, OF p(3)] cl copied_root[OF E(1)] reflag(1) by simp
  then show t: "tb c' (P i) p = Some x" using v(2) by simp
  show "x \<in> Q i" by (rule copied_frames[OF E(1) p(1,2) t])
qed

lemma copied_inj:
  assumes "copied c c' k t t' S" "length p \<le> k" "length q \<le> k" "\<forall>i\<in>set p. i < 512" "\<forall>i\<in>set q. i < 512"
    "tb c' t' p = Some x" "tb c' t' q = Some x"
  shows "p = q"
  using assms
proof (induction p arbitrary: k t t' S q)
  case Nil
  show ?case
  proof (cases q)
    case (Cons j q')
    obtain k' where k: "k = Suc k'" using Nil.prems(3) Cons by (cases k) auto
    obtain P Q where e: "\<forall>i<512. if cloned (c t i)
        then c' t' i = Entry_new (P i) (Entry_flags (c t i)) \<and> Q i \<subseteq> S - {t'} \<and> copied c c' k' (Entry_paddr (c t i)) (P i) (Q i)
        else c' t' i = 0" using Nil.prems(1)[unfolded k] by (rule copiedE)
    have "x \<in> S - {t'}" using copied_Cons(3,4)[OF e, of q' j x] Nil.prems Cons k by auto
    then show ?thesis using Nil.prems(6) by simp
  qed simp
next
  case (Cons i p)
  obtain k' where k: "k = Suc k'" "length p \<le> k'" using Cons.prems(2) by (cases k) auto
  obtain P Q where e: "\<forall>i<512. if cloned (c t i)
        then c' t' i = Entry_new (P i) (Entry_flags (c t i)) \<and> Q i \<subseteq> S - {t'} \<and> copied c c' k' (Entry_paddr (c t i)) (P i) (Q i)
        else c' t' i = 0" and d: "\<forall>i<512. \<forall>j<512. i \<noteq> j \<longrightarrow> Q i \<inter> Q j = {}"
    using Cons.prems(1)[unfolded k] by (rule copiedE)
  have p: "i < 512" "\<forall>j\<in>set p. j < 512" using Cons.prems(4) by simp_all
  note C = copied_Cons[OF e k(2) p(2,1) Cons.prems(6)]
  show ?case
  proof (cases q)
    case Nil
    then show ?thesis using C(3,4) Cons.prems(7) by auto
  next
    case (Cons j q')
    have q: "length q' \<le> k'" "\<forall>j\<in>set q'. j < 512" "j < 512" "tb c' t' (j # q') = Some x"
      using Cons.prems(3,5,7) Cons k by simp_all
    note D = copied_Cons[OF e q]
    have "i = j" using d p(1) q(3) C(3) D(3) by blast
    then show ?thesis using Cons.IH[OF C(1) k(2) q(1) p(2) q(2) C(2)] D(2) Cons by simp
  qed
qed

lemma upages_snoc:
  assumes "path 2 q" "length q = 2" "k < 512"
  shows "upages c r (q @ [k]) = (case tb c r q of None \<Rightarrow> None
    | Some t \<Rightarrow> if is_v (c t k) \<and> is_u (c t k) then Some (Entry_flags (c t k), c (Entry_paddr (c t k))) else None)"
  using assms by (simp add: upages_def lookup_snoc split: option.split)

lemma upages_eqI:
  assumes "\<And>q k. path 2 q \<Longrightarrow> length q = 2 \<Longrightarrow> k < 512 \<Longrightarrow> upages c r (q @ [k]) = upages c' r' (q @ [k])"
  shows "upages c r = upages c' r'"
proof (rule ext)
  fix p
  show "upages c r p = upages c' r' p"
  proof (cases "\<exists>q k. p = q @ [k] \<and> path 2 q \<and> length q = 2 \<and> k < TABLE_ENTRY_CNT")
    case True
    then show ?thesis using assms by auto
  next
    case False
    then show ?thesis by (simp add: upages_def lookup_None)
  qed
qed

lemma copied_upages:
  assumes c: "copied c c' 3 r r' S" and s: "source b M c 3 r"
  shows "upages c' r' = upages c r"
proof (rule upages_eqI)
  fix q :: "nat list" and k :: nat
  assume q: "path 2 q" "length q = 2" "k < 512"
  have "length q < 3" "\<forall>i\<in>set q. i < 512" using q by (simp_all add: path_def)
  from copied_tb[OF c s this] show "upages c' r' (q @ [k]) = upages c r (q @ [k])"
  proof (elim disjE exE conjE)
    assume "tb c r q = None" "tb c' r' q = None"
    then show ?thesis by (simp add: upages_snoc[OF q])
  next
    fix u u' S' assume t: "tb c r q = Some u" "tb c' r' q = Some u'"
      and C: "copied c c' (3 - length q) u u' S'" and su: "source b M c (3 - length q) u"
    have one: "3 - length q = Suc 0" using q(2) by simp
    have leaf: "is_v (c u k) \<Longrightarrow> is_leaf (c u k)" using su q(3) by (simp add: one)
    note E = copied_entry[OF C[unfolded one] q(3)]
    show ?thesis
    proof (cases "cloned (c u k)")
      case True
      then have v: "is_v (c u k)" "is_u (c u k)" using leaf by (auto simp: cloned_def)
      obtain p Q where p: "c' u' k = Entry_new p (Entry_flags (c u k))" "page_aligned p" "Entry_paddr (c' u' k) = p"
        "copied c c' 0 (Entry_paddr (c u k)) p Q" using E True by auto
      then show ?thesis using v t reflag[OF p(2), of "c u k"] by (simp add: upages_snoc[OF q])
    next
      case False
      then show ?thesis using E t is_v_0 leaf by (auto simp: upages_snoc[OF q] cloned_def)
    qed
  qed
qed

lemma aspace_table_safe:
  assumes "aspace r m M" "path 2 p" "tb (mem m) r p = Some t"
  shows "safe (base_addr (alc m)) M t"
  using assms by (cases "p = []") (auto simp: aspace_def root_ok_def safe_def)

lemma uspace_aspace: "uspace r m M \<Longrightarrow> aspace r m M"
  by (simp add: uspace_def)

lemma uspaceD:
  assumes "uspace r m M" "lookup (mem m) r p = Some e" "is_u e"
  shows "M (Entry_paddr e) = Some 1" "Entry_paddr e \<notin> tables (mem m) r"
    "lookup (mem m) r q = Some e' \<Longrightarrow> is_u e' \<Longrightarrow> Entry_paddr e' = Entry_paddr e \<Longrightarrow> q = p"
  using assms unfolding uspace_def by blast+

lemma owned_nonzero:
  assumes "aspace r m M" "M x = Some n"
  shows "x \<noteq> 0"
  using owned_above_base[of "alc m" M x n] assms by (auto simp: aspace_def word_le_nat_alt)

lemma uspace_source:
  assumes u: "uspace r m M" and p: "path 2 p" "tb (mem m) r p = Some t" "length p = 2 - n" "n \<le> 2"
  shows "source (base_addr (alc m)) M (mem m) (Suc n) t"
  using p
proof (induction n arbitrary: p t)
  case 0
  note a = uspace_aspace[OF u]
  have len: "length p = 2" using 0 by simp
  have "Entry_paddr (mem m t i) \<noteq> 0 \<and> safe (base_addr (alc m)) M (Entry_paddr (mem m t i))"
    if i: "i < 512" "is_v (mem m t i)" "is_u (mem m t i)" for i
  proof -
    have "lookup (mem m) r (p @ [i]) = Some (mem m t i)" using i 0 len by (simp add: lookup_snoc)
    from uspaceD(1)[OF u this i(3)] show ?thesis using owned_nonzero[OF a] by (auto simp: safe_def)
  qed
  moreover have "is_leaf (mem m t i)" if "i < 512" "is_v (mem m t i)" for i
    using levels_okD[of "mem m" r p t i] a 0 that len by (simp add: aspace_def)
  ultimately show ?case using aspace_table_safe[OF a 0(1,2)] by (auto simp: cloned_def)
next
  case (Suc n)
  note a = uspace_aspace[OF u]
  have "\<not> is_leaf (mem m t i) \<and> Entry_paddr (mem m t i) \<noteq> 0 \<and>
      source (base_addr (alc m)) M (mem m) (Suc n) (Entry_paddr (mem m t i))"
    if i: "i < 512" "is_v (mem m t i)" for i
  proof -
    have q: "path 2 (p @ [i])" "tb (mem m) r (p @ [i]) = Some (Entry_paddr (mem m t i))" "length (p @ [i]) = 2 - n"
      using Suc.prems i by (auto simp: path_def tb_append)
    have "M (Entry_paddr (mem m t i)) = Some 1" using a q by (auto simp: aspace_def)
    then show ?thesis
      using Suc.IH[OF q] Suc.prems levels_okD[of "mem m" r p t i] a i owned_nonzero[OF a] by (auto simp: aspace_def)
  qed
  then show ?case using aspace_table_safe[OF a Suc.prems(1,2)] by (auto simp del: source.simps(2) simp add: source.simps(2)[of _ _ _ "Suc n"])
qed

lemma tb_lookup: "lookup c r p = Some e \<Longrightarrow> tb c r p = Some (Entry_paddr e) \<and> length p = 3 \<and> path 3 p"
  by (cases p rule: rev_cases) (auto simp: lookup_def tb_append split: option.splits if_splits)

lemma copied_uspace:
  assumes c: "copied c (mem m') 3 r r' (dom M' - dom M)" and s: "source b M c 3 r"
    and g: "grows m M m' M'" and b: "0 < unat (base_addr (alc m'))"
  shows "uspace r' m' M'"
proof -
  let ?S = "dom M' - dom M"
  have in_S: "x \<in> ?S" if "path 3 p" "tb (mem m') r' p = Some x" for p x
    using copied_frames[OF c _ _ that(2)] that(1) by (simp add: path_def)
  have inj: "p = q" if "path 3 p" "path 3 q" "tb (mem m') r' p = Some x" "tb (mem m') r' q = Some x" for p q x
    using copied_inj[OF c _ _ _ _ that(3,4)] that(1,2) by (simp add: path_def)
  have p3: "path 3 p" if "path 2 p" for p using that by (simp add: path_mono)
  have one: "M' x = Some 1" if "x \<in> ?S" for x using growsD(4)[OF g that] .
  have lev: "levels_ok (mem m') r'"
    unfolding levels_ok_def
  proof (intro allI impI)
    fix p x i
    assume p: "path 2 p" "tb (mem m') r' p = Some x" "i < TABLE_ENTRY_CNT" "is_v (mem m' x i)"
    have l: "length p < 3" "\<forall>i\<in>set p. i < 512" using p(1) by (auto simp: path_def)
    obtain u S' where u: "copied c (mem m') (3 - length p) u x S'" "source b M c (3 - length p) u"
      using copied_tb[OF c s l] p(2) by auto
    have k: "3 - length p = Suc (2 - length p)" "(2 - length p = 0) = (length p = 2)" using l(1) by linarith+
    have i: "i < 512" using p(3) by simp
    have cl: "cloned (c u i)" using copied_entry[OF u(1)[unfolded k(1)] i] p(4) is_v_0 by (auto split: if_splits)
    then obtain P where "mem m' x i = Entry_new P (Entry_flags (c u i))" "page_aligned P"
      using copied_entry[OF u(1)[unfolded k(1)] i] by auto
    then have "is_leaf (mem m' x i) = is_leaf (c u i)" using reflag(5) by simp
    also have "\<dots> = (2 - length p = 0)" using u(2)[unfolded k(1)] cl i by (auto simp: cloned_def)
    finally show "is_leaf (mem m' x i) = (length p = 2)" using k(2) by simp
  qed
  have tree: "tree_ok (mem m') r'" unfolding tree_ok_def using inj p3 by blast
  have "root_ok m' M' r'" using one[OF in_S[of "[]" r']] by (simp add: root_ok_def)
  then have a: "aspace r' m' M'"
    unfolding aspace_def using growsD(1)[OF g] b tree lev one[OF in_S[OF p3]] by blast
  show ?thesis
    unfolding uspace_def
  proof (intro conjI allI impI)
    fix p e assume e: "lookup (mem m') r' p = Some e" "is_u e"
    note t = tb_lookup[OF e(1)]
    show "M' (Entry_paddr e) = Some 1" using one[OF in_S] t by blast
    show "Entry_paddr e \<notin> tables (mem m') r'"
    proof
      assume "Entry_paddr e \<in> tables (mem m') r'"
      then obtain q where q: "path 2 q" "tb (mem m') r' q = Some (Entry_paddr e)" by (auto simp: tables_def)
      then have "q = p" using inj[OF p3[OF q(1)]] t by blast
      then show False using q(1) t by (simp add: path_def)
    qed
    fix q e' assume e': "lookup (mem m') r' q = Some e'" "is_u e'" "Entry_paddr e' = Entry_paddr e"
    show "q = p" using inj[of q p "Entry_paddr e"] tb_lookup[OF e'(1)] t e'(3) by simp
  qed (rule a)
qed

lemma uspace_cong:
  assumes u: "uspace r m M" and o: "owns (alc m') M'" "base_addr (alc m') = base_addr (alc m)"
    and M: "\<And>x. x \<in> uframes (mem m) r \<Longrightarrow> M x = Some 1 \<Longrightarrow> M' x = Some 1"
    and c: "\<And>x. x \<in> tables (mem m) r \<Longrightarrow> mem m' x = mem m x"
  shows "uspace r m' M'" "lookup (mem m') r = lookup (mem m) r" "tables (mem m') r = tables (mem m) r"
    "uframes (mem m') r = uframes (mem m) r"
    "(\<And>x. x \<in> uframes (mem m) r \<Longrightarrow> mem m' x = mem m x) \<Longrightarrow> upages (mem m') r = upages (mem m) r"
proof -
  note a = uspace_aspace[OF u]
  have t: "tb (mem m') r p = tb (mem m) r p" if "path 2 p" for p
    using tb_cong[of "[]" p "mem m" r r "mem m'"] c that by simp
  show l: "lookup (mem m') r = lookup (mem m) r" by (rule aspace_cong(2)[OF a c])
  show tt: "tables (mem m') r = tables (mem m) r" using t by (auto simp: tables_def)
  show "uframes (mem m') r = uframes (mem m) r" by (simp add: uframes_def l tt)
  show "upages (mem m') r = upages (mem m) r" if "\<And>x. x \<in> uframes (mem m) r \<Longrightarrow> mem m' x = mem m x"
  proof (rule ext)
    fix p
    have "mem m' (Entry_paddr e) = mem m (Entry_paddr e)" if "lookup (mem m) r p = Some e" "is_u e" for e
      using that \<open>\<And>x. x \<in> uframes (mem m) r \<Longrightarrow> mem m' x = mem m x\<close> by (auto simp: uframes_def)
    then show "upages (mem m') r p = upages (mem m) r p" by (simp add: upages_def l split: option.split)
  qed
  have a1: "aspace r (m\<lparr>mem := mem m'\<rparr>) M" by (rule aspace_cong(1)[OF a c])
  have "M' x = Some 1" if "path 2 p" "p \<noteq> []" "tb (mem m) r p = Some x" for p x
    using M[of x] a that tablesI[OF that(1,3)] by (auto simp: aspace_def uframes_def)
  moreover have "root_ok m' M' r"
    using a M[of r] tablesI[of "[]" "mem m" r r] o(2) by (auto simp: aspace_def root_ok_def uframes_def)
  ultimately have a': "aspace r m' M'" using a1 o t by (auto simp: aspace_def)
  show "uspace r m' M'"
    unfolding uspace_def l tt
  proof (intro conjI allI impI)
    fix p e assume e: "lookup (mem m) r p = Some e" "is_u e"
    note D = uspaceD[OF u e]
    show "M' (Entry_paddr e) = Some 1" using M[of "Entry_paddr e"] D(1) e by (auto simp: uframes_def)
    show "Entry_paddr e \<notin> tables (mem m) r" by (rule D(2))
    fix q e' assume "lookup (mem m) r q = Some e'" "is_u e'" "Entry_paddr e' = Entry_paddr e"
    then show "q = p" by (rule D(3))
  qed (rule a')
qed

lemma uframes_safe:
  assumes "uspace r m M" "x \<in> uframes (mem m) r"
  shows "safe (base_addr (alc m)) M x"
proof -
  consider p where "path 2 p" "tb (mem m) r p = Some x" | p e where "lookup (mem m) r p = Some e" "is_u e" "x = Entry_paddr e"
    using assms(2) by (auto simp: uframes_def tables_def)
  then show ?thesis
  proof cases
    case 1
    then show ?thesis by (rule aspace_table_safe[OF uspace_aspace[OF assms(1)]])
  next
    case 2
    then show ?thesis using uspaceD(1)[OF assms(1) 2(1,2)] by (auto simp: safe_def)
  qed
qed

lemma uspace_touches:
  assumes u: "uspace r m M" and g: "touches F m M m' M'" and F: "F \<inter> uframes (mem m) r = {}"
  shows "uspace r m' M'" "lookup (mem m') r = lookup (mem m) r" "tables (mem m') r = tables (mem m) r"
    "uframes (mem m') r = uframes (mem m) r" "upages (mem m') r = upages (mem m) r"
proof -
  have c: "mem m' x = mem m x" if "x \<in> uframes (mem m) r" for x
    using touchesD(5)[OF g uframes_safe[OF u that]] F that by blast
  have M: "M' x = Some 1" if "x \<in> uframes (mem m) r" "M x = Some 1" for x
    using touchesD(2)[OF g] that(2) by (auto simp: map_le_def dom_def)
  have c': "mem m' x = mem m x" if "x \<in> tables (mem m) r" for x using c that by (simp add: uframes_def)
  note C = uspace_cong[OF u touchesD(1,3)[OF g] M c']
  show "uspace r m' M'" "lookup (mem m') r = lookup (mem m) r" "tables (mem m') r = tables (mem m) r"
    "uframes (mem m') r = uframes (mem m) r" "upages (mem m') r = upages (mem m) r"
    using C c by simp_all
qed

lemma Table_clone_ok:
  assumes u: "uspace r m M"
  shows "case Table_clone r m of Inl e \<Rightarrow> e \<in> alloc_panics
    | Inr (m', r') \<Rightarrow> \<exists>M'. grows m M m' M' \<and> uspace r' m' M' \<and> uframes (mem m') r' \<subseteq> dom M' - dom M \<and>
        upages (mem m') r' = upages (mem m) r"
proof -
  let ?b = "base_addr (alc m)"
  note a = uspace_aspace[OF u]
  have s: "source ?b M (mem m) (Suc 2) r" by (rule uspace_source[OF u, of "[]"]) simp_all
  have o: "owns (alc m) M" and b: "0 < unat ?b" using a by (auto simp: aspace_def)
  show ?thesis
    unfolding Table_clone_def
  proof (rule clone_okD[OF clone_walk_ok o refl _ s])
    show "M \<subseteq>\<^sub>m M" by simp
    show "\<forall>x. safe ?b M x \<longrightarrow> mem m x = mem m x" by simp
    fix e assume "clone_walk 2 r m = Inl e" "e \<in> alloc_panics"
    then show "case clone_walk 2 r m of Inl e \<Rightarrow> e \<in> alloc_panics
      | Inr (m', r') \<Rightarrow> \<exists>M'. grows m M m' M' \<and> uspace r' m' M' \<and> uframes (mem m') r' \<subseteq> dom M' - dom M \<and>
          upages (mem m') r' = upages (mem m) r" by simp
  next
    fix m' r' M'
    assume w: "clone_walk 2 r m = Inr (m', r')" and g: "grows m M m' M'"
      and c: "copied (mem m) (mem m') (Suc 2) r r' (dom M' - dom M)"
    have n3: "Suc 2 = (3 :: nat)" by simp
    note c = c[unfolded n3] and s = s[unfolded n3]
    have "uspace r' m' M'" by (rule copied_uspace[OF c s g]) (use b growsD(3)[OF g] in simp)
    moreover have "uframes (mem m') r' \<subseteq> dom M' - dom M"
    proof
      fix x assume "x \<in> uframes (mem m') r'"
      then obtain p where "path 3 p" "tb (mem m') r' p = Some x"
        using tb_lookup path_mono[of 2 _ 3] unfolding uframes_def tables_def by fastforce
      then show "x \<in> dom M' - dom M" by (intro copied_frames[OF c]) (auto simp: path_def)
    qed
    moreover have "upages (mem m') r' = upages (mem m) r" by (rule copied_upages[OF c s])
    ultimately show "case clone_walk 2 r m of Inl e \<Rightarrow> e \<in> alloc_panics
      | Inr (m', r') \<Rightarrow> \<exists>M'. grows m M m' M' \<and> uspace r' m' M' \<and> uframes (mem m') r' \<subseteq> dom M' - dom M \<and>
          upages (mem m') r' = upages (mem m) r"
      unfolding w sum.case prod.case using g by blast
  qed
qed

section \<open>Mapping a page\<close>

lemma Entry_new_flags:
  assumes "page_flags f" "page_aligned pa"
  shows "Entry_paddr (Entry_new pa (f OR attr EA_V)) = pa" "Entry_flags (Entry_new pa (f OR attr EA_V)) = f OR attr EA_V"
    "is_u (Entry_new pa (f OR attr EA_V)) = is_u f"
proof -
  have s: "small_flags (f OR attr EA_V)"
    using assms(1) by (intro small_flags_or small_flags_attr) (simp add: page_flags_def)
  show "Entry_paddr (Entry_new pa (f OR attr EA_V)) = pa" by (rule Entry_paddr_new[OF s assms(2)])
  show "Entry_flags (Entry_new pa (f OR attr EA_V)) = f OR attr EA_V" by (rule Entry_flags_new[OF s])
  show "is_u (Entry_new pa (f OR attr EA_V)) = is_u f" by (simp add: is_bit Entry_new_bit bit_simps attr_V_bit)
qed

lemma extends_touches:
  assumes "aspace r m' M'" "extends r m M m' M'"
  shows "touches (tables (mem m) r) m M m' M'"
proof -
  have o: "owns (alc m') M'" "base_addr (alc m') = base_addr (alc m)" using assms by (auto simp: aspace_def extends_def)
  have "mem m' x = mem m x" if x: "safe (base_addr (alc m)) M x" "x \<notin> tables (mem m) r" for x
  proof -
    have "x \<notin> dom M' - dom M"
      using owned_above_base[OF o(1), of x] x(1) o(2) by (fastforce simp: safe_def word_le_nat_alt)
    then show ?thesis using assms(2) x(2) by (auto simp: extends_def)
  qed
  then show ?thesis using assms o by (auto simp: touches_def extends_def)
qed

lemma uspace_map:
  assumes u: "uspace r m M" and al: "page_aligned pa" "page_aligned va" and f: "page_flags f"
    and new: "is_u f \<Longrightarrow> M pa = Some 1" "is_u f \<Longrightarrow> pa \<notin> uframes (mem m) r"
    and run: "map_addr r va pa f 0 m = Inr m'"
  obtains M' where "uspace r m' M'" "touches (tables (mem m) r) m M m' M'"
    "lookup (mem m') r = (lookup (mem m) r)(vpath va \<mapsto> Entry_new pa (f OR attr EA_V))"
    "upages (mem m') r = (upages (mem m) r)(vpath va := if is_u f then Some (f OR attr EA_V, mem m pa) else None)"
    "uframes (mem m') r \<subseteq> uframes (mem m) r \<union> (dom M' - dom M) \<union> (if is_u f then {pa} else {})"
proof -
  note a = uspace_aspace[OF u]
  let ?e = "Entry_new pa (f OR attr EA_V)"
  note E = Entry_new_flags[OF f al(1)]
  obtain M' where a': "aspace r m' M'" and x: "extends r m M m' M'"
    and l: "lookup (mem m') r = (lookup (mem m) r)(vpath va \<mapsto> ?e)"
    using map_addr_ok[OF a al f] run by auto
  note t = extends_touches[OF a' x]
  have tab: "tables (mem m') r \<subseteq> tables (mem m) r \<union> (dom M' - dom M)" using x by (simp add: extends_def)
  have keep: "M' y = Some 1" if "M y = Some 1" for y using touchesD(2)[OF t] that by (auto simp: map_le_def dom_def)
  have nt: "y \<notin> tables (mem m') r" if "M y = Some 1" "y \<notin> tables (mem m) r" for y using that tab by auto
  have lk: "(p = vpath va \<and> e = ?e \<and> is_u f) \<or> (p \<noteq> vpath va \<and> lookup (mem m) r p = Some e)"
    if "lookup (mem m') r p = Some e" "is_u e" for p e
    using that E(3) by (auto simp: l split: if_splits)
  have old: "Entry_paddr e \<noteq> pa" if "lookup (mem m) r p = Some e" "is_u e" "is_u f" for p e
    using new(2)[OF that(3)] that by (auto simp: uframes_def)
  have U: "uspace r m' M'"
    unfolding uspace_def
  proof (intro conjI allI impI)
    fix p e assume e: "lookup (mem m') r p = Some e" "is_u e"
    have M: "M (Entry_paddr e) = Some 1 \<and> Entry_paddr e \<notin> tables (mem m) r"
      using lk[OF e] uspaceD(1,2)[OF u] E(1) new e(2) by (auto simp: uframes_def)
    then show "M' (Entry_paddr e) = Some 1" "Entry_paddr e \<notin> tables (mem m') r" using keep nt by blast+
    fix q e' assume e': "lookup (mem m') r q = Some e'" "is_u e'" "Entry_paddr e' = Entry_paddr e"
    show "q = p" using lk[OF e] lk[OF e'(1,2)] e(2) e'(2,3) E(1) old uspaceD(3)[OF u] by metis
  qed (rule a')
  have "upages (mem m') r = (upages (mem m) r)(vpath va := if is_u f then Some (f OR attr EA_V, mem m pa) else None)"
  proof (rule ext)
    fix p
    have same: "mem m' y = mem m y" if "M y = Some 1" "y \<notin> tables (mem m) r" for y
      using touchesD(5)[OF t _ that(2)] that(1) by (auto simp: safe_def)
    show "upages (mem m') r p = ((upages (mem m) r)(vpath va := if is_u f then Some (f OR attr EA_V, mem m pa) else None)) p"
      using same[OF uspaceD(1,2)[OF u]] same[of pa] new E
      by (auto simp: upages_def l uframes_def split: option.split)
  qed
  moreover have "uframes (mem m') r \<subseteq> uframes (mem m) r \<union> (dom M' - dom M) \<union> (if is_u f then {pa} else {})"
  proof
    fix y assume "y \<in> uframes (mem m') r"
    then consider "y \<in> tables (mem m') r" | p e where "lookup (mem m') r p = Some e" "is_u e" "y = Entry_paddr e"
      by (auto simp: uframes_def)
    then show "y \<in> uframes (mem m) r \<union> (dom M' - dom M) \<union> (if is_u f then {pa} else {})"
    proof cases
      case 1
      then show ?thesis using tab by (auto simp: uframes_def)
    next
      case 2
      then show ?thesis using lk[OF 2(1,2)] E(1) by (auto simp: uframes_def)
    qed
  qed
  ultimately show thesis using that U t l by blast
qed

lemma user_flag: "(f AND attr EA_U = 0) = (\<not> is_u f)"
  by (simp add: is_u_def)

lemma map_new_upage:
  assumes u: "uspace r m M" and b: "box_frame c m = Inr (m1, z)" and run: "Table_map r va z f m1 = Inr m2"
    and al: "page_aligned va" and f: "page_flags f"
  obtains M2 where "uspace r m2 M2" "touches (tables (mem m) r) m M m2 M2"
    "upages (mem m2) r = (upages (mem m) r)(vpath va \<mapsto> (f OR attr EA_V, c))"
    "uframes (mem m2) r \<subseteq> uframes (mem m) r \<union> (dom M2 - dom M)" "maps_only r {vpath va} m m2"
proof -
  have o: "owns (alc m) M" using uspace_aspace[OF u] by (simp add: aspace_def)
  note B = box_frame_ok[OF o b] and g = grows_touches[OF grows_box[OF o b]]
  note U = uspace_touches[OF u g, simplified]
  have fl: "is_u f" "map_addr r va z f 0 m1 = Inr m2"
    using run by (auto simp: Table_map_def user_flag rif_def split: if_splits)
  have z: "z \<notin> uframes (mem m1) r"
    unfolding U(4) using uframes_safe[OF u] safe_old[OF _ g] B(1) by auto
  obtain M2 where M2: "uspace r m2 M2" "touches (tables (mem m1) r) m1 (M(z \<mapsto> 1)) m2 M2"
    "upages (mem m2) r = (upages (mem m1) r)(vpath va := if is_u f then Some (f OR attr EA_V, mem m1 z) else None)"
    "uframes (mem m2) r \<subseteq> uframes (mem m1) r \<union> (dom M2 - dom (M(z \<mapsto> 1))) \<union> (if is_u f then {z} else {})"
    "lookup (mem m2) r = (lookup (mem m1) r)(vpath va \<mapsto> Entry_new z (f OR attr EA_V))"
    using uspace_map[OF U(1) B(3) al f _ z fl(2)] by auto
  have mp: "maps_only r {vpath va} m m2" by (simp add: maps_only_def M2(5) U(2))
  have t: "touches (tables (mem m) r) m M m2 M2"
    by (rule touches_trans[OF touches_mono[OF g] M2(2)]) (auto simp: U(3))
  have "z \<in> dom M2" using touchesD(6)[OF M2(2)] by auto
  then have "uframes (mem m2) r \<subseteq> uframes (mem m) r \<union> (dom M2 - dom M)"
    using M2(4) fl(1) B(1) unfolding U(4) by (auto split: if_splits)
  moreover have "upages (mem m2) r = (upages (mem m) r)(vpath va \<mapsto> (f OR attr EA_V, c))"
    using M2(3) fl(1) fun_cong[OF B(5), of z] unfolding U(5) by simp
  ultimately show thesis using that M2(1) t mp by blast
qed

lemma map_new_upage_runs:
  assumes u: "uspace r m M" and n: "3 \<le> free_pages (alc m)" and al: "page_aligned va" and f: "page_flags f" "is_u f"
  obtains m1 z m2 where "box_frame c m = Inr (m1, z)" "Table_map r va z f m1 = Inr m2"
    "free_pages (alc m) \<le> free_pages (alc m2) + 3"
proof -
  have o: "owns (alc m) M" using uspace_aspace[OF u] by (simp add: aspace_def)
  obtain m1 z where b: "box_frame c m = Inr (m1, z)"
    using box_frame_panics[OF o] n by (cases "box_frame c m") fastforce+
  note B = box_frame_ok[OF o b] and g = grows_touches[OF grows_box[OF o b]]
  note a1 = uspace_aspace[OF uspace_touches(1)[OF u g, simplified]]
  have free: "free_pages (alc m) = Suc (free_pages (alc m1))"
    using owns_count_upd[OF o B(2,1)] by simp
  obtain m2 where m2: "map_addr r va z f 0 m1 = Inr m2"
    using pt.map_law[OF a1 reserve_two order.refl B(3) al f(1)] n free by auto
  have "free_pages (alc m1) \<le> free_pages (alc m2) + 2" by (rule map_addr_free[OF B(2) m2])
  then show thesis using that[OF b] m2 f(2) free by (auto simp: Table_map_def user_flag)
qed

lemma uspace_owns: "uspace r m M \<Longrightarrow> owns (alc m) M"
  by (simp add: uspace_def aspace_def)

lemma evolves_refl: "uspace r m M \<Longrightarrow> evolves r m M m M"
  by (simp add: evolves_def touches_refl uspace_owns)

lemma evolves_trans:
  assumes "evolves r m M m1 M1" "evolves r m1 M1 m2 M2"
  shows "evolves r m M m2 M2"
proof -
  have t: "touches (uframes (mem m) r) m M m1 M1" "touches (uframes (mem m1) r) m1 M1 m2 M2"
    and f: "uframes (mem m1) r \<subseteq> uframes (mem m) r \<union> (dom M1 - dom M)" "uframes (mem m2) r \<subseteq> uframes (mem m1) r \<union> (dom M2 - dom M1)"
    and u: "uspace r m2 M2"
    using assms by (auto simp: evolves_def)
  have "uframes (mem m2) r \<subseteq> uframes (mem m) r \<union> (dom M2 - dom M)"
    using f touchesD(6)[OF t(1)] touchesD(6)[OF t(2)] by blast
  then show ?thesis unfolding evolves_def using u touches_trans[OF t f(1)] by blast
qed

lemma evolves_other:
  assumes q: "uspace q m M" and e: "evolves r m M m' M'" and d: "uframes (mem m) r \<inter> uframes (mem m) q = {}"
  shows "uspace q m' M'" "upages (mem m') q = upages (mem m) q" "uframes (mem m') q = uframes (mem m) q"
    "uframes (mem m') r \<inter> uframes (mem m') q = {}"
proof -
  have t: "touches (uframes (mem m) r) m M m' M'" and f: "uframes (mem m') r \<subseteq> uframes (mem m) r \<union> (dom M' - dom M)"
    using e by (auto simp: evolves_def)
  note U = uspace_touches[OF q t d]
  show "uspace q m' M'" "upages (mem m') q = upages (mem m) q" "uframes (mem m') q = uframes (mem m) q" using U by simp_all
  show "uframes (mem m') r \<inter> uframes (mem m') q = {}"
    unfolding U(4) using f d safe_old[OF uframes_safe[OF q] t] by blast
qed

lemma box_frame_write:
  "rbind (box_frame c m) (\<lambda>(m1, z). F (m1\<lparr>mem := (mem m1)(z := g (mem m1 z))\<rparr>) z) = rbind (box_frame (g c) m) (\<lambda>(m1, z). F m1 z)"
  by (simp add: box_frame_def rbind_assoc rbind_def split: sum.split prod.split)

lemma maps_only_refl [simp]: "maps_only r P m m"
  by (simp add: maps_only_def)

lemma maps_only_trans: "maps_only r P m m1 \<Longrightarrow> maps_only r Q m1 m2 \<Longrightarrow> P \<union> Q \<subseteq> S \<Longrightarrow> maps_only r S m m2"
  unfolding maps_only_def by (metis UnCI subsetD)

lemma new_upage:
  assumes u: "uspace r m M" and al: "page_aligned va" and f: "page_flags f" "is_u f"
  shows "case rbind (box_frame c m) (\<lambda>(m1, z). Table_map r va z f m1) of
      Inl e \<Rightarrow> e \<in> alloc_panics \<and> free_pages (alc m) < 3
    | Inr m2 \<Rightarrow> (\<exists>M2. evolves r m M m2 M2 \<and> upages (mem m2) r = (upages (mem m) r)(vpath va \<mapsto> (f OR attr EA_V, c))) \<and>
        free_pages (alc m) \<le> free_pages (alc m2) + 3 \<and> maps_only r {vpath va} m m2"
proof (cases "box_frame c m")
  case (Inl e)
  then show ?thesis using box_frame_panics[OF uspace_owns[OF u] Inl] by simp
next
  case (Inr w)
  obtain m1 z where b: "box_frame c m = Inr (m1, z)" using Inr by (cases w) simp
  have o: "owns (alc m) M" by (rule uspace_owns[OF u])
  note B = box_frame_ok[OF o b] and g = grows_touches[OF grows_box[OF o b]]
  note a1 = uspace_aspace[OF uspace_touches(1)[OF u g, simplified]]
  have free: "free_pages (alc m) = free_pages (alc m1) + 1" by (rule owns_count_upd[OF o B(2,1)])
  have tm: "Table_map r va z f m1 = map_addr r va z f 0 m1" using f(2) by (simp add: Table_map_def user_flag)
  show ?thesis
  proof (cases "map_addr r va z f 0 m1")
    case (Inl e)
    have "e \<in> alloc_panics" "\<not> reserve (dirs va) r m1" using map_addr_ok[OF a1 B(3) al f(1)] Inl by auto
    then show ?thesis using b tm Inl free reserve_two[of m1 va r] by fastforce
  next
    case (Inr m2)
    have t: "Table_map r va z f m1 = Inr m2" using tm Inr by simp
    obtain M2 where M2: "uspace r m2 M2" "touches (tables (mem m) r) m M m2 M2"
      "upages (mem m2) r = (upages (mem m) r)(vpath va \<mapsto> (f OR attr EA_V, c))"
      "uframes (mem m2) r \<subseteq> uframes (mem m) r \<union> (dom M2 - dom M)" "maps_only r {vpath va} m m2"
      by (rule map_new_upage[OF u b t al f(1)])
    have "evolves r m M m2 M2"
      unfolding evolves_def using M2 touches_mono[OF M2(2), of "uframes (mem m) r"] by (simp add: uframes_def)
    moreover have "free_pages (alc m1) \<le> free_pages (alc m2) + 2" by (rule map_addr_free[OF B(2) Inr])
    ultimately show ?thesis using b t M2(3,5) free by auto
  qed
qed

lemma uspace_isolated:
  assumes r: "uspace r m M" and x: "x \<notin> uframes (mem m) r"
  shows "upages ((mem m)(x := f)) r = upages (mem m) r"
proof -
  have o: "owns (alc m) M" using uspace_aspace[OF r] by (simp add: aspace_def)
  have "touches {x} m M (m\<lparr>mem := (mem m)(x := f)\<rparr>) M" using o by (simp add: touches_def)
  from uspace_touches(5)[OF r this] x show ?thesis by simp
qed


lemma uspace_mem0: "uspace 0x80000000 mem0 Map.empty" "upages (mem mem0) 0x80000000 = Map.empty"
proof -
  have "lookup (mem mem0) 0x80000000 = Map.empty"
    by (auto simp: lookup_def mem0_def is_bit tb_Table_new Table_new_def split: option.split)
  then show "uspace 0x80000000 mem0 Map.empty" "upages (mem mem0) 0x80000000 = Map.empty"
    using aspace_mem0 by (simp_all add: uspace_def upages_def fun_eq_iff)
qed

lemma one_page_space:
  obtains m M where "uspace 0x80000000 m M" "upages (mem m) 0x80000000 = [vpath 0x1000 \<mapsto> (attr EA_URX OR attr EA_V, \<lambda>i. 7)]"
proof -
  have v: "page_aligned 0x1000" "page_flags (attr EA_URX)" "is_u (attr EA_URX)" "3 \<le> free_pages (alc mem0)"
    using page_flags_attr(5)
    by (simp_all add: page_aligned_def consts_simps is_bit free_mem0 MAX_PAGE_def) (simp add: attr.simps bit_simps)
  obtain m1 z m2 where b: "box_frame (\<lambda>i. 7) mem0 = Inr (m1, z)" "Table_map 0x80000000 0x1000 z (attr EA_URX) m1 = Inr m2"
    by (rule map_new_upage_runs[OF uspace_mem0(1) v(4,1-3)])
  from map_new_upage[OF uspace_mem0(1) b v(1,2)] show thesis
    using that uspace_mem0(2) by metis
qed


end
