(* ===== verification/Bytes.thy ===== *)
theory Bytes
  imports Prelude
begin

text \<open>
  Bytes and integers: reading a little-endian integer out of a slice of bytes, the bytes of a
  page frame, and the validity of UTF-8 text (\<open>core::str::from_utf8\<close>).
\<close>

section \<open>Definitions\<close>

text \<open>The integer whose bytes are given, lowest first: \<open>ptr::read\<close> on the target.\<close>

primrec le_word :: "u8 list \<Rightarrow> 'a::len word" where
  "le_word [] = 0"
| "le_word (b # bs) = ucast b OR push_bit 8 (le_word bs)"

primrec word_le :: "nat \<Rightarrow> 'a::len word \<Rightarrow> u8 list" where
  "word_le 0 w = []"
| "word_le (Suc n) w = ucast w # word_le n (drop_bit 8 w)"

definition slice :: "nat \<Rightarrow> nat \<Rightarrow> 'a list \<Rightarrow> 'a list" where
  "slice i n xs = take n (drop i xs)"

text \<open>
  The \<open>j\<close>th byte of a frame, and a frame with a byte or a run of bytes replaced.
\<close>

definition frame_byte :: "(nat \<Rightarrow> usize) \<Rightarrow> nat \<Rightarrow> u8" where
  "frame_byte c j = ucast (drop_bit (8 * (j mod 8)) (c (j div 8)))"

definition frame_bytes :: "(nat \<Rightarrow> usize) \<Rightarrow> nat \<Rightarrow> nat \<Rightarrow> u8 list" where
  "frame_bytes c i n = map (frame_byte c) [i..<i + n]"

definition put_byte :: "nat \<Rightarrow> u8 \<Rightarrow> (nat \<Rightarrow> usize) \<Rightarrow> (nat \<Rightarrow> usize)" where
  "put_byte j b c = c(j div 8 :=
     (c (j div 8) AND NOT (push_bit (8 * (j mod 8)) 0xff)) OR push_bit (8 * (j mod 8)) (ucast b))"

primrec put_bytes :: "nat \<Rightarrow> u8 list \<Rightarrow> (nat \<Rightarrow> usize) \<Rightarrow> (nat \<Rightarrow> usize)" where
  "put_bytes j [] c = c"
| "put_bytes j (b # bs) c = put_bytes (Suc j) bs (put_byte j b c)"

text \<open>The well-formed byte sequences of the Unicode standard.\<close>

definition utf8_tail :: "u8 \<Rightarrow> bool" where
  "utf8_tail b \<longleftrightarrow> 0x80 \<le> b \<and> b \<le> 0xBF"

fun utf8_valid :: "u8 list \<Rightarrow> bool" where
  "utf8_valid [] = True"
| "utf8_valid (a # bs) =
     (if a < 0x80 then utf8_valid bs
      else if 0xC2 \<le> a \<and> a \<le> 0xDF then
        (case bs of b # r \<Rightarrow> utf8_tail b \<and> utf8_valid r | _ \<Rightarrow> False)
      else if 0xE0 \<le> a \<and> a \<le> 0xEF then
        (case bs of b # c # r \<Rightarrow> utf8_tail b \<and> utf8_tail c \<and>
           (a = 0xE0 \<longrightarrow> 0xA0 \<le> b) \<and> (a = 0xED \<longrightarrow> b \<le> 0x9F) \<and> utf8_valid r | _ \<Rightarrow> False)
      else if 0xF0 \<le> a \<and> a \<le> 0xF4 then
        (case bs of b # c # d # r \<Rightarrow> utf8_tail b \<and> utf8_tail c \<and> utf8_tail d \<and>
           (a = 0xF0 \<longrightarrow> 0x90 \<le> b) \<and> (a = 0xF4 \<longrightarrow> b \<le> 0x8F) \<and> utf8_valid r | _ \<Rightarrow> False)
      else False)"

definition from_utf8 :: "u8 list \<Rightarrow> u8 list option" where
  "from_utf8 bs = (if utf8_valid bs then Some bs else None)"

text \<open>The bytes of an ASCII literal of the source.\<close>

definition ascii :: "string \<Rightarrow> u8 list" where
  "ascii s = map of_char s"

section \<open>Lemmas\<close>

lemma length_word_le [simp]: "length (word_le n w) = n"
  by (induction n arbitrary: w) simp_all

lemma le_word_bit:
  "bit (le_word bs :: 'a::len word) k \<longleftrightarrow> k < LENGTH('a) \<and> k div 8 < length bs \<and> bit (bs ! (k div 8)) (k mod 8)"
proof (induction bs arbitrary: k)
  case Nil
  then show ?case by simp
next
  case (Cons b bs)
  show ?case
  proof (cases "k < 8")
    case True
    then show ?thesis by (auto simp: bit_simps)
  next
    case False
    then have "\<not> bit b k" by (auto dest: bit_imp_le_length)
    then show ?thesis using False Cons.IH[of "k - 8"] by (auto simp: bit_simps le_div_geq le_mod_geq)
  qed
qed

lemma word_le_nth_bit:
  assumes "i < n" "j < 8"
  shows "bit (word_le n (w :: 'a::len word) ! i) j \<longleftrightarrow> bit w (8 * i + j)"
  using assms
proof (induction n arbitrary: i w)
  case 0
  then show ?case by simp
next
  case (Suc n)
  show ?case
  proof (cases i)
    case 0
    then show ?thesis using Suc.prems by (auto simp: bit_simps)
  next
    case (Suc i')
    then show ?thesis using Suc.IH[of i' "drop_bit 8 w"] Suc.prems by (auto simp: bit_simps algebra_simps)
  qed
qed

lemma le_word_word_le:
  assumes "LENGTH('a) \<le> 8 * n"
  shows "le_word (word_le n (w :: 'a::len word)) = w"
proof (rule bit_word_eqI)
  fix k assume k: "k < LENGTH('a)"
  then have "k div 8 < n" using assms by (auto simp: less_mult_imp_div_less mult.commute)
  then show "bit (le_word (word_le n w) :: 'a word) k = bit w k"
    using k word_le_nth_bit[of "k div 8" n "k mod 8" w] by (simp add: le_word_bit)
qed

lemma length_slice [simp]: "length (slice i n xs) = min n (length xs - i)"
  by (simp add: slice_def min.commute)

lemma slice_nth: "j < n \<Longrightarrow> i + j < length xs \<Longrightarrow> slice i n xs ! j = xs ! (i + j)"
  by (simp add: slice_def)

lemma slice_append: "length xs = i \<Longrightarrow> length ys = n \<Longrightarrow> slice i n (xs @ ys @ zs) = ys"
  by (simp add: slice_def)

lemma frame_byte_bit: "bit (frame_byte c j) k \<longleftrightarrow> k < 8 \<and> bit (c (j div 8)) (8 * (j mod 8) + k)"
  by (auto simp: frame_byte_def bit_simps)

lemma frame_byte_put: "frame_byte (put_byte j b c) i = (if i = j then b else frame_byte c i)"
proof (rule bit_word_eqI)
  fix k assume k: "k < LENGTH(8)"
  have ff: "(0xff :: usize) = mask 8" by (simp add: mask_eq_exp_minus_1)
  have r: "8 * (j mod 8) + n < 64" if "n < 8" for n
  proof -
    have "j mod 8 < 8" by simp
    then show ?thesis using that by linarith
  qed
  show "bit (frame_byte (put_byte j b c) i) k = bit (if i = j then b else frame_byte c i) k"
  proof (cases "i div 8 = j div 8")
    case False
    then show ?thesis by (auto simp: frame_byte_def put_byte_def)
  next
    case True
    show ?thesis
    proof (cases "i = j")
      case True
      then show ?thesis using k r[of k]
        by (auto simp: frame_byte_bit put_byte_def ff bit_simps dest: bit_imp_le_length)
    next
      case False
      then have "i mod 8 \<noteq> j mod 8" using True by (metis div_mult_mod_eq)
      then have "8 * (i mod 8) + k < 8 * (j mod 8) \<or> 8 * (j mod 8) + 8 \<le> 8 * (i mod 8) + k" using k by auto
      then show ?thesis using k True False
        by (auto simp: frame_byte_bit put_byte_def ff bit_simps dest: bit_imp_le_length)
    qed
  qed
qed

lemma frame_byte_put_bytes:
  "frame_byte (put_bytes j bs c) i = (if j \<le> i \<and> i < j + length bs then bs ! (i - j) else frame_byte c i)"
  by (induction bs arbitrary: j c) (auto simp: frame_byte_put nth_Cons' Suc_diff_le)

lemma frame_bytes_put_bytes: "frame_bytes (put_bytes j bs c) j (length bs) = bs"
  by (rule nth_equalityI) (simp_all add: frame_bytes_def frame_byte_put_bytes)

lemma utf8_valid_ascii: "\<forall>b\<in>set bs. b < 0x80 \<Longrightarrow> utf8_valid bs"
  by (induction bs) simp_all

end
