(* ===== verification/Elf.thy ===== *)
theory Elf
  imports UserMem Bytes
begin

text \<open>
  The ELF loader \<open>elf.rs\<close>. The program text is the memory behind the pointer \<open>a\<close>: a function from
  offsets to bytes, because the loader follows offsets of the file without comparing them with
  its length.
\<close>

section \<open>Definitions\<close>

record ELFHeader =
  magic :: u32
  elf :: "u8 list"
  etype :: u16
  machine :: u16
  version :: u32
  entry :: u64
  phoff :: u64
  shoff :: u64
  eflags :: u32
  ehsize :: u16
  phentsize :: u16
  phnum :: u16
  shentsize :: u16
  shnum :: u16
  shstrndx :: u16

record ProgramHeader =
  ptype :: u32
  pflags :: u32
  off :: u64
  vaddr :: u64
  paddr :: u64
  filesz :: u64
  memsz :: u64
  align :: u64

definition ELF_PROG_LOAD :: u32 where
  "ELF_PROG_LOAD = 1"

definition ELF_MAGIC :: u32 where
  "ELF_MAGIC = 0x464C457F"

text \<open>The bytes at an offset, and the two \<open>repr(C)\<close> structures read from there.\<close>

definition peek :: "(usize \<Rightarrow> u8) \<Rightarrow> usize \<Rightarrow> nat \<Rightarrow> u8 list" where
  "peek a p n = map (\<lambda>k. a (p + of_nat k)) [0..<n]"

definition elf_header :: "(usize \<Rightarrow> u8) \<Rightarrow> usize \<Rightarrow> ELFHeader" where
  "elf_header a p = \<lparr>magic = le_word (peek a p 4), elf = peek a (p + 4) 12, etype = le_word (peek a (p + 16) 2),
     machine = le_word (peek a (p + 18) 2), version = le_word (peek a (p + 20) 4), entry = le_word (peek a (p + 24) 8),
     phoff = le_word (peek a (p + 32) 8), shoff = le_word (peek a (p + 40) 8), eflags = le_word (peek a (p + 48) 4),
     ehsize = le_word (peek a (p + 52) 2), phentsize = le_word (peek a (p + 54) 2), phnum = le_word (peek a (p + 56) 2),
     shentsize = le_word (peek a (p + 58) 2), shnum = le_word (peek a (p + 60) 2), shstrndx = le_word (peek a (p + 62) 2)\<rparr>"

definition program_header :: "(usize \<Rightarrow> u8) \<Rightarrow> usize \<Rightarrow> ProgramHeader" where
  "program_header a p = \<lparr>ptype = le_word (peek a p 4), pflags = le_word (peek a (p + 4) 4), off = le_word (peek a (p + 8) 8),
     vaddr = le_word (peek a (p + 16) 8), paddr = le_word (peek a (p + 24) 8), filesz = le_word (peek a (p + 32) 8),
     memsz = le_word (peek a (p + 40) 8), align = le_word (peek a (p + 48) 8)\<rparr>"

text \<open>The body of the loop of \<open>load_segment\<close>.\<close>

definition seg_step :: "usize \<Rightarrow> usize \<Rightarrow> (usize \<Rightarrow> u8) \<Rightarrow> usize \<Rightarrow> nat \<Rightarrow> kmem \<Rightarrow> kmem res" where
  "seg_step pgtable va a offset i m =
       rbind (Page_new m) (\<lambda>(m1, seg).
       rbind (mul_chk (of_nat i) PAGE_SIZE) (\<lambda>k.
       rbind (add_chk offset k) (\<lambda>src.
       let m2 = m1\<lparr>mem := (mem m1)(seg := put_bytes 0 (peek a src (unat PAGE_SIZE)) (mem m1 seg))\<rparr> in
       rbind (add_chk va k) (\<lambda>dst.
         Table_map pgtable dst seg (attr EA_URX) m2))))"

definition load_segment :: "usize \<Rightarrow> usize \<Rightarrow> (usize \<Rightarrow> u8) \<Rightarrow> usize \<Rightarrow> usize \<Rightarrow> kmem \<Rightarrow> kmem res" where
  "load_segment pgtable va a offset sz m =
     rbind (align_val sz PAGE_ORDER) (\<lambda>al.
     rfor 0 (unat (al div PAGE_SIZE)) (seg_step pgtable va a offset) m)"

definition load_header :: "(usize \<Rightarrow> u8) \<Rightarrow> usize \<Rightarrow> ProgramHeader \<Rightarrow> kmem \<Rightarrow> kmem res" where
  "load_header a pgtable hdr m =
     (if ptype hdr \<noteq> ELF_PROG_LOAD then Inr m
      else rif (memsz hdr < filesz hdr) (Panic ''bad elf: memsz'')
        (rbind (add_chk (vaddr hdr) (memsz hdr)) (\<lambda>top.
         rif (top < vaddr hdr) (Panic ''bad elf: vaddr'')
        (rif (vaddr hdr mod PAGE_SIZE \<noteq> 0) (Panic ''bad elf: vaddr align'')
          (load_segment pgtable (vaddr hdr) a (off hdr) (filesz hdr) m)))))"

definition parse_elf :: "(usize \<Rightarrow> u8) \<Rightarrow> usize \<Rightarrow> kmem \<Rightarrow> (kmem \<times> u64) res" where
  "parse_elf a pgtable m =
     (let elfhdr = elf_header a 0 in
      rif (magic elfhdr \<noteq> ELF_MAGIC) (Panic ''wrong magic number'')
        (rbind (rfor 0 (unat (phnum elfhdr)) (\<lambda>i (proghdr, m).
            rbind (load_header a pgtable (program_header a proghdr) m) (\<lambda>m'. Inr (proghdr + 56, m')))
            (phoff elfhdr, m)) (\<lambda>(proghdr, m'). Inr (m', entry elfhdr))))"

text \<open>
  What loading does to the user pages: the image of a page of the file, and the pages of a
  segment.
\<close>

definition page_at :: "(usize \<Rightarrow> u8) \<Rightarrow> usize \<Rightarrow> nat \<Rightarrow> usize" where
  "page_at a p = put_bytes 0 (peek a p 4096) (\<lambda>_. 0)"

definition seg_page :: "(usize \<Rightarrow> u8) \<Rightarrow> usize \<times> usize \<Rightarrow> (nat list \<rightharpoonup> usize \<times> (nat \<Rightarrow> usize)) \<Rightarrow> (nat list \<rightharpoonup> usize \<times> (nat \<Rightarrow> usize))" where
  "seg_page a = (\<lambda>(dst, src) U. U(vpath dst \<mapsto> (attr EA_URX OR attr EA_V, page_at a src)))"

definition seg_pages :: "ProgramHeader \<Rightarrow> (usize \<times> usize) list" where
  "seg_pages h = (if ptype h = ELF_PROG_LOAD
     then map (\<lambda>i. (vaddr h + of_nat i * 4096, off h + of_nat i * 4096)) [0..<(unat (filesz h) + 4095) div 4096] else [])"

definition headers :: "(usize \<Rightarrow> u8) \<Rightarrow> ProgramHeader list" where
  "headers a = map (\<lambda>i. program_header a (phoff (elf_header a 0) + of_nat i * 56)) [0..<unat (phnum (elf_header a 0))]"

text \<open>The checks of the loader, and the checks together with the absence of overflow.\<close>

definition checked :: "ProgramHeader \<Rightarrow> bool" where
  "checked h \<longleftrightarrow> filesz h \<le> memsz h \<and> unat (vaddr h) + unat (memsz h) < 2 ^ 64 \<and> vaddr h mod 4096 = 0"

definition header_ok :: "ProgramHeader \<Rightarrow> bool" where
  "header_ok h \<longleftrightarrow> (ptype h = ELF_PROG_LOAD \<longrightarrow> checked h \<and>
     unat (vaddr h) + unat (filesz h) + 4095 < 2 ^ 64 \<and> unat (off h) + unat (filesz h) + 4095 < 2 ^ 64)"

definition seg_good :: "usize \<Rightarrow> usize \<Rightarrow> usize \<Rightarrow> kmem \<Rightarrow> bool" where
  "seg_good va offset sz m \<longleftrightarrow> unat va + unat sz + 4095 < 2 ^ 64 \<and> unat offset + unat sz + 4095 < 2 ^ 64 \<and>
     3 * ((unat sz + 4095) div 4096) \<le> free_pages (alc m)"

definition elf_panics :: "panic set" where
  "elf_panics = {Panic ''wrong magic number'', Panic ''bad elf: memsz'', Panic ''bad elf: vaddr'',
     Panic ''bad elf: vaddr align'', Overflow}"

definition elf_pages :: "(usize \<Rightarrow> u8) \<Rightarrow> nat \<Rightarrow> (usize \<times> usize) list" where
  "elf_pages a n = concat (map seg_pages (take n (headers a)))"

definition elf_good :: "(usize \<Rightarrow> u8) \<Rightarrow> kmem \<Rightarrow> bool" where
  "elf_good a m \<longleftrightarrow> magic (elf_header a 0) = ELF_MAGIC \<and> (\<forall>h\<in>set (headers a). header_ok h) \<and>
     3 * length (concat (map seg_pages (headers a))) \<le> free_pages (alc m)"

text \<open>A small program for the witnesses: one segment of eight bytes at address \<open>0x1000\<close>.\<close>

definition example_elf_bytes :: "u8 list" where
  "example_elf_bytes = word_le 4 ELF_MAGIC @ replicate 20 0 @ word_le 8 (0x1000 :: u64) @ word_le 8 (64 :: u64) @
     replicate 16 0 @ word_le 2 (1 :: u16) @ replicate 6 0 @
     word_le 4 ELF_PROG_LOAD @ word_le 4 (5 :: u32) @ word_le 8 (120 :: u64) @ word_le 8 (0x1000 :: u64) @
     word_le 8 (0 :: u64) @ word_le 8 (8 :: u64) @ word_le 8 (8 :: u64) @ word_le 8 (0 :: u64) @ [1, 2, 3, 4, 5, 6, 7, 8]"

definition example_elf :: "usize \<Rightarrow> u8" where
  "example_elf p = (if p < 128 then example_elf_bytes ! unat p else 0)"

section \<open>Loading\<close>

lemma page_at_byte: "j < 4096 \<Longrightarrow> frame_byte (page_at a p) j = a (p + of_nat j)"
  by (simp add: page_at_def frame_byte_put_bytes peek_def)

lemma URX_user: "page_flags (attr EA_URX)" "is_u (attr EA_URX)"
  using page_flags_attr(5) by (simp_all add: is_bit) (simp add: attr.simps bit_simps)

lemma seg_step_ok:
  assumes "unat va + i * 4096 < 2 ^ 64" "unat offset + i * 4096 < 2 ^ 64"
  shows "seg_step pg va a offset i m =
    rbind (box_frame (page_at a (offset + of_nat i * 4096)) m) (\<lambda>(m1, z). Table_map pg (va + of_nat i * 4096) z (attr EA_URX) m1)"
proof -
  have i: "unat (of_nat i :: usize) = i" using assms(1) by (simp add: unat_of_nat)
  then have k: "mul_chk (of_nat i :: usize) 4096 = Inr (of_nat i * 4096)" "unat (of_nat i * 4096 :: usize) = i * 4096"
    using assms(1) by (simp_all add: unat_word_ariths)
  have c: "add_chk offset (of_nat i * 4096) = Inr (offset + of_nat i * 4096)" "add_chk va (of_nat i * 4096) = Inr (va + of_nat i * 4096)"
    using assms k(2) by simp_all
  show ?thesis
    unfolding seg_step_def Page_new_def consts_simps k c rbind_simps Let_def page_at_def
    using box_frame_write[of "\<lambda>i. 0" m "\<lambda>m z. Table_map pg (va + of_nat i * 4096) z (attr EA_URX) m"
        "put_bytes 0 (peek a (offset + of_nat i * 4096) (unat (4096 :: usize)))"]
    by simp
qed

lemma seg_step_overflow:
  assumes o: "owns (alc m) M" and i: "i * 4096 < 2 ^ 64"
    and n: "\<not> (unat va + i * 4096 < 2 ^ 64 \<and> unat offset + i * 4096 < 2 ^ 64)"
  shows "seg_step pg va a offset i m \<in> Inl ` (alloc_panics \<union> {Overflow})"
proof (cases "box_frame (\<lambda>i. 0) m")
  case (Inl e)
  then show ?thesis using box_frame_panics[OF o Inl] by (simp add: seg_step_def Page_new_def)
next
  case (Inr w)
  have u: "unat (of_nat i :: usize) = i" using i by (simp add: unat_of_nat)
  then have k: "mul_chk (of_nat i :: usize) 4096 = Inr (of_nat i * 4096)" "unat (of_nat i * 4096 :: usize) = i * 4096"
    using i by (simp_all add: unat_word_ariths)
  show ?thesis using Inr n k
    by (auto simp: seg_step_def Page_new_def consts_simps add_chk_def rif_def Let_def split: prod.split)
qed

lemma load_segment_ok:
  fixes sz offset va :: usize
  assumes u: "uspace pg m M" and al: "va mod 4096 = 0"
  defines "n \<equiv> (unat sz + 4095) div 4096"
  defines "pages \<equiv> \<lambda>n. map (\<lambda>i. (va + of_nat i * 4096, offset + of_nat i * 4096)) [0..<n]"
  shows "case load_segment pg va a offset sz m of
      Inl e \<Rightarrow> e \<in> alloc_panics \<union> {Overflow} \<and> \<not> seg_good va offset sz m
    | Inr m' \<Rightarrow> (\<exists>M'. evolves pg m M m' M' \<and> upages (mem m') pg = fold (seg_page a) (pages n) (upages (mem m) pg)) \<and>
        free_pages (alc m) \<le> free_pages (alc m') + 3 * n \<and> maps_only pg (vpath ` fst ` set (pages n)) m m'"
proof (cases "align_val sz 12")
  case (Inl e)
  then have "e = Overflow" by (auto simp: align_val_def add_chk_def rif_def Let_def split: if_splits)
  moreover have "\<not> unat sz + 4095 < 2 ^ 64" using align_val_ok_iff[of sz 12] Inl by auto
  ultimately show ?thesis using Inl by (auto simp: load_segment_def PAGE_ORDER_def seg_good_def)
next
  case (Inr r)
  have r: "unat r = n * 4096" using align_val_unat[OF Inr] by (simp add: n_def)
  then have rn: "unat (r div PAGE_SIZE) = n" by (simp add: unat_div consts_simps)
  have big: "n * 4096 < 2 ^ 64" using r unsigned_less[where 'a = nat, of r] by simp
  let ?I = "\<lambda>i m'. (\<exists>M'. evolves pg m M m' M' \<and> upages (mem m') pg = fold (seg_page a) (pages i) (upages (mem m) pg)) \<and>
        free_pages (alc m) \<le> free_pages (alc m') + 3 * i \<and> maps_only pg (vpath ` fst ` set (pages i)) m m'"
  let ?E = "{e. e \<in> alloc_panics \<union> {Overflow} \<and> \<not> seg_good va offset sz m}"
  have step: "case seg_step pg va a offset i x of Inl e \<Rightarrow> e \<in> ?E | Inr y \<Rightarrow> ?I (Suc i) y" if i: "i < n" and I: "?I i x" for i x
  proof -
    obtain Mx where ev: "evolves pg m M x Mx" and up: "upages (mem x) pg = fold (seg_page a) (pages i) (upages (mem m) pg)"
      and fr: "free_pages (alc m) \<le> free_pages (alc x) + 3 * i" and mp: "maps_only pg (vpath ` fst ` set (pages i)) m x" using I by auto
    have ux: "uspace pg x Mx" using ev by (simp add: evolves_def)
    have i4: "i * 4096 < 2 ^ 64" using i big by linarith
    have sz: "i * 4096 < unat sz + 4095"
    proof -
      have "i * 4096 \<le> (n - 1) * 4096" using i by simp
      also have "\<dots> \<le> unat sz + 4095 - 4096" using i unfolding n_def by linarith
      finally show ?thesis using i unfolding n_def by linarith
    qed
    show ?thesis
    proof (cases "unat va + i * 4096 < 2 ^ 64 \<and> unat offset + i * 4096 < 2 ^ 64")
      case False
      then have "\<not> seg_good va offset sz m" using sz by (auto simp: seg_good_def)
      then show ?thesis using seg_step_overflow[OF uspace_owns[OF ux] i4 False, of pg a] by auto
    next
      case True
      have pa: "page_aligned (va + of_nat i * 4096)"
        using page_aligned_offset[of va i] al True by (simp add: page_aligned_def consts_simps)
      have "free_pages (alc x) < 3 \<Longrightarrow> \<not> seg_good va offset sz m"
        using fr i by (auto simp: seg_good_def n_def)
      moreover have "pages (Suc i) = pages i @ [(va + of_nat i * 4096, offset + of_nat i * 4096)]" by (simp add: pages_def)
      ultimately show ?thesis
        using new_upage[OF ux pa URX_user, of "page_at a (offset + of_nat i * 4096)"] up fr
          seg_step_ok[OF conjunct1[OF True] conjunct2[OF True], of pg a x]
        by (auto simp: seg_page_def split: sum.splits dest: evolves_trans[OF ev] intro: maps_only_trans[OF mp])
    qed
  qed
  have "?I 0 m" using evolves_refl[OF u] by (auto simp: pages_def)
  then have "case rfor 0 n (seg_step pg va a offset) m of Inl e \<Rightarrow> e \<in> ?E | Inr y \<Rightarrow> ?I (0 + n) y"
    by (rule rfor_result[where P = ?I]) (use step in simp)
  moreover have "load_segment pg va a offset sz m = rfor 0 n (seg_step pg va a offset) m"
    unfolding load_segment_def PAGE_ORDER_def Inr rbind_simps rn ..
  ultimately show ?thesis by (auto split: sum.splits)
qed

lemma load_header_ok:
  assumes u: "uspace pg m M"
  shows "case load_header a pg h m of
      Inl e \<Rightarrow> e \<in> alloc_panics \<union> elf_panics \<and> \<not> (header_ok h \<and> 3 * length (seg_pages h) \<le> free_pages (alc m))
    | Inr m' \<Rightarrow> (\<exists>M'. evolves pg m M m' M' \<and> upages (mem m') pg = fold (seg_page a) (seg_pages h) (upages (mem m) pg)) \<and>
        free_pages (alc m) \<le> free_pages (alc m') + 3 * length (seg_pages h) \<and> maps_only pg (vpath ` fst ` set (seg_pages h)) m m'"
proof (cases "ptype h = ELF_PROG_LOAD \<and> checked h")
  case True
  then have T: "ptype h = ELF_PROG_LOAD" "filesz h \<le> memsz h" "unat (vaddr h) + unat (memsz h) < 2 ^ 64" "vaddr h mod 4096 = 0"
    by (simp_all add: checked_def)
  then have c: "add_chk (vaddr h) (memsz h) = Inr (vaddr h + memsz h)" by simp
  have "\<not> vaddr h + memsz h < vaddr h" using add_chk_InrD(2)[OF c] by (simp add: word_less_nat_alt)
  then have run: "load_header a pg h m = load_segment pg (vaddr h) a (off h) (filesz h) m"
    using T c by (auto simp: load_header_def consts_simps rif_def not_less[symmetric])
  have "header_ok h \<and> 3 * length (seg_pages h) \<le> free_pages (alc m) \<Longrightarrow> seg_good (vaddr h) (off h) (filesz h) m"
    using True by (simp add: header_ok_def seg_good_def seg_pages_def)
  then show ?thesis
    unfolding run using load_segment_ok[OF u, where va = "vaddr h" and a = a and offset = "off h" and sz = "filesz h"] T
    by (auto simp: seg_pages_def elf_panics_def split: sum.splits)
next
  case False
  show ?thesis
  proof (cases "ptype h = ELF_PROG_LOAD")
    case True
    then have "\<not> header_ok h" using False unfolding header_ok_def by blast
    moreover have "load_header a pg h m \<in> Inl ` elf_panics"
      using True False unfolding load_header_def rif_def add_chk_def elf_panics_def consts_simps checked_def
      by (cases "memsz h < filesz h"; cases "vaddr h mod 4096 = 0") (simp_all add: not_less)
    ultimately show ?thesis by auto
  next
    case False
    then show ?thesis using evolves_refl[OF u] by (auto simp: load_header_def seg_pages_def)
  qed
qed

lemma elf_pages_Suc: "n < length (headers a) \<Longrightarrow> elf_pages a (Suc n) = elf_pages a n @ seg_pages (headers a ! n)"
  by (simp add: elf_pages_def take_Suc_conv_app_nth)

lemma parse_elf_ok:
  assumes u: "uspace pg m M"
  shows "case parse_elf a pg m of
      Inl e \<Rightarrow> e \<in> alloc_panics \<union> elf_panics \<and> \<not> elf_good a m
    | Inr (m', e) \<Rightarrow> (\<exists>M'. evolves pg m M m' M' \<and>
        upages (mem m') pg = fold (seg_page a) (concat (map seg_pages (headers a))) (upages (mem m) pg)) \<and>
        e = entry (elf_header a 0) \<and> free_pages (alc m) \<le> free_pages (alc m') + 3 * length (concat (map seg_pages (headers a))) \<and>
        maps_only pg (vpath ` fst ` set (concat (map seg_pages (headers a)))) m m'"
proof (cases "magic (elf_header a 0) = ELF_MAGIC")
  case False
  then show ?thesis by (auto simp: parse_elf_def elf_panics_def elf_good_def)
next
  case True
  define n where "n = unat (phnum (elf_header a 0))"
  define ph where "ph = phoff (elf_header a 0)"
  have len: "length (headers a) = n" by (simp add: headers_def n_def)
  let ?f = "\<lambda>i (proghdr, m). rbind (load_header a pg (program_header a proghdr) m) (\<lambda>m'. Inr (proghdr + 56, m'))"
  let ?I = "\<lambda>i (p, m'). p = ph + of_nat i * 56 \<and>
     (\<exists>M'. evolves pg m M m' M' \<and> upages (mem m') pg = fold (seg_page a) (elf_pages a i) (upages (mem m) pg)) \<and>
     free_pages (alc m) \<le> free_pages (alc m') + 3 * length (elf_pages a i) \<and> maps_only pg (vpath ` fst ` set (elf_pages a i)) m m'"
  let ?E = "{e. e \<in> alloc_panics \<union> elf_panics \<and> \<not> elf_good a m}"
  have step: "case ?f i x of Inl e \<Rightarrow> e \<in> ?E | Inr y \<Rightarrow> ?I (Suc i) y" if i: "i < n" and I: "?I i x" for i x
  proof -
    obtain mx Mx where x: "x = (ph + of_nat i * 56, mx)" and ev: "evolves pg m M mx Mx"
      and up: "upages (mem mx) pg = fold (seg_page a) (elf_pages a i) (upages (mem m) pg)"
      and fr: "free_pages (alc m) \<le> free_pages (alc mx) + 3 * length (elf_pages a i)" and mp: "maps_only pg (vpath ` fst ` set (elf_pages a i)) m mx"
      using I by (cases x) auto
    have ux: "uspace pg mx Mx" using ev by (simp add: evolves_def)
    let ?h = "program_header a (ph + of_nat i * 56)"
    have h: "headers a ! i = ?h" "?h \<in> set (headers a)"
      using i nth_mem[of i "headers a"] by (simp_all add: headers_def n_def ph_def)
    have S: "elf_pages a (Suc i) = elf_pages a i @ seg_pages ?h" using elf_pages_Suc[of i a] i len h by simp
    have le: "length (elf_pages a (Suc i)) \<le> length (concat (map seg_pages (headers a)))"
    proof -
      have "concat (map seg_pages (headers a)) = elf_pages a (Suc i) @ concat (map seg_pages (drop (Suc i) (headers a)))"
        by (simp add: elf_pages_def flip: concat_append map_append)
      then show ?thesis by simp
    qed
    have bad: "\<not> (header_ok ?h \<and> 3 * length (seg_pages ?h) \<le> free_pages (alc mx)) \<Longrightarrow> \<not> elf_good a m"
      using h(2) le S fr by (auto simp: elf_good_def)
    show ?thesis
    proof (cases "load_header a pg ?h mx")
      case (Inl e)
      then show ?thesis using load_header_ok[OF ux, where a = a and h = ?h] bad x by auto
    next
      case (Inr m')
      then obtain M' where "evolves pg mx Mx m' M'" "upages (mem m') pg = fold (seg_page a) (seg_pages ?h) (upages (mem mx) pg)"
        "free_pages (alc mx) \<le> free_pages (alc m') + 3 * length (seg_pages ?h)" and "maps_only pg (vpath ` fst ` set (seg_pages ?h)) mx m'"
        using load_header_ok[OF ux, where a = a and h = ?h] by auto
      then show ?thesis
        using Inr x S up fr evolves_trans[OF ev] maps_only_trans[OF mp, of "vpath ` fst ` set (seg_pages ?h)" m'] by (auto simp: algebra_simps image_Un)
    qed
  qed
  have "?I 0 (ph, m)" using evolves_refl[OF u] by (auto simp: elf_pages_def)
  then have r: "case rfor 0 n ?f (ph, m) of Inl e \<Rightarrow> e \<in> ?E | Inr y \<Rightarrow> ?I (0 + n) y"
    by (rule rfor_result[where P = ?I]) (use step in simp)
  have all: "elf_pages a n = concat (map seg_pages (headers a))" using len by (simp add: elf_pages_def)
  have run: "parse_elf a pg m = rbind (rfor 0 n ?f (ph, m)) (\<lambda>(proghdr, m'). Inr (m', entry (elf_header a 0)))"
    using True by (simp add: parse_elf_def n_def ph_def Let_def)
  show ?thesis
  proof (cases "rfor 0 n ?f (ph, m)")
    case (Inl e)
    then show ?thesis using r run by simp
  next
    case (Inr y)
    then show ?thesis using r run all by (cases y) auto
  qed
qed

lemma seg_pages_other: "vpath ` fst ` set ps \<subseteq> S \<Longrightarrow> p \<notin> S \<Longrightarrow> fold (seg_page a) ps U p = U p"
  by (induction ps arbitrary: U) (auto simp: seg_page_def split: prod.splits)

lemma seg_pages_at:
  assumes "distinct (map (vpath \<circ> fst) ps)" "(dst, src) \<in> set ps"
  shows "fold (seg_page a) ps U (vpath dst) = Some (attr EA_URX OR attr EA_V, page_at a src)"
  using assms
proof (induction ps arbitrary: U)
  case Nil
  then show ?case by simp
next
  case (Cons x ps)
  show ?case
  proof (cases "x = (dst, src)")
    case True
    have "vpath dst \<notin> vpath ` fst ` set ps" using Cons.prems(1) True by (auto simp: image_image)
    then show ?thesis using True seg_pages_other[OF order.refl, of "vpath dst" ps a] by (simp add: seg_page_def)
  next
    case False
    then show ?thesis using Cons by auto
  qed
qed

lemma seg_pages_kind: "fold (seg_page a) ps U p = U p \<or> (\<exists>f. fold (seg_page a) ps U p = Some (attr EA_URX OR attr EA_V, f))"
proof (induction ps arbitrary: U)
  case (Cons x ps)
  have "seg_page a x U p = U p \<or> (\<exists>f. seg_page a x U p = Some (attr EA_URX OR attr EA_V, f))"
    by (cases x) (simp add: seg_page_def)
  then show ?case using Cons.IH[of "seg_page a x U"] by auto
qed simp




lemma example_elf_header: "magic (elf_header example_elf 0) = ELF_MAGIC" "headers example_elf = [\<lparr>ptype = 1, pflags = 5, off = 120,
    vaddr = 0x1000, paddr = 0, filesz = 8, memsz = 8, align = 0\<rparr>]"
  by code_simp+

lemma example_elf_good: "elf_good example_elf mem0" "entry (elf_header example_elf 0) = 0x1000"
  "example_elf 120 = 1" "example_elf 127 = 8"
  "concat (map seg_pages (headers example_elf)) = [(0x1000, 120)]"
proof -
  show "entry (elf_header example_elf 0) = 0x1000" by code_simp
  show "example_elf 120 = 1" "example_elf 127 = 8" by code_simp+
  show c: "concat (map seg_pages (headers example_elf)) = [(0x1000, 120)]"
    by (simp add: example_elf_header seg_pages_def ELF_PROG_LOAD_def)
  show "elf_good example_elf mem0"
    unfolding elf_good_def c by (simp add: example_elf_header header_ok_def checked_def free_mem0 MAX_PAGE_def)
qed


lemma second_space_mem0: "uspace 0x80001000 mem0 Map.empty" "uframes (mem mem0) 0x80000000 \<inter> uframes (mem mem0) 0x80001000 = {}"
proof -
  have l: "lookup (mem mem0) r = Map.empty" for r
    by (auto simp: lookup_def mem0_def is_bit tb_Table_new Table_new_def split: option.split)
  show "uspace 0x80001000 mem0 Map.empty" using two_spaces_mem0(1) by (simp add: uspace_def l)
  show "uframes (mem mem0) 0x80000000 \<inter> uframes (mem mem0) 0x80001000 = {}"
    using two_spaces_mem0(2) by (simp add: uframes_def l)
qed


end
