(* ===== verification/Unmap.thy ===== *)
theory Unmap
  imports UserMem
begin

text \<open>
  \<open>Table::unmap_user\<close>: all user pages of an address space are given back and everything else
  stays. A set of paths says which part of the tree has been cleared so far.
\<close>

section \<open>Definitions\<close>

definition upath :: "cells \<Rightarrow> usize \<Rightarrow> nat list \<Rightarrow> bool" where
  "upath c r q \<longleftrightarrow> (\<exists>e. lookup c r q = Some e \<and> is_u e)"

definition cleared :: "usize \<Rightarrow> nat list set \<Rightarrow> kmem \<Rightarrow> (usize \<rightharpoonup> nat) \<Rightarrow> kmem \<Rightarrow> (usize \<rightharpoonup> nat) \<Rightarrow> bool" where
  "cleared r D m M m' M' \<longleftrightarrow> uspace r m' M' \<and> base_addr (alc m') = base_addr (alc m) \<and>
     (\<forall>p. path 2 p \<longrightarrow> tb (mem m') r p = tb (mem m) r p) \<and>
     lookup (mem m') r = (\<lambda>q. if q \<in> D \<and> upath (mem m) r q then None else lookup (mem m) r q) \<and>
     M' = (\<lambda>x. if \<exists>q e. q \<in> D \<and> lookup (mem m) r q = Some e \<and> is_u e \<and> Entry_paddr e = x then None else M x) \<and>
     (\<forall>x. x \<notin> tables (mem m) r \<longrightarrow> mem m' x = mem m x)"

text \<open>The body of the loop.\<close>

definition unmap_step :: "nat \<Rightarrow> usize \<Rightarrow> nat \<Rightarrow> kmem \<Rightarrow> kmem res" where
  "unmap_step n t i m = (let v = mem m t i in
     if is_v v then
       if is_leaf v then
         (if is_u v then rbind (free_frame (Entry_paddr v) m) (\<lambda>m'. Inr (set_entry t i 0 m'))
          else Inr m)
       else rif (Entry_paddr v = 0) Unwrap (unmap_user n (Entry_paddr v) m)
     else Inr m)"

section \<open>One entry\<close>

lemma clearedD:
  assumes "cleared r D m M m' M'"
  shows "uspace r m' M'" "base_addr (alc m') = base_addr (alc m)" "path 2 p \<Longrightarrow> tb (mem m') r p = tb (mem m) r p"
    "lookup (mem m') r q = (if q \<in> D \<and> upath (mem m) r q then None else lookup (mem m) r q)"
    "M' x = (if \<exists>q e. q \<in> D \<and> lookup (mem m) r q = Some e \<and> is_u e \<and> Entry_paddr e = x then None else M x)"
    "x \<notin> tables (mem m) r \<Longrightarrow> mem m' x = mem m x" "tables (mem m') r = tables (mem m) r"
  using assms by (auto simp: cleared_def tables_def)

lemma cleared_none:
  assumes "uspace r m M" "\<And>q. q \<in> D \<Longrightarrow> \<not> upath (mem m) r q"
  shows "cleared r D m M m M"
  unfolding cleared_def using assms by (auto simp: upath_def fun_eq_iff)

lemma cleared_trans:
  assumes a: "cleared r D m M m1 M1" and b: "cleared r E m1 M1 m2 M2"
  shows "cleared r (D \<union> E) m M m2 M2"
proof -
  note A = clearedD[OF a] and B = clearedD[OF b]
  have up: "upath (mem m1) r q \<longleftrightarrow> upath (mem m) r q \<and> q \<notin> D" for q by (auto simp: upath_def A(4))
  have l1: "lookup (mem m1) r q = Some e \<and> is_u e \<longleftrightarrow> lookup (mem m) r q = Some e \<and> is_u e \<and> q \<notin> D" for q e
    by (auto simp: A(4) upath_def)
  have "lookup (mem m2) r = (\<lambda>q. if q \<in> D \<union> E \<and> upath (mem m) r q then None else lookup (mem m) r q)"
    by (rule ext) (auto simp: A(4) B(4) up)
  moreover have "M2 = (\<lambda>x. if \<exists>q e. q \<in> D \<union> E \<and> lookup (mem m) r q = Some e \<and> is_u e \<and> Entry_paddr e = x then None else M x)"
  proof (rule ext)
    fix x
    have "(\<exists>q e. q \<in> D \<union> E \<and> lookup (mem m) r q = Some e \<and> is_u e \<and> Entry_paddr e = x) \<longleftrightarrow>
      (\<exists>q e. q \<in> D \<and> lookup (mem m) r q = Some e \<and> is_u e \<and> Entry_paddr e = x) \<or>
      (\<exists>q e. q \<in> E \<and> lookup (mem m1) r q = Some e \<and> is_u e \<and> Entry_paddr e = x)"
      using l1 by blast
    then show "M2 x = (if \<exists>q e. q \<in> D \<union> E \<and> lookup (mem m) r q = Some e \<and> is_u e \<and> Entry_paddr e = x then None else M x)"
      unfolding A(5) B(5) by (simp only: split: if_split) blast
  qed
  ultimately show ?thesis
    unfolding cleared_def using A(2,3,6,7) B(1,2,3,6) by simp
qed

lemma cleared_cong: "cleared r D m M m' M' \<Longrightarrow> D = E \<Longrightarrow> cleared r E m M m' M'"
  by simp

lemma free_frame_owned:
  assumes "owns (alc m) M" "M x = Some n"
  obtains al where "free_frame x m = Inr (m\<lparr>alc := al\<rparr>)" "owns al (M(x := None))" "base_addr al = base_addr (alc m)"
proof -
  obtain al where "deallocate (alc m) x = Inr al" "owns al (M(x := None))" using fs.dealloc_old[OF assms] by blast
  moreover from this have "base_addr al = base_addr (alc m)" by (auto simp: deallocate_def rbind_eq_Inr)
  ultimately show thesis using that by (simp add: free_frame_def os_dealloc_def)
qed

lemma cleared_leaf:
  assumes u: "uspace r m M" and q: "path 2 q" "length q = 2" "tb (mem m) r q = Some t" and i: "i < 512"
    and v: "is_v (mem m t i)" "is_u (mem m t i)"
  obtains m1 M' where "free_frame (Entry_paddr (mem m t i)) m = Inr m1" "cleared r {q @ [i]} m M (set_entry t i 0 m1) M'"
proof -
  let ?e = "mem m t i" and ?x = "Entry_paddr (mem m t i)"
  have i': "i < TABLE_ENTRY_CNT" using i by simp
  have l: "lookup (mem m) r (q @ [i]) = Some ?e" using lookup_snoc[OF q(1,2) i'] q(3) v(1) by simp
  note D = uspaceD[OF u l v(2)]
  note a = uspace_aspace[OF u]
  obtain al where f: "free_frame ?x m = Inr (m\<lparr>alc := al\<rparr>)" "owns al (M(?x := None))" "base_addr al = base_addr (alc m)"
    by (rule free_frame_owned[OF uspace_owns[OF u] D(1)])
  let ?m = "set_entry t i 0 (m\<lparr>alc := al\<rparr>)" and ?M = "M(?x := None)"
  have mem: "mem ?m = upd_cell t i 0 (mem m)" and al: "alc ?m = al" by (simp_all add: set_entry_def)
  have ok: "tree_ok (mem m) r" using a by (simp add: aspace_def)
  note L = tb_leaf[OF ok q i', where e = 0, folded mem]
  have look: "lookup (mem ?m) r = (lookup (mem m) r)(q @ [i] := None)" using L(5) is_v_0 by simp
  have tab: "M y = Some 1 \<Longrightarrow> y \<in> tables (mem m) r \<Longrightarrow> ?M y = Some 1" for y using D(2) by auto
  have rt: "root_ok ?m ?M r" using a f(3) al D(2) tablesI[of "[]" "mem m" r r] by (auto simp: aspace_def root_ok_def)
  have lev: "levels_ok (mem ?m) r"
    unfolding levels_ok_def
  proof (intro allI impI)
    fix p s k assume p: "path 2 p" "tb (mem ?m) r p = Some s" "k < TABLE_ENTRY_CNT" "is_v (mem ?m s k)"
    then have "mem ?m s k = mem m s k" using is_v_0 by (auto simp: mem upd_cell_def split: if_splits)
    then show "is_leaf (mem ?m s k) = (length p = 2)"
      using levels_okD[of "mem m" r p s k] a p L(1)[OF p(1)] by (simp add: aspace_def)
  qed
  have a': "aspace r ?m ?M"
    unfolding aspace_def
  proof (intro conjI allI impI)
    fix p s assume "path 2 p" "p \<noteq> []" "tb (mem ?m) r p = Some s"
    then show "?M s = Some 1" using tab[of s] a L(1) tablesI[of p "mem m" r s] by (auto simp: aspace_def)
  qed (use f al rt lev L(2) a in \<open>auto simp: aspace_def\<close>)
  have u': "uspace r ?m ?M"
    unfolding uspace_def look L(3)
  proof (intro conjI allI impI)
    fix p e assume e: "((lookup (mem m) r)(q @ [i] := None)) p = Some e" "is_u e"
    then have e': "lookup (mem m) r p = Some e" "p \<noteq> q @ [i]" by (auto split: if_splits)
    note D' = uspaceD[OF u e'(1) e(2)]
    have "Entry_paddr e \<noteq> ?x" using D(3)[OF e'(1) e(2)] e'(2) by blast
    then show "?M (Entry_paddr e) = Some 1" using D'(1) by simp
    show "Entry_paddr e \<notin> tables (mem m) r" by (rule D'(2))
    fix s d assume "((lookup (mem m) r)(q @ [i] := None)) s = Some d" "is_u d" "Entry_paddr d = Entry_paddr e"
    then show "s = p" using D'(3)[of s d] by (auto split: if_splits)
  qed (rule a')
  have "cleared r {q @ [i]} m M ?m ?M"
    unfolding cleared_def
  proof (intro conjI allI impI)
    show "lookup (mem ?m) r = (\<lambda>p. if p \<in> {q @ [i]} \<and> upath (mem m) r p then None else lookup (mem m) r p)"
      using l v(2) by (auto simp: look upath_def)
    show "?M = (\<lambda>x. if \<exists>p e. p \<in> {q @ [i]} \<and> lookup (mem m) r p = Some e \<and> is_u e \<and> Entry_paddr e = x then None else M x)"
      using l v(2) by auto
    fix x assume "x \<notin> tables (mem m) r"
    then have "x \<noteq> t" using tablesI[OF q(1,3)] by auto
    then show "mem ?m x = mem m x" by (simp add: mem upd_cell_def)
  qed (use u' f(3) al L(1) in simp_all)
  then show thesis using that f(1) by blast
qed

section \<open>The whole tree\<close>

lemma lookup_below_None:
  assumes "tb c r p = Some t" "\<not> is_v (c t i)"
  shows "lookup c r (p @ i # s) = None"
  using assms by (cases s rule: rev_cases) (auto simp: lookup_def tb_append butlast_append split: option.split)

lemma lookup_below_leaf:
  assumes "tb c r p = Some t" "length p = 2" "lookup c r (p @ i # s) = Some e"
  shows "s = [] \<and> e = c t i"
  using assms by (auto simp: lookup_def split: option.splits if_splits)

lemma unmap_step_ok:
  assumes u: "uspace r m M" and p: "path 2 p" "tb (mem m) r p = Some t" and i: "i < 512"
    and rec: "\<And>t'. length p < 2 \<Longrightarrow> tb (mem m) r (p @ [i]) = Some t' \<Longrightarrow>
      \<exists>m' M'. unmap_user n t' m = Inr m' \<and> cleared r {q. \<exists>s. q = (p @ [i]) @ s} m M m' M'"
  shows "\<exists>m' M'. unmap_step n t i m = Inr m' \<and> cleared r {q. \<exists>s. q = p @ i # s} m M m' M'"
proof -
  note a = uspace_aspace[OF u]
  have lev: "is_v (mem m t i) \<Longrightarrow> is_leaf (mem m t i) = (length p = 2)"
    using levels_okD[of "mem m" r p t i] a p i by (simp add: aspace_def)
  have len: "length p \<le> 2" using p(1) by (simp add: path_def)
  consider "\<not> is_v (mem m t i)" | "is_v (mem m t i)" "length p = 2" "\<not> is_u (mem m t i)"
    | "is_v (mem m t i)" "length p = 2" "is_u (mem m t i)" | "is_v (mem m t i)" "length p < 2" using len by linarith
  then show ?thesis
  proof cases
    case 1
    have "cleared r {q. \<exists>s. q = p @ i # s} m M m M"
      by (rule cleared_none[OF u]) (auto simp: upath_def lookup_below_None[OF p(2) 1])
    then show ?thesis using 1 by (auto simp: unmap_step_def)
  next
    case 2
    have "cleared r {q. \<exists>s. q = p @ i # s} m M m M"
      by (rule cleared_none[OF u]) (use 2(3) lookup_below_leaf[OF p(2) 2(2)] in \<open>auto simp: upath_def\<close>)
    then show ?thesis using 2 lev by (auto simp: unmap_step_def)
  next
    case 3
    obtain m1 M' where m1: "free_frame (Entry_paddr (mem m t i)) m = Inr m1" "cleared r {p @ [i]} m M (set_entry t i 0 m1) M'"
      by (rule cleared_leaf[OF u p(1) 3(2) p(2) i 3(1,3)])
    have "cleared r ({p @ [i]} \<union> {q. \<exists>s. q = p @ i # s}) m M (set_entry t i 0 m1) M'"
    proof (rule cleared_trans[OF m1(2)], rule cleared_none[OF clearedD(1)[OF m1(2)]])
      fix q assume "q \<in> {q. \<exists>s. q = p @ i # s}"
      then obtain s where q: "q = p @ i # s" by blast
      show "\<not> upath (mem (set_entry t i 0 m1)) r q"
      proof
        assume "upath (mem (set_entry t i 0 m1)) r q"
        then obtain e where e: "lookup (mem (set_entry t i 0 m1)) r q = Some e" "is_u e" by (auto simp: upath_def)
        then have "lookup (mem m) r q = Some e" using clearedD(4)[OF m1(2), of q] by (auto split: if_splits)
        moreover from this have "s = []" using lookup_below_leaf[OF p(2) 3(2)] q by blast
        ultimately show False using e clearedD(4)[OF m1(2), of q] q by (auto simp: upath_def)
      qed
    qed
    then have "cleared r {q. \<exists>s. q = p @ i # s} m M (set_entry t i 0 m1) M'" by (rule cleared_cong) auto
    then show ?thesis using 3 lev m1(1) by (auto simp: unmap_step_def)
  next
    case 4
    have q: "path 2 (p @ [i])" "tb (mem m) r (p @ [i]) = Some (Entry_paddr (mem m t i))"
      using p i 4 by (auto simp: path_def tb_append)
    then have "M (Entry_paddr (mem m t i)) = Some 1" using a by (auto simp: aspace_def)
    then have "Entry_paddr (mem m t i) \<noteq> 0" by (rule owned_nonzero[OF a])
    then show ?thesis using rec[OF 4(2) q(2)] 4 lev by (simp add: unmap_step_def)
  qed
qed

lemma unmap_walk:
  assumes "n \<le> 2" "uspace r m M" "path 2 p" "length p = 2 - n" "tb (mem m) r p = Some t" "n < fuel"
  shows "\<exists>m' M'. unmap_user fuel t m = Inr m' \<and> cleared r {q. \<exists>s. s \<noteq> [] \<and> q = p @ s \<and> hd s < 512} m M m' M'"
  using assms
proof (induction n arbitrary: m M p t fuel rule: less_induct)
  case (less n)
  obtain k where k: "fuel = Suc k" using less.prems(6) by (cases fuel) auto
  let ?D = "\<lambda>i. {q. \<exists>s. s \<noteq> [] \<and> q = p @ s \<and> hd s < i}"
  have "\<exists>m'. rfor 0 512 (unmap_step k t) m = Inr m' \<and> (\<exists>M'. cleared r (?D (0 + 512)) m M m' M')"
  proof (rule rfor_invariant[where P = "\<lambda>i m'. \<exists>M'. cleared r (?D i) m M m' M'"])
    show "\<exists>M'. cleared r (?D 0) m M m M'" using cleared_none[OF less.prems(2), of "{}"] by auto
    fix i m1 assume i: "0 \<le> i" "i < 0 + 512" and "\<exists>M1. cleared r (?D i) m M m1 M1"
    then obtain M1 where c: "cleared r (?D i) m M m1 M1" by blast
    note C = clearedD[OF c]
    have "\<exists>m' M'. unmap_step k t i m1 = Inr m' \<and> cleared r {q. \<exists>s. q = p @ i # s} m1 M1 m' M'"
    proof (rule unmap_step_ok[OF C(1) less.prems(3)])
      show "tb (mem m1) r p = Some t" using C(3)[OF less.prems(3)] less.prems(5) by simp
      fix t' assume t': "length p < 2" "tb (mem m1) r (p @ [i]) = Some t'"
      have n: "n \<noteq> 0" "n - 1 < n" "length (p @ [i]) = 2 - (n - 1)" "n - 1 \<le> 2" "n - 1 < k"
        using t'(1) less.prems(1,4,6) k by auto
      have "path 2 (p @ [i])" using less.prems(3) t'(1) i by (auto simp: path_def)
      from less.IH[OF n(2,4) C(1) this n(3) t'(2) n(5)]
      obtain m' M' where m': "unmap_user k t' m1 = Inr m'" "cleared r {q. \<exists>s. s \<noteq> [] \<and> q = (p @ [i]) @ s \<and> hd s < 512} m1 M1 m' M'"
        by blast
      have "cleared r ({q. \<exists>s. s \<noteq> [] \<and> q = (p @ [i]) @ s \<and> hd s < 512} \<union> {q. \<exists>s. q = (p @ [i]) @ s}) m1 M1 m' M'"
      proof (rule cleared_trans[OF m'(2)], rule cleared_none[OF clearedD(1)[OF m'(2)]])
        fix q assume "q \<in> {q. \<exists>s. q = (p @ [i]) @ s}"
        then obtain s where q: "q = (p @ [i]) @ s" by blast
        show "\<not> upath (mem m') r q"
        proof
          assume "upath (mem m') r q"
          then obtain e where e: "lookup (mem m') r q = Some e" "is_u e" by (auto simp: upath_def)
          then have l: "lookup (mem m1) r q = Some e" using clearedD(4)[OF m'(2), of q] by (auto split: if_splits)
          note T = tb_lookup[OF l]
          have "s \<noteq> []" using T t'(1) q by auto
          moreover have "hd s < 512" using T q \<open>s \<noteq> []\<close> by (cases s) (auto simp: path_def)
          ultimately show False using e l clearedD(4)[OF m'(2), of q] q by (auto simp: upath_def)
        qed
      qed
      then have "cleared r {q. \<exists>s. q = (p @ [i]) @ s} m1 M1 m' M'" by (rule cleared_cong) auto
      then show "\<exists>m' M'. unmap_user k t' m1 = Inr m' \<and> cleared r {q. \<exists>s. q = (p @ [i]) @ s} m1 M1 m' M'" using m'(1) by blast
    qed (use i in simp)
    then obtain m' M' where m': "unmap_step k t i m1 = Inr m'" "cleared r {q. \<exists>s. q = p @ i # s} m1 M1 m' M'" by blast
    have "cleared r (?D (Suc i)) m M m' M'"
    proof (rule cleared_cong[OF cleared_trans[OF c m'(2)]])
      show "?D i \<union> {q. \<exists>s. q = p @ i # s} = ?D (Suc i)"
        by (auto simp: less_Suc_eq) (metis list.exhaust_sel)
    qed
    then show "\<exists>y. unmap_step k t i m1 = Inr y \<and> (\<exists>M'. cleared r (?D (Suc i)) m M y M')" using m'(1) by blast
  qed
  moreover have "unmap_user fuel t m = rfor 0 512 (unmap_step k t) m"
    unfolding k unmap_user.simps unmap_step_def[abs_def] TABLE_ENTRY_CNT_num ..
  ultimately show ?case by auto
qed

lemma unmap_user_ok:
  assumes u: "uspace r m M" and f: "3 \<le> fuel"
  obtains m' M' where "unmap_user fuel r m = Inr m'" "uspace r m' M'" "upages (mem m') r = Map.empty"
    "lookup (mem m') r = (\<lambda>q. if upath (mem m) r q then None else lookup (mem m) r q)"
    "M' = (\<lambda>x. if \<exists>q e. lookup (mem m) r q = Some e \<and> is_u e \<and> Entry_paddr e = x then None else M x)"
    "\<forall>x. x \<notin> tables (mem m) r \<longrightarrow> mem m' x = mem m x" "base_addr (alc m') = base_addr (alc m)"
    "tables (mem m') r = tables (mem m) r"
proof -
  obtain m' M' where m': "unmap_user fuel r m = Inr m'" and c: "cleared r {q. \<exists>s. s \<noteq> [] \<and> q = [] @ s \<and> hd s < 512} m M m' M'"
    using unmap_walk[OF order.refl u, of "[]" r fuel] f by auto
  note C = clearedD[OF c]
  have D: "q \<in> {q. \<exists>s. s \<noteq> [] \<and> q = [] @ s \<and> hd s < 512}" if "lookup (mem m) r q = Some e" for q e
    using tb_lookup[OF that] by (cases q) (auto simp: path_def)
  have l: "lookup (mem m') r q = (if upath (mem m) r q then None else lookup (mem m) r q)" for q
    using C(4)[of q] D[of q] by (auto simp: upath_def split: if_splits)
  have M: "M' = (\<lambda>x. if \<exists>q e. lookup (mem m) r q = Some e \<and> is_u e \<and> Entry_paddr e = x then None else M x)"
    by (rule ext) (use D in \<open>auto simp: C(5)\<close>)
  have "upages (mem m') r = Map.empty" by (auto simp: upages_def l upath_def split: option.split)
  then show thesis using that[OF m' C(1) _ _ M _ C(2,7)] l C(6) by blast
qed

text \<open>C28: \<open>unmap_user\<close>, which \<open>exec\<close> calls before it loads a program, gives back exactly the user pages of
  a process: none is mapped afterwards, their frames and no others are returned to the
  allocator, the kernel's own entries (trampoline and trap frame) stay, and no page is freed
  twice. It always returns: three nested calls are enough.
\<close>

theorem unmap_user_frees:
  assumes "uspace r m M" "3 \<le> fuel"
  shows "\<exists>m' M'. unmap_user fuel r m = Inr m' \<and> uspace r m' M' \<and> upages (mem m') r = Map.empty \<and>
    (\<forall>q e. lookup (mem m) r q = Some e \<longrightarrow> \<not> is_u e \<longrightarrow> lookup (mem m') r q = Some e) \<and>
    dom M' = dom M - {Entry_paddr e |q e. lookup (mem m) r q = Some e \<and> is_u e} \<and>
    (\<forall>x. x \<notin> tables (mem m) r \<longrightarrow> mem m' x = mem m x)"
proof -
  obtain m' M' where m': "unmap_user fuel r m = Inr m'" "uspace r m' M'" "upages (mem m') r = Map.empty"
    "lookup (mem m') r = (\<lambda>q. if upath (mem m) r q then None else lookup (mem m) r q)"
    "M' = (\<lambda>x. if \<exists>q e. lookup (mem m) r q = Some e \<and> is_u e \<and> Entry_paddr e = x then None else M x)"
    "\<forall>x. x \<notin> tables (mem m) r \<longrightarrow> mem m' x = mem m x" "base_addr (alc m') = base_addr (alc m)"
    "tables (mem m') r = tables (mem m) r"
    by (rule unmap_user_ok[OF assms])
  have "lookup (mem m') r q = Some e" if "lookup (mem m) r q = Some e" "\<not> is_u e" for q e
    using that m'(4) by (auto simp: upath_def)
  moreover have "dom M' = dom M - {Entry_paddr e |q e. lookup (mem m) r q = Some e \<and> is_u e}"
    unfolding m'(5) by (auto simp: dom_def split: if_splits)
  ultimately show ?thesis using m'(1-3,6) by blast
qed

theorem unmap_user_frees_witness:
  "\<exists>m M m'. uspace 0x80000000 m M \<and> upages (mem m) 0x80000000 (vpath 0x1000) \<noteq> None \<and>
     unmap_user 3 0x80000000 m = Inr m' \<and> upages (mem m') 0x80000000 = Map.empty"
proof -
  obtain m M where u: "uspace 0x80000000 m M"
    and p: "upages (mem m) 0x80000000 = [vpath 0x1000 \<mapsto> (attr EA_URX OR attr EA_V, \<lambda>i. 7)]" by (rule one_page_space)
  then show ?thesis using unmap_user_frees[OF u, of 3] by fastforce
qed

end
