(* ===== verification/Devices.thy ===== *)
theory Devices
  imports Arch
begin

text \<open>
  The drivers that only talk to memory-mapped registers: \<open>uart.rs\<close>, the console of
  \<open>file/device.rs\<close> and \<open>plic.rs\<close>. The devices are not part of the sources: a record \<open>bus\<close> of
  read and write functions on a device state of any type is an argument of every driver
  operation, and \<open>uart_ok\<close> states what the 16550 manual says of the registers the driver
  uses.
\<close>

section \<open>Definitions\<close>

record 'd bus =
  rd8 :: "usize \<Rightarrow> 'd \<Rightarrow> 'd \<times> u8"
  wr8 :: "usize \<Rightarrow> u8 \<Rightarrow> 'd \<Rightarrow> 'd"
  rd32 :: "usize \<Rightarrow> 'd \<Rightarrow> 'd \<times> u32"
  wr32 :: "usize \<Rightarrow> u32 \<Rightarrow> 'd \<Rightarrow> 'd"

text \<open>The UART driver.\<close>

record Uart =
  base_address :: usize

definition Uart_new :: "usize \<Rightarrow> Uart" where
  "Uart_new base = \<lparr>base_address = base\<rparr>"

definition Uart_init :: "'d bus \<Rightarrow> Uart \<Rightarrow> 'd \<Rightarrow> 'd" where
  "Uart_init B u d =
     (let ptr = base_address u;
          d = wr8 B (ptr + 3) (push_bit 0 1 OR push_bit 1 1) d;
          d = wr8 B (ptr + 2) (push_bit 0 1) d;
          d = wr8 B (ptr + 1) (push_bit 0 1) d;
          divisor = (592 :: u16);
          divisor_least = (ucast (divisor AND 0xff) :: u8);
          divisor_most = (ucast (drop_bit 8 divisor) :: u8);
          (d, lcr) = rd8 B (ptr + 3) d;
          d = wr8 B (ptr + 3) (lcr OR push_bit 7 1) d;
          d = wr8 B (ptr + 0) divisor_least d;
          d = wr8 B (ptr + 1) divisor_most d
      in wr8 B (ptr + 3) lcr d)"

text \<open>
  \<open>put\<close> polls until the transmitter is empty; not returning is \<open>None\<close>.
\<close>

partial_function (option) wait_tx :: "'d bus \<Rightarrow> usize \<Rightarrow> 'd \<Rightarrow> 'd option" where
  "wait_tx B ptr d =
     (let (d', s) = rd8 B (ptr + 5) d
      in if s AND push_bit 5 1 \<noteq> 0 then Some d' else wait_tx B ptr d')"

definition put :: "'d bus \<Rightarrow> Uart \<Rightarrow> u8 \<Rightarrow> 'd \<Rightarrow> 'd option" where
  "put B u c d =
     (case wait_tx B (base_address u) d of None \<Rightarrow> None | Some d' \<Rightarrow> Some (wr8 B (base_address u + 0) c d'))"

definition get :: "'d bus \<Rightarrow> Uart \<Rightarrow> 'd \<Rightarrow> 'd \<times> u8 option" where
  "get B u d =
     (let (d1, s) = rd8 B (base_address u + 5) d
      in if s AND 1 = 0 then (d1, None)
         else let (d2, c) = rd8 B (base_address u + 0) d1 in (d2, Some c))"

primrec write_str :: "'d bus \<Rightarrow> Uart \<Rightarrow> u8 list \<Rightarrow> 'd \<Rightarrow> 'd option" where
  "write_str B u [] d = Some d"
| "write_str B u (c # cs) d = (case put B u c d of None \<Rightarrow> None | Some d' \<Rightarrow> write_str B u cs d')"

text \<open>
  \<open>c as char\<close> printed: the UTF-8 encoding of the code point. \<open>dbg\<close> is what
  \<open>process::debug\<close> prints.
\<close>

definition char_utf8 :: "u8 \<Rightarrow> u8 list" where
  "char_utf8 c = (if c < 0x80 then [c] else [0xC0 OR drop_bit 6 c, 0x80 OR (c AND 0x3f)])"

definition uartintr :: "'d bus \<Rightarrow> Uart \<Rightarrow> u8 list \<Rightarrow> 'd \<Rightarrow> 'd option" where
  "uartintr B u dbg d =
     (case get B u d of
        (d', Some c) \<Rightarrow>
          if c = 8 then write_str B u (char_utf8 8 @ [32] @ char_utf8 8) d'
          else if c = 10 \<or> c = 13 then write_str B u [10] d'
          else (case write_str B u (char_utf8 c) d' of None \<Rightarrow> None
                | Some d'' \<Rightarrow> if c = 97 then write_str B u dbg d'' else Some d'')
      | (d', None) \<Rightarrow> Some d')"

text \<open>The console device.\<close>

primrec console_read_loop :: "'d bus \<Rightarrow> Uart \<Rightarrow> nat \<Rightarrow> nat \<Rightarrow> u8 list \<Rightarrow> 'd \<Rightarrow> ('d \<times> u8 list \<times> nat) res" where
  "console_read_loop B u i 0 content d = Inr (d, content, length content)"
| "console_read_loop B u i (Suc n) content d =
     (case get B u d of
        (d', Some ch) \<Rightarrow> rbind (arr_set content i ch) (\<lambda>content'. console_read_loop B u (Suc i) n content' d')
      | (d', None) \<Rightarrow> Inr (d', content, i))"

definition Console_read :: "'d bus \<Rightarrow> Uart \<Rightarrow> u8 list \<Rightarrow> 'd \<Rightarrow> ('d \<times> u8 list \<times> i32) res" where
  "Console_read B u content d =
     rbind (console_read_loop B u 0 (length content) content d) (\<lambda>(d', content', n). Inr (d', content', of_nat n))"

definition Console_write :: "'d bus \<Rightarrow> Uart \<Rightarrow> u8 list \<Rightarrow> 'd \<Rightarrow> ('d \<times> i32) option" where
  "Console_write B u content d =
     (case write_str B u content d of None \<Rightarrow> None | Some d' \<Rightarrow> Some (d', of_nat (length content)))"

text \<open>The interrupt controller; the functions of the hart number check for overflow.\<close>

definition PLIC_PRIORITY :: usize where
  "PLIC_PRIORITY = PLIC_BASE + 0x0"

definition PLIC_PENDING :: usize where
  "PLIC_PENDING = PLIC_BASE + 0x1000"

definition PLIC_MENABLE_BASE :: usize where
  "PLIC_MENABLE_BASE = PLIC_BASE + 0x2000"

definition PLIC_SENABLE_BASE :: usize where
  "PLIC_SENABLE_BASE = PLIC_BASE + 0x2080"

definition PLIC_MPRIORITY_BASE :: usize where
  "PLIC_MPRIORITY_BASE = PLIC_BASE + 0x200000"

definition PLIC_SPRIORITY_BASE :: usize where
  "PLIC_SPRIORITY_BASE = PLIC_BASE + 0x201000"

definition PLIC_MCLAIM_BASE :: usize where
  "PLIC_MCLAIM_BASE = PLIC_BASE + 0x200004"

definition PLIC_SCLAIM_BASE :: usize where
  "PLIC_SCLAIM_BASE = PLIC_BASE + 0x201004"

definition hart_reg :: "usize \<Rightarrow> usize \<Rightarrow> usize \<Rightarrow> usize res" where
  "hart_reg base stride hart = rbind (mul_chk hart stride) (\<lambda>off. add_chk base off)"

definition PLIC_MENABLE :: "usize \<Rightarrow> usize res" where
  "PLIC_MENABLE hart = hart_reg PLIC_MENABLE_BASE 0x100 hart"

definition PLIC_SENABLE :: "usize \<Rightarrow> usize res" where
  "PLIC_SENABLE hart = hart_reg PLIC_SENABLE_BASE 0x100 hart"

definition PLIC_MPRIORITY :: "usize \<Rightarrow> usize res" where
  "PLIC_MPRIORITY hart = hart_reg PLIC_MPRIORITY_BASE 0x2000 hart"

definition PLIC_SPRIORITY :: "usize \<Rightarrow> usize res" where
  "PLIC_SPRIORITY hart = hart_reg PLIC_SPRIORITY_BASE 0x2000 hart"

definition PLIC_MCLAIM :: "usize \<Rightarrow> usize res" where
  "PLIC_MCLAIM hart = hart_reg PLIC_MCLAIM_BASE 0x2000 hart"

definition PLIC_SCLAIM :: "usize \<Rightarrow> usize res" where
  "PLIC_SCLAIM hart = hart_reg PLIC_SCLAIM_BASE 0x2000 hart"

definition UART0_IRQ :: u32 where
  "UART0_IRQ = 10"

definition VIRTIO0_IRQ :: u32 where
  "VIRTIO0_IRQ = 1"

definition Plic_next :: "'d bus \<Rightarrow> hart \<Rightarrow> 'd \<Rightarrow> ('d \<times> u32 option) res" where
  "Plic_next B h d =
     rbind (PLIC_SCLAIM (hart_id h)) (\<lambda>claim_reg.
       let (d', claim_no) = rd32 B claim_reg d
       in Inr (d', if claim_no = 0 then None else Some claim_no))"

definition Plic_complete :: "'d bus \<Rightarrow> hart \<Rightarrow> u32 \<Rightarrow> 'd \<Rightarrow> 'd res" where
  "Plic_complete B h irq d =
     rbind (PLIC_SCLAIM (hart_id h)) (\<lambda>complete_reg. Inr (wr32 B complete_reg irq d))"

text \<open>\<open>ptr.add(k)\<close> on a pointer to \<open>u32\<close> adds \<open>4 * k\<close> bytes.\<close>

definition Plic_init :: "'d bus \<Rightarrow> u32 \<Rightarrow> 'd \<Rightarrow> 'd" where
  "Plic_init B irq d = wr32 B (PLIC_BASE + 4 * ucast irq) 1 d"

definition irq_bit :: "u32 \<Rightarrow> u32 res" where
  "irq_bit irq = rif (32 \<le> unat irq) Overflow (Inr (push_bit (unat irq) 1))"

definition is_pending :: "'d bus \<Rightarrow> u32 \<Rightarrow> 'd \<Rightarrow> ('d \<times> bool) res" where
  "is_pending B irq d =
     rbind (irq_bit irq) (\<lambda>actual_id.
       let (d', pend_ids) = rd32 B PLIC_PENDING d in Inr (d', actual_id AND pend_ids \<noteq> 0))"

definition Plic_enable :: "'d bus \<Rightarrow> hart \<Rightarrow> u32 \<Rightarrow> 'd \<Rightarrow> 'd res" where
  "Plic_enable B h irq d =
     rbind (PLIC_SENABLE (hart_id h)) (\<lambda>enables.
     rbind (irq_bit irq) (\<lambda>actual_id.
       let (d', v) = rd32 B enables d in Inr (wr32 B enables (v OR actual_id) d')))"

definition set_threshold :: "'d bus \<Rightarrow> hart \<Rightarrow> u8 \<Rightarrow> 'd \<Rightarrow> 'd res" where
  "set_threshold B h tsh d =
     rbind (PLIC_SPRIORITY (hart_id h)) (\<lambda>tsh_reg. Inr (wr32 B tsh_reg (ucast (tsh AND 7)) d))"

definition set_priority :: "'d bus \<Rightarrow> hart \<Rightarrow> u32 \<Rightarrow> u8 \<Rightarrow> 'd \<Rightarrow> 'd res" where
  "set_priority B h irq prio d =
     rbind (PLIC_SPRIORITY (hart_id h)) (\<lambda>prio_reg.
       Inr (wr32 B (prio_reg + 4 * ucast irq) (ucast prio AND 7) d))"

definition plic_init :: "'d bus \<Rightarrow> 'd \<Rightarrow> 'd" where
  "plic_init B d = Plic_init B VIRTIO0_IRQ (Plic_init B UART0_IRQ d)"

definition plic_hartinit :: "'d bus \<Rightarrow> hart \<Rightarrow> 'd \<Rightarrow> 'd res" where
  "plic_hartinit B h d =
     rbind (Plic_enable B h UART0_IRQ d) (\<lambda>d.
     rbind (Plic_enable B h VIRTIO0_IRQ d) (\<lambda>d.
     rbind (set_threshold B h 0 d) (\<lambda>d.
     rbind (set_priority B h UART0_IRQ 1 d) (\<lambda>d.
       set_priority B h VIRTIO0_IRQ 1 d))))"

text \<open>
  The 16550 as the driver uses it, in terms of what was sent (\<open>out\<close>), what waits to be read
  (\<open>inp\<close>) and how many polls the transmitter still needs (\<open>busy\<close>): bit 5 of the line status
  register (offset 5) says that the transmitter is empty, bit 0 that there is data; the
  register at offset 0 sends when written and consumes one byte when read. New input may
  arrive during any access.
\<close>

definition uart_ok :: "'d bus \<Rightarrow> usize \<Rightarrow> ('d \<Rightarrow> u8 list) \<Rightarrow> ('d \<Rightarrow> u8 list) \<Rightarrow> ('d \<Rightarrow> nat) \<Rightarrow> bool" where
  "uart_ok B base out inp busy \<longleftrightarrow>
     (\<forall>d d' s. rd8 B (base + 5) d = (d', s) \<longrightarrow>
        bit s 5 = (busy d = 0) \<and> bit s 0 = (inp d \<noteq> []) \<and> out d' = out d \<and> busy d' = busy d - 1 \<and>
        (\<exists>new. inp d' = inp d @ new)) \<and>
     (\<forall>d c. out (wr8 B base c d) = out d @ [c] \<and> (\<exists>new. inp (wr8 B base c d) = inp d @ new)) \<and>
     (\<forall>d d' c. inp d \<noteq> [] \<longrightarrow> rd8 B base d = (d', c) \<longrightarrow>
        c = hd (inp d) \<and> out d' = out d \<and> (\<exists>new. inp d' = tl (inp d) @ new))"

text \<open>A concrete device, for witnesses: bytes sent, bytes to read, polls until ready.\<close>

definition uart_sim :: "(u8 list \<times> u8 list \<times> nat) bus" where
  "uart_sim = \<lparr>
     rd8 = (\<lambda>a (out, inp, busy).
       if a = UART_BASE_ADDR + 5 then
         ((out, inp, busy - 1), (if busy = 0 then 0x20 else 0) OR (if inp \<noteq> [] then 1 else 0))
       else case inp of [] \<Rightarrow> ((out, [], busy), 0) | c # cs \<Rightarrow> ((out, cs, busy), c)),
     wr8 = (\<lambda>a c (out, inp, busy). if a = UART_BASE_ADDR then (out @ [c], inp, 3) else (out, inp, busy)),
     rd32 = (\<lambda>a d. (d, 0)), wr32 = (\<lambda>a v d. d)\<rparr>"

text \<open>A bus that records the 32-bit writes, for the interrupt controller.\<close>

definition log32 :: "(usize \<times> u32) list bus" where
  "log32 = \<lparr>rd8 = (\<lambda>a d. (d, 0)), wr8 = (\<lambda>a v d. d), rd32 = (\<lambda>a d. (d, 0)), wr32 = (\<lambda>a v d. d @ [(a, v)])\<rparr>"

section \<open>The UART\<close>

lemma uart_sim_ok: "uart_ok uart_sim UART_BASE_ADDR fst (\<lambda>d. fst (snd d)) (\<lambda>d. snd (snd d))"
  by (auto simp: uart_ok_def uart_sim_def bit_simps UART_BASE_ADDR_def split: list.splits if_splits)

lemma and_push1: "(s :: u8) AND push_bit 5 1 \<noteq> 0 \<longleftrightarrow> bit s 5" "s AND 1 = 0 \<longleftrightarrow> \<not> bit s 0"
  using and_push_one[of s 5] and_push_one[of s 0] by simp_all

lemma wait_tx_ok:
  assumes "uart_ok B base out inp busy"
  shows "\<exists>d' new. wait_tx B base d = Some d' \<and> out d' = out d \<and> inp d' = inp d @ new"
proof (induction "busy d" arbitrary: d rule: less_induct)
  case less
  obtain d1 s where r: "rd8 B (base + 5) d = (d1, s)" by fastforce
  then obtain new where s: "bit s 5 = (busy d = 0)" "out d1 = out d" "busy d1 = busy d - 1" "inp d1 = inp d @ new"
    using assms unfolding uart_ok_def by blast
  show ?case
  proof (cases "busy d = 0")
    case True
    then show ?thesis using r s and_push1 by (subst wait_tx.simps) (simp add: Let_def)
  next
    case False
    then have "busy d1 < busy d" using s(3) by simp
    then obtain d' new' where "wait_tx B base d1 = Some d'" "out d' = out d1" "inp d' = inp d1 @ new'"
      using less by blast
    then show ?thesis using r s False and_push1 by (subst wait_tx.simps) (simp add: Let_def)
  qed
qed

lemma put_ok:
  assumes "uart_ok B base out inp busy" "base_address u = base"
  shows "\<exists>d' new. put B u c d = Some d' \<and> out d' = out d @ [c] \<and> inp d' = inp d @ new"
proof -
  obtain d1 new where d1: "wait_tx B base d = Some d1" "out d1 = out d" "inp d1 = inp d @ new"
    using wait_tx_ok[OF assms(1)] by blast
  obtain new' where "inp (wr8 B base c d1) = inp d1 @ new'" "out (wr8 B base c d1) = out d1 @ [c]"
    using assms(1) unfolding uart_ok_def by blast
  then show ?thesis using d1 assms(2) by (simp add: put_def)
qed

lemma write_str_ok:
  assumes "uart_ok B base out inp busy" "base_address u = base"
  shows "\<exists>d' new. write_str B u cs d = Some d' \<and> out d' = out d @ cs \<and> inp d' = inp d @ new"
proof (induction cs arbitrary: d)
  case Nil
  then show ?case by simp
next
  case (Cons c cs)
  obtain d1 new where d1: "put B u c d = Some d1" "out d1 = out d @ [c]" "inp d1 = inp d @ new"
    using put_ok[OF assms] by blast
  then show ?case using Cons.IH[of d1] by auto
qed

lemma get_ok:
  assumes "uart_ok B base out inp busy" "base_address u = base" "get B u d = (d', r)"
  shows "out d' = out d" "inp d = [] \<Longrightarrow> r = None \<and> (\<exists>new. inp d' = new)"
    "inp d \<noteq> [] \<Longrightarrow> r = Some (hd (inp d)) \<and> (\<exists>new. inp d' = tl (inp d) @ new)"
proof -
  obtain d1 s where r: "rd8 B (base + 5) d = (d1, s)" by fastforce
  then obtain new where s: "bit s 0 = (inp d \<noteq> [])" "out d1 = out d" "inp d1 = inp d @ new"
    using assms(1) unfolding uart_ok_def by blast
  obtain d2 c where r2: "rd8 B base d1 = (d2, c)" by fastforce
  have g: "get B u d = (if inp d = [] then (d1, None) else (d2, Some c))"
    using r r2 s(1) assms(2) and_push1(2) by (simp add: get_def Let_def)
  show "inp d = [] \<Longrightarrow> r = None \<and> (\<exists>new. inp d' = new)" using g assms(3) by simp
  have ne: "c = hd (inp d1) \<and> out d2 = out d1 \<and> (\<exists>new'. inp d2 = tl (inp d1) @ new')" if "inp d \<noteq> []"
  proof -
    have "inp d1 \<noteq> []" using s(3) that by simp
    then show ?thesis using assms(1) r2 unfolding uart_ok_def by blast
  qed
  show "out d' = out d" using g assms(3) s(2) ne by (auto split: if_splits)
  show "r = Some (hd (inp d)) \<and> (\<exists>new. inp d' = tl (inp d) @ new)" if "inp d \<noteq> []"
    using g assms(3) ne[OF that] s(3) that by auto
qed

lemma console_read_loop_ok:
  assumes "uart_ok B base out inp busy" "base_address u = base" "i + n = length content"
  shows "\<exists>d' content' k. console_read_loop B u i n content d = Inr (d', content', k) \<and> i \<le> k \<and> k \<le> length content \<and>
    out d' = out d \<and> take i content' = take i content \<and> drop k content' = drop k content \<and> length content' = length content \<and>
    (\<exists>new. drop i (take k content') @ inp d' = inp d @ new) \<and> (k = length content \<or> length (inp d) \<le> k - i)"
  using assms(3)
proof (induction n arbitrary: i content d)
  case 0
  then show ?case by auto
next
  case (Suc n)
  obtain d1 r where g: "get B u d = (d1, r)" by fastforce
  note k = get_ok[OF assms(1,2) g]
  show ?case
  proof (cases "inp d = []")
    case True
    then show ?thesis using g k(1,2) Suc.prems by (intro exI[of _ d1] exI[of _ content] exI[of _ i]) auto
  next
    case False
    then obtain new where r: "r = Some (hd (inp d))" "inp d1 = tl (inp d) @ new" using k(3) by blast
    let ?c = "content[i := hd (inp d)]"
    have i: "i < length content" "Suc i + n = length ?c" using Suc.prems by simp_all
    obtain d' content' k' new' where IH: "console_read_loop B u (Suc i) n ?c d1 = Inr (d', content', k')" "Suc i \<le> k'" "k' \<le> length ?c"
      "out d' = out d1" "take (Suc i) content' = take (Suc i) ?c" "drop k' content' = drop k' ?c" "length content' = length ?c"
      "drop (Suc i) (take k' content') @ inp d' = inp d1 @ new'" "k' = length ?c \<or> length (inp d1) \<le> k' - Suc i"
      using Suc.IH[OF i(2), of d1] by blast
    have ti: "take i content' = take i content" "content' ! i = hd (inp d)"
    proof -
      have "take i (take (Suc i) content') = take i (take (Suc i) ?c)" using IH(5) by simp
      then show "take i content' = take i content" by simp
      have "take (Suc i) content' ! i = take (Suc i) ?c ! i" using IH(5) by simp
      then show "content' ! i = hd (inp d)" using i(1) by simp
    qed
    have dk: "drop k' content' = drop k' content" using IH(2,6) by simp
    have "drop i (take k' content') = hd (inp d) # drop (Suc i) (take k' content')"
      using IH(2,3,7) i(1) ti(2) by (simp add: Cons_nth_drop_Suc[symmetric])
    then have "drop i (take k' content') @ inp d' = (hd (inp d) # tl (inp d)) @ new @ new'"
      using IH(8) r(2) by simp
    then have st: "\<exists>new. drop i (take k' content') @ inp d' = inp d @ new" using False by (metis list.collapse)
    have le: "k' = length content \<or> length (inp d) \<le> k' - i"
      using IH(2,9) r(2) False by (cases "inp d") auto
    show ?thesis
      using g r(1) i(1) IH ti(1) dk st le k(1) by (intro exI[of _ d'] exI[of _ content'] exI[of _ k']) auto
  qed
qed

section \<open>Properties\<close>



text \<open>C21: Reading from the console never blocks and never panics: it fills the buffer with the first bytes
  of the input in order, leaves the rest of the buffer as it was and the rest of the input to
  the next reader, and stops short of the end of the buffer only when all input that was there
  at the call has been read.
\<close>

theorem console_read_takes_input:
  assumes "uart_ok B (base_address u) out inp busy"
  shows "\<exists>d' content' k new. Console_read B u content d = Inr (d', content', of_nat k) \<and> k \<le> length content \<and>
    length content' = length content \<and> drop k content' = drop k content \<and> take k content' @ inp d' = inp d @ new \<and>
    (k = length content \<or> length (inp d) \<le> k) \<and> out d' = out d"
proof -
  obtain d' content' k where "console_read_loop B u 0 (length content) content d = Inr (d', content', k)" "k \<le> length content"
    "out d' = out d" "drop k content' = drop k content" "length content' = length content"
    "\<exists>new. take k content' @ inp d' = inp d @ new" "k = length content \<or> length (inp d) \<le> k"
    using console_read_loop_ok[OF assms refl, of 0 "length content" content d] by auto
  then show ?thesis by (auto simp: Console_read_def)
qed

theorem console_read_takes_input_witness:
  "\<exists>d' content' k new. Console_read uart_sim (Uart_new UART_BASE_ADDR) [0, 0, 0] ([], [65, 66], 0) = Inr (d', content', of_nat k) \<and>
     take k content' @ fst (snd d') = [65, 66] @ new \<and> (k = 3 \<or> 2 \<le> k)"
proof -
  let ?u = "Uart_new UART_BASE_ADDR"
  have "uart_ok uart_sim (base_address ?u) fst (\<lambda>d. fst (snd d)) (\<lambda>d. snd (snd d))"
    using uart_sim_ok by (simp add: Uart_new_def)
  note r = console_read_takes_input[OF this]
  define d0 :: "u8 list \<times> u8 list \<times> nat" where "d0 = ([], [65, 66], 0)"
  obtain d' content' k new where k: "Console_read uart_sim ?u [0, 0, 0] d0 = Inr (d', content', of_nat k)"
    "take k content' @ fst (snd d') = fst (snd d0) @ new" "k = length [0 :: u8, 0, 0] \<or> length (fst (snd d0)) \<le> k"
    using r[of "[0, 0, 0]" d0] by blast
  have "take k content' @ fst (snd d') = [65, 66] @ new" "k = 3 \<or> 2 \<le> k" using k(2,3) by (auto simp: d0_def)
  then show ?thesis using k(1) unfolding d0_def by blast
qed

lemma hart_reg_ok: "unat h < 2 ^ 32 \<Longrightarrow> unat base < 2 ^ 40 \<Longrightarrow> unat stride \<le> 0x2000 \<Longrightarrow> hart_reg base stride h = Inr (base + h * stride)"
proof -
  assume h: "unat h < 2 ^ 32" "unat base < 2 ^ 40" "unat stride \<le> 0x2000"
  then have "unat h * unat stride \<le> 2 ^ 32 * 0x2000" by (intro mult_mono) auto
  then have le: "unat h * unat stride \<le> 2 ^ 45" by simp
  then have m: "mul_chk h stride = Inr (h * stride)" by simp
  have "unat (h * stride) \<le> 2 ^ 45" using le by (simp add: unat_word_ariths)
  then have "add_chk base (h * stride) = Inr (base + h * stride)" using h(2) by simp
  then show ?thesis using m by (simp add: hart_reg_def)
qed



end
