(* ===== verification/Virtio.thy ===== *)
theory Virtio
  imports Page Devices Bytes
begin

text \<open>
  The block device driver \<open>virtio.rs\<close>: the descriptor table, the rings, a request from its
  submission to its completion, and the interrupt handler. The device is not part of the
  sources; \<open>disk_step\<close> lets it take requests off the available ring and complete them in any
  order, as the virtio specification allows, with a disk of arbitrary contents.
\<close>

section \<open>Definitions\<close>

text \<open>Registers and feature bits.\<close>

datatype VIRTIO_MMIO = MAGIC_VALUE | VERSION | DEVICE_ID | VENDOR_ID | DEVICE_FEATURES | DRIVER_FEATURES
  | GUEST_PAGE_SIZE | QUEUE_SEL | QUEUE_NUM_MAX | QUEUE_NUM | QUEUE_ALIGN | QUEUE_PFN | QUEUE_READY
  | QUEUE_NOTIFY | INTERRUPT_STATUS | INTERRUPT_ACK | STATUS

primrec mmio_offset :: "VIRTIO_MMIO \<Rightarrow> usize" where
  "mmio_offset MAGIC_VALUE = 0x0"
| "mmio_offset VERSION = 0x4"
| "mmio_offset DEVICE_ID = 0x8"
| "mmio_offset VENDOR_ID = 0xc"
| "mmio_offset DEVICE_FEATURES = 0x10"
| "mmio_offset DRIVER_FEATURES = 0x20"
| "mmio_offset GUEST_PAGE_SIZE = 0x28"
| "mmio_offset QUEUE_SEL = 0x30"
| "mmio_offset QUEUE_NUM_MAX = 0x34"
| "mmio_offset QUEUE_NUM = 0x38"
| "mmio_offset QUEUE_ALIGN = 0x3c"
| "mmio_offset QUEUE_PFN = 0x40"
| "mmio_offset QUEUE_READY = 0x44"
| "mmio_offset QUEUE_NOTIFY = 0x50"
| "mmio_offset INTERRUPT_STATUS = 0x60"
| "mmio_offset INTERRUPT_ACK = 0x64"
| "mmio_offset STATUS = 0x70"

definition mmio_val :: "VIRTIO_MMIO \<Rightarrow> usize" where
  "mmio_val r = mmio_offset r + VIRTIO_MMIO_BASE"

datatype VIRTIO_CONFIG_S = ACKNOWLDGE | DRIVER | DRIVER_OK | FEATURES_OK

primrec config_val :: "VIRTIO_CONFIG_S \<Rightarrow> u32" where
  "config_val ACKNOWLDGE = 1"
| "config_val DRIVER = push_bit 1 1"
| "config_val DRIVER_OK = push_bit 2 1"
| "config_val FEATURES_OK = push_bit 3 1"

datatype VIRTIO_FEATURE = BLK_F_RO | BLK_F_SCSI | BLK_F_CONFIG_WCE | BLK_F_MQ | F_ANY_LAYOUT
  | RING_F_INDIRECT_DESC | RING_F_EVENT_IDX

primrec feature_no :: "VIRTIO_FEATURE \<Rightarrow> nat" where
  "feature_no BLK_F_RO = 5"
| "feature_no BLK_F_SCSI = 7"
| "feature_no BLK_F_CONFIG_WCE = 11"
| "feature_no BLK_F_MQ = 12"
| "feature_no F_ANY_LAYOUT = 27"
| "feature_no RING_F_INDIRECT_DESC = 28"
| "feature_no RING_F_EVENT_IDX = 29"

definition feature_bit :: "VIRTIO_FEATURE \<Rightarrow> u32" where
  "feature_bit f = push_bit (feature_no f) 1"

text \<open>Rings and requests.\<close>

definition DESC_NUM :: nat where
  "DESC_NUM = 8"

record VRingDesc =
  d_addr :: usize
  d_len :: u32
  d_flags :: u16
  d_next :: u16

definition VRingDesc_new :: VRingDesc where
  "VRingDesc_new = \<lparr>d_addr = 0, d_len = 0, d_flags = 0, d_next = 0\<rparr>"

definition VRING_DESC_F_NEXT :: u16 where
  "VRING_DESC_F_NEXT = 1"

definition VRING_DESC_F_WRITE :: u16 where
  "VRING_DESC_F_WRITE = 2"

record VRingUsedElem =
  ue_id :: u32
  ue_len :: u32

definition VRingUsedElem_new :: VRingUsedElem where
  "VRingUsedElem_new = \<lparr>ue_id = 0, ue_len = 0\<rparr>"

definition VIRTIO_BLK_T_IN :: u32 where
  "VIRTIO_BLK_T_IN = 0"

definition VIRTIO_BLK_T_OUT :: u32 where
  "VIRTIO_BLK_T_OUT = 1"

record UsedArea =
  ua_flags :: u16
  ua_id :: u16
  elems :: "VRingUsedElem list"

definition UsedArea_new :: UsedArea where
  "UsedArea_new = \<lparr>ua_flags = 0, ua_id = 0, elems = replicate DESC_NUM VRingUsedElem_new\<rparr>"

definition BSIZE :: usize where
  "BSIZE = 1024"

record Buf =
  b_valid :: bool
  b_disk :: i32
  b_dev :: u32
  blockno :: u32
  b_data :: "u8 list"

definition Buf_new :: Buf where
  "Buf_new = \<lparr>b_valid = False, b_disk = 0, b_dev = 0, blockno = 0, b_data = replicate (unat BSIZE) 0\<rparr>"

text \<open>A box: its address and what it holds.\<close>

record 'a Box =
  box_addr :: usize
  unbox :: 'a

record InflightOp =
  op_buf :: "Buf Box"
  op_status :: u8

definition AVAIL_SZ :: usize where
  "AVAIL_SZ = (PAGE_SIZE - of_nat DESC_NUM * 16) div 2"

record VirtIOData =
  desc :: "VRingDesc list"
  avail :: "u16 list"
  used :: "UsedArea list"
  free :: "bool list"
  used_idx :: u16
  info :: "InflightOp option list"

record BlkOutHdr =
  blk_type :: u32
  reserved :: u32
  sector :: usize

definition VirtIO_new :: VirtIOData where
  "VirtIO_new = \<lparr>desc = replicate DESC_NUM VRingDesc_new, avail = replicate (unat AVAIL_SZ) 0,
     used = replicate DESC_NUM UsedArea_new, free = replicate DESC_NUM False, used_idx = 0,
     info = replicate DESC_NUM None\<rparr>"

text \<open>
  Addresses the compiler chooses: \<open>&free[0]\<close>, a sleep channel, and the status byte of each slot
  of \<open>info\<close>. The state of the driver: its data, the request headers on the kernel stacks by
  address, the channels passed to \<open>wakeup\<close> and the values written to the register
  \<open>QUEUE_NOTIFY\<close>, both the latest first.
\<close>

record vaddrs =
  free0 :: usize
  status_addr :: "nat \<Rightarrow> usize"

record vst =
  vio :: VirtIOData
  hdrs :: "usize \<rightharpoonup> BlkOutHdr"
  woken :: "usize list"
  notified :: "u32 list"

definition free_desc :: "vaddrs \<Rightarrow> nat \<Rightarrow> vst \<Rightarrow> vst res" where
  "free_desc A i s =
     rif (DESC_NUM \<le> i) (Panic ''invalid desc'')
    (rbind (arr_get (free (vio s)) i) (\<lambda>f.
       rif f (Panic ''already free'')
      (rbind (arr_get (desc (vio s)) i) (\<lambda>d.
       rbind (arr_set (desc (vio s)) i (d\<lparr>d_addr := 0\<rparr>)) (\<lambda>ds.
       rbind (arr_set (free (vio s)) i True) (\<lambda>fs.
         Inr (s\<lparr>vio := (vio s)\<lparr>desc := ds, free := fs\<rparr>, woken := free0 A # woken s\<rparr>)))))))"

definition alloc_desc :: "vst \<Rightarrow> vst \<times> nat option" where
  "alloc_desc s =
     (case first_slot (\<lambda>b. b) 0 (take DESC_NUM (free (vio s))) of
        None \<Rightarrow> (s, None)
      | Some i \<Rightarrow> (s\<lparr>vio := (vio s)\<lparr>free := (free (vio s))[i := False]\<rparr>\<rparr>, Some i))"

primrec free_descs :: "vaddrs \<Rightarrow> nat list \<Rightarrow> vst \<Rightarrow> vst res" where
  "free_descs A [] s = Inr s"
| "free_descs A (i # is) s = rbind (free_desc A i s) (free_descs A is)"

primrec alloc_descs :: "vaddrs \<Rightarrow> nat \<Rightarrow> nat list \<Rightarrow> vst \<Rightarrow> (vst \<times> nat list option) res" where
  "alloc_descs A 0 idx s = Inr (s, Some idx)"
| "alloc_descs A (Suc n) idx s =
     (case alloc_desc s of
        (s', Some x) \<Rightarrow> alloc_descs A n (idx @ [x]) s'
      | (s', None) \<Rightarrow> rbind (free_descs A idx s') (\<lambda>s''. Inr (s'', None)))"

definition alloc3_desc :: "vaddrs \<Rightarrow> vst \<Rightarrow> (vst \<times> nat list option) res" where
  "alloc3_desc A s = alloc_descs A 3 [] s"

definition used_descs :: "vst \<Rightarrow> nat" where
  "used_descs s = length (filter Not (free (vio s)))"

lemma filter_Not_upd: "i < length xs \<Longrightarrow> \<not> xs ! i \<Longrightarrow> length (filter Not (xs[i := True])) < length (filter Not xs)"
proof (induction xs arbitrary: i)
  case Nil
  then show ?case by simp
next
  case (Cons x xs)
  then show ?case by (cases i) auto
qed

lemma free_desc_used: "free_desc A i s = Inr s' \<Longrightarrow> used_descs s' < used_descs s"
  by (auto simp: free_desc_def used_descs_def arr_get_eq_Inr arr_set_eq_Inr intro!: filter_Not_upd)

function free_chain :: "vaddrs \<Rightarrow> nat \<Rightarrow> vst \<Rightarrow> vst res" where
  "free_chain A i s =
     rbind (free_desc A i s) (\<lambda>s'.
     rbind (arr_get (desc (vio s')) i) (\<lambda>d.
       if d_flags d AND VRING_DESC_F_NEXT \<noteq> 0 then free_chain A (unat (d_next d)) s' else Inr s'))"
  by pat_completeness auto

termination
  by (relation "measure (\<lambda>(A, i, s). used_descs s)") (auto dest: free_desc_used)

declare free_chain.simps [simp del]

text \<open>\<open>VirtIO::init\<close>; \<open>vio_addr\<close> is the address of the driver's data.\<close>

definition mmio_rd :: "'d bus \<Rightarrow> VIRTIO_MMIO \<Rightarrow> 'd \<Rightarrow> 'd \<times> u32" where
  "mmio_rd B r d = rd32 B (mmio_val r) d"

definition mmio_wr :: "'d bus \<Rightarrow> VIRTIO_MMIO \<Rightarrow> u32 \<Rightarrow> 'd \<Rightarrow> 'd" where
  "mmio_wr B r v d = wr32 B (mmio_val r) v d"

definition VirtIO_init :: "'d bus \<Rightarrow> usize \<Rightarrow> VirtIOData \<Rightarrow> 'd \<Rightarrow> ('d \<times> VirtIOData) res" where
  "VirtIO_init B vio_addr v d =
     (let (d, magic) = mmio_rd B MAGIC_VALUE d in
      rif (magic \<noteq> 0x74726976) (Panic ''cannot find virtio disk: magic value'')
      (let (d, ver) = mmio_rd B VERSION d in
      rif (ver \<noteq> 1) (Panic ''cannot find virtio disk: version'')
      (let (d, dev) = mmio_rd B DEVICE_ID d in
      rif (dev \<noteq> 2) (Panic ''cannot find virtio disk: device id'')
      (let (d, vendor) = mmio_rd B VENDOR_ID d in
      rif (vendor \<noteq> 0x554d4551) (Panic ''cannot find virtio disk: vendor id'')
      (let st = 0 OR config_val ACKNOWLDGE;
           d = mmio_wr B STATUS st d;
           st = st OR config_val DRIVER;
           d = mmio_wr B STATUS st d;
           (d, features) = mmio_rd B DEVICE_FEATURES d;
           features = features AND NOT (feature_bit BLK_F_RO);
           features = features AND NOT (feature_bit BLK_F_SCSI);
           features = features AND NOT (feature_bit BLK_F_CONFIG_WCE);
           features = features AND NOT (feature_bit BLK_F_MQ);
           features = features AND NOT (feature_bit F_ANY_LAYOUT);
           features = features AND NOT (feature_bit RING_F_EVENT_IDX);
           features = features AND NOT (feature_bit RING_F_INDIRECT_DESC);
           d = mmio_wr B DEVICE_FEATURES features d;
           st = st OR config_val FEATURES_OK;
           d = mmio_wr B STATUS st d;
           st = st OR config_val DRIVER_OK;
           d = mmio_wr B STATUS st d;
           d = mmio_wr B GUEST_PAGE_SIZE (ucast PAGE_SIZE) d;
           d = mmio_wr B QUEUE_SEL 0 d;
           (d, mx) = mmio_rd B QUEUE_NUM_MAX d
       in rif (mx = 0) (Panic ''virtio disk has no queue'')
         (rif (mx < of_nat DESC_NUM) (Panic ''virtio disk max queue too short {} < {}'')
           (let d = mmio_wr B QUEUE_NUM (of_nat DESC_NUM) d;
                d = mmio_wr B QUEUE_PFN (ucast (drop_bit PAGE_ORDER vio_addr)) d
            in rbind (rfor 0 DESC_NUM (\<lambda>i fs. arr_set fs i True) (free v)) (\<lambda>fs.
                 Inr (d, v\<lparr>free := fs\<rparr>)))))))))"

text \<open>
  A request. \<open>rw\<close> holds the lock except while it sleeps, so it is a machine with a state for
  each place where it can sleep: waiting for descriptors, waiting for the disk. The header is
  a local variable, at the address \<open>ha\<close> on the caller's kernel stack.
\<close>

datatype rw_state =
    RwAlloc "Buf Box" bool usize
  | RwWait nat
  | RwDone "Buf Box"

definition rw_sector :: "Buf \<Rightarrow> usize res" where
  "rw_sector b = mul_chk (ucast (blockno b)) (BSIZE div 512)"

definition rw_submit :: "vaddrs \<Rightarrow> Buf Box \<Rightarrow> bool \<Rightarrow> usize \<Rightarrow> usize \<Rightarrow> nat list \<Rightarrow> vst \<Rightarrow> vst res" where
  "rw_submit A b wr ha sec idx s =
     (let v = vio s; i0 = idx ! 0; i1 = idx ! 1; i2 = idx ! 2;
          hdr = \<lparr>blk_type = (if wr then VIRTIO_BLK_T_OUT else VIRTIO_BLK_T_IN), reserved = 0, sector = sec\<rparr>
      in rbind (arr_get (desc v) i0) (\<lambda>desc0.
         rbind (arr_set (desc v) i0 (desc0\<lparr>d_addr := ha, d_len := 16, d_flags := VRING_DESC_F_NEXT, d_next := of_nat i1\<rparr>)) (\<lambda>ds.
         rbind (arr_get ds i1) (\<lambda>desc1.
         rbind (arr_set ds i1 (desc1\<lparr>d_addr := box_addr b + 16, d_len := ucast BSIZE,
             d_flags := (if wr then 0 else VRING_DESC_F_WRITE) OR VRING_DESC_F_NEXT, d_next := of_nat i2\<rparr>)) (\<lambda>ds.
         let op = \<lparr>op_buf = b\<lparr>unbox := (unbox b)\<lparr>b_disk := 1\<rparr>\<rparr>, op_status = 0\<rparr>
         in rbind (arr_set (info v) i0 (Some op)) (\<lambda>infos.
            rbind (arr_get ds i2) (\<lambda>desc2.
            rbind (arr_set ds i2 (desc2\<lparr>d_addr := status_addr A i0, d_len := 1, d_flags := VRING_DESC_F_WRITE, d_next := 0\<rparr>)) (\<lambda>ds.
            rbind (arr_get (avail v) 1) (\<lambda>av.
            rbind (arr_set (avail v) (2 + unat av mod DESC_NUM) (of_nat i0)) (\<lambda>avs.
            rbind (arr_get avs 1) (\<lambda>av.
            rbind (add_chk av 1) (\<lambda>av'.
            rbind (arr_set avs 1 av') (\<lambda>avs.
              Inr (s\<lparr>vio := v\<lparr>desc := ds, info := infos, avail := avs\<rparr>, hdrs := (hdrs s)(ha \<mapsto> hdr), notified := 0 # notified s\<rparr>))))))))))))))"

definition rw_wait :: "vaddrs \<Rightarrow> nat \<Rightarrow> vst \<Rightarrow> (vst \<times> rw_state \<times> usize option) res" where
  "rw_wait A i0 s =
     rbind (arr_get (info (vio s)) i0) (\<lambda>r.
     case r of
       None \<Rightarrow> Inl Unwrap
     | Some op \<Rightarrow>
         if b_disk (unbox (op_buf op)) = 1 then Inr (s, RwWait i0, Some (box_addr (op_buf op)))
         else rbind (arr_set (info (vio s)) i0 None) (\<lambda>infos.
              rbind (free_chain A i0 (s\<lparr>vio := (vio s)\<lparr>info := infos\<rparr>\<rparr>)) (\<lambda>s'.
                Inr (s', RwDone (op_buf op), None))))"

fun rw_run :: "vaddrs \<Rightarrow> rw_state \<Rightarrow> vst \<Rightarrow> (vst \<times> rw_state \<times> usize option) res" where
  "rw_run A (RwAlloc b wr ha) s =
     rbind (rw_sector (unbox b)) (\<lambda>sec.
     rbind (alloc3_desc A s) (\<lambda>(s1, r).
     case r of
       None \<Rightarrow> Inr (s1, RwAlloc b wr ha, Some (free0 A))
     | Some idx \<Rightarrow> rbind (rw_submit A b wr ha sec idx s1) (rw_wait A (idx ! 0))))"
| "rw_run A (RwWait i0) s = rw_wait A i0 s"
| "rw_run A (RwDone b) s = Inr (s, RwDone b, None)"

text \<open>\<open>read\<close> boxes a new buffer; \<open>write\<close> submits the caller's.\<close>

definition VirtIO_read :: "u32 \<Rightarrow> u32 \<Rightarrow> usize \<Rightarrow> kmem \<Rightarrow> (kmem \<times> rw_state) res" where
  "VirtIO_read dev bno ha m =
     rbind (box_frame (\<lambda>_. 0) m) (\<lambda>(m', a).
       Inr (m', RwAlloc \<lparr>box_addr = a, unbox = Buf_new\<lparr>b_dev := dev, blockno := bno\<rparr>\<rparr> False ha))"

definition VirtIO_write :: "Buf Box \<Rightarrow> usize \<Rightarrow> rw_state" where
  "VirtIO_write b ha = RwAlloc b True ha"

text \<open>The interrupt handler.\<close>

definition intr_one :: "vst \<Rightarrow> vst res" where
  "intr_one s =
     (let v = vio s in
      rbind (arr_get (used v) 0) (\<lambda>u.
      rbind (arr_get (elems u) (unat (used_idx v))) (\<lambda>e.
      rbind (arr_get (info v) (unat (ue_id e))) (\<lambda>r.
      case r of
        None \<Rightarrow> Inl (Panic ''invalid id'')
      | Some op \<Rightarrow>
          rif (op_status op \<noteq> 0) (Panic ''virtio_disk_intr status status={} id={}'')
         (let b = op_buf op; b' = b\<lparr>unbox := (unbox b)\<lparr>b_disk := 0\<rparr>\<rparr>
          in rbind (arr_set (info v) (unat (ue_id e)) (Some (op\<lparr>op_buf := b'\<rparr>))) (\<lambda>infos.
             rbind (add_chk (used_idx v) 1) (\<lambda>ui.
               Inr (s\<lparr>vio := v\<lparr>info := infos, used_idx := of_nat (unat ui mod DESC_NUM)\<rparr>,
                      woken := box_addr b # woken s\<rparr>))))))))"

definition intr_pending :: "vst \<Rightarrow> nat" where
  "intr_pending s = (unat (ua_id (used (vio s) ! 0)) mod 8 + 8 - unat (used_idx (vio s)) mod 8) mod 8"

lemma mod8_step:
  assumes "a mod 8 \<noteq> (b :: nat) mod 8"
  shows "(b mod 8 + 8 - Suc a mod 8 mod 8) mod 8 < (b mod 8 + 8 - a mod 8) mod 8"
proof -
  define x y where "x = a mod 8" and "y = b mod 8"
  have xy: "x < 8" "y < 8" "x \<noteq> y" using assms by (simp_all add: x_def y_def)
  have s: "Suc a mod 8 = (if x = 7 then 0 else Suc x)" by (simp add: mod_Suc x_def)
  have d: "(y + 8 - z) mod 8 = (if z \<le> y then y - z else y + 8 - z)" if "z < 8" for z
    using that xy(2) by (auto simp: le_mod_geq)
  show ?thesis
    unfolding s x_def[symmetric] y_def[symmetric] using xy d[of x] d[of "Suc x"] d[of 0]
    by (cases "x = 7") (auto split: if_splits)
qed

lemma intr_one_pending:
  assumes "intr_one s = Inr s'" "unat (used_idx (vio s)) mod 8 \<noteq> unat (ua_id (used (vio s) ! 0)) mod 8"
  shows "intr_pending s' < intr_pending s"
proof -
  from assms(1) have u: "used (vio s') = used (vio s)" "\<exists>ui. add_chk (used_idx (vio s)) 1 = Inr ui \<and>
      used_idx (vio s') = of_nat (unat ui mod DESC_NUM)"
    by (auto simp: intr_one_def Let_def split: option.splits)
  then have "unat (used_idx (vio s')) = Suc (unat (used_idx (vio s))) mod 8"
    by (auto dest!: add_chk_InrD(2) simp: DESC_NUM_def unat_of_nat)
  then show ?thesis using mod8_step[OF assms(2)] u(1) by (simp add: intr_pending_def)
qed

function virtiointr :: "vst \<Rightarrow> vst res" where
  "virtiointr s =
     (if unat (used_idx (vio s)) mod DESC_NUM \<noteq> unat (ua_id (used (vio s) ! 0)) mod DESC_NUM
      then rbind (intr_one s) virtiointr
      else Inr s)"
  by pat_completeness auto

termination
  by (relation "measure intr_pending") (auto simp: DESC_NUM_def dest: intr_one_pending)

declare virtiointr.simps [simp del]

text \<open>
  The system of driver and device. \<open>last_avail\<close> and \<open>taken\<close> are the device's: how far it has
  read the available ring, and the requests it is working on. \<open>reqs\<close> remembers, for the
  statements about it, which requests are in flight: the head of the chain with the other two
  descriptors, the block, the addresses of the header and of the buffer.
\<close>

type_synonym req = "nat \<times> nat \<times> u32 \<times> usize \<times> usize"

record vsys =
  drv :: vst
  last_avail :: u16
  taken :: "nat set"
  reqs :: "nat \<rightharpoonup> req"

definition disk_block :: "(nat \<Rightarrow> u8) \<Rightarrow> usize \<Rightarrow> u8 list" where
  "disk_block D sec = map (\<lambda>j. D (512 * unat sec + j)) [0..<unat BSIZE]"

fun chain_of :: "nat \<Rightarrow> req \<Rightarrow> nat set" where
  "chain_of h (i1, i2, bno, ha, ba) = {h, i1, i2}"

fun req_bno :: "req \<Rightarrow> u32" where
  "req_bno (i1, i2, bno, ha, ba) = bno"

fun req_ha :: "req \<Rightarrow> usize" where
  "req_ha (i1, i2, bno, ha, ba) = ha"

fun req_ba :: "req \<Rightarrow> usize" where
  "req_ba (i1, i2, bno, ha, ba) = ba"

text \<open>
  The steps. A caller submits a read of a new buffer, or finds no descriptors and sleeps; the
  device takes the next request off the available ring; it completes one it has taken, in
  any order, by following the descriptors: it finds the header, fills the buffer, writes the
  status byte and appends to the used ring; the interrupt handler runs; a caller that was
  woken finishes.
\<close>

inductive disk_step :: "vaddrs \<Rightarrow> (nat \<Rightarrow> u8) \<Rightarrow> vsys \<Rightarrow> vsys \<Rightarrow> bool" for A :: vaddrs and D :: "nat \<Rightarrow> u8" where
  submit: "rw_run A (RwAlloc b False ha) (drv y) = Inr (s', RwWait h, c) \<Longrightarrow>
    (\<forall>r\<in>ran (reqs y). req_ha r \<noteq> ha \<and> req_ba r \<noteq> box_addr b) \<Longrightarrow> length (b_data (unbox b)) = unat BSIZE \<Longrightarrow>
    i1 = unat (d_next (desc (vio s') ! h)) \<Longrightarrow> i2 = unat (d_next (desc (vio s') ! i1)) \<Longrightarrow>
    disk_step A D y (y\<lparr>drv := s', reqs := (reqs y)(h \<mapsto> (i1, i2, blockno (unbox b), ha, box_addr b))\<rparr>)"
| full: "rw_run A (RwAlloc b False ha) (drv y) = Inr (s', RwAlloc b False ha, c) \<Longrightarrow>
    disk_step A D y (y\<lparr>drv := s'\<rparr>)"
| take: "last_avail y \<noteq> avail (vio (drv y)) ! 1 \<Longrightarrow>
    h = unat (avail (vio (drv y)) ! (2 + unat (last_avail y) mod DESC_NUM)) \<Longrightarrow>
    disk_step A D y (y\<lparr>last_avail := last_avail y + 1, taken := insert h (taken y)\<rparr>)"
| complete: "h \<in> taken y \<Longrightarrow> v = vio (drv y) \<Longrightarrow>
    d0 = desc v ! h \<Longrightarrow> d1 = desc v ! unat (d_next d0) \<Longrightarrow> d2 = desc v ! unat (d_next d1) \<Longrightarrow>
    hdrs (drv y) (d_addr d0) = Some hdr \<Longrightarrow> blk_type hdr = VIRTIO_BLK_T_IN \<Longrightarrow>
    i < DESC_NUM \<Longrightarrow> info v ! i = Some op \<Longrightarrow> box_addr (op_buf op) + 16 = d_addr d1 \<Longrightarrow> d_len d1 = ucast BSIZE \<Longrightarrow>
    op' = op\<lparr>op_buf := (op_buf op)\<lparr>unbox := (unbox (op_buf op))\<lparr>b_data := disk_block D (sector hdr)\<rparr>\<rparr>\<rparr> \<Longrightarrow>
    j < DESC_NUM \<Longrightarrow> status_addr A j = d_addr d2 \<Longrightarrow> (info v)[i := Some op'] ! j = Some opj \<Longrightarrow>
    infos = (info v)[i := Some op', j := Some (opj\<lparr>op_status := 0\<rparr>)] \<Longrightarrow>
    u = used v ! 0 \<Longrightarrow>
    u' = u\<lparr>elems := (elems u)[unat (ua_id u) mod DESC_NUM := \<lparr>ue_id = of_nat h, ue_len = ucast BSIZE\<rparr>], ua_id := ua_id u + 1\<rparr> \<Longrightarrow>
    disk_step A D y (y\<lparr>drv := (drv y)\<lparr>vio := v\<lparr>info := infos, used := (used v)[0 := u']\<rparr>\<rparr>, taken := taken y - {h}\<rparr>)"
| intr: "virtiointr (drv y) = Inr s' \<Longrightarrow> disk_step A D y (y\<lparr>drv := s'\<rparr>)"
| finish: "reqs y h \<noteq> None \<Longrightarrow> rw_run A (RwWait h) (drv y) = Inr (s', RwDone b, None) \<Longrightarrow>
    disk_step A D y (y\<lparr>drv := s', reqs := (reqs y)(h := None)\<rparr>)"

definition disk_init :: vsys where
  "disk_init = \<lparr>drv = \<lparr>vio = VirtIO_new\<lparr>free := replicate DESC_NUM True\<rparr>, hdrs = Map.empty, woken = [], notified = []\<rparr>,
     last_avail = 0, taken = {}, reqs = Map.empty\<rparr>"

inductive disk_reach :: "vaddrs \<Rightarrow> (nat \<Rightarrow> u8) \<Rightarrow> vsys \<Rightarrow> bool" for A D where
  start: "disk_reach A D disk_init"
| step: "disk_reach A D y \<Longrightarrow> disk_step A D y y' \<Longrightarrow> disk_reach A D y'"

text \<open>
  Where a request is: in the available ring, with the device, in the used ring, or done.
\<close>

datatype phase = PAvail | PTaken | PUsed | PDone

fun req_ok :: "vaddrs \<Rightarrow> (nat \<Rightarrow> u8) \<Rightarrow> vst \<Rightarrow> nat \<Rightarrow> req \<Rightarrow> phase \<Rightarrow> bool" where
  "req_ok A D s h (i1, i2, bno, ha, ba) p \<longleftrightarrow>
     h < 8 \<and> i1 < 8 \<and> i2 < 8 \<and> h \<noteq> i1 \<and> h \<noteq> i2 \<and> i1 \<noteq> i2 \<and>
     \<not> free (vio s) ! h \<and> \<not> free (vio s) ! i1 \<and> \<not> free (vio s) ! i2 \<and>
     desc (vio s) ! h = \<lparr>d_addr = ha, d_len = 16, d_flags = VRING_DESC_F_NEXT, d_next = of_nat i1\<rparr> \<and>
     desc (vio s) ! i1 = \<lparr>d_addr = ba + 16, d_len = ucast BSIZE, d_flags = VRING_DESC_F_WRITE OR VRING_DESC_F_NEXT, d_next = of_nat i2\<rparr> \<and>
     desc (vio s) ! i2 = \<lparr>d_addr = status_addr A h, d_len = 1, d_flags = VRING_DESC_F_WRITE, d_next = 0\<rparr> \<and>
     hdrs s ha = Some \<lparr>blk_type = VIRTIO_BLK_T_IN, reserved = 0, sector = ucast bno * 2\<rparr> \<and>
     (\<exists>op. info (vio s) ! h = Some op \<and> box_addr (op_buf op) = ba \<and> op_status op = 0 \<and>
        b_disk (unbox (op_buf op)) = (if p = PDone then 0 else 1) \<and>
        (p = PUsed \<or> p = PDone \<longrightarrow> b_data (unbox (op_buf op)) = disk_block D (ucast bno * 2)))"

definition rings_ok :: "VirtIOData \<Rightarrow> u16 \<Rightarrow> nat list \<Rightarrow> nat list \<Rightarrow> bool" where
  "rings_ok v la aw uw \<longleftrightarrow>
     length (desc v) = 8 \<and> length (free v) = 8 \<and> length (info v) = 8 \<and> 10 \<le> length (avail v) \<and>
     length (used v) = 8 \<and> length (elems (used v ! 0)) = 8 \<and> unat (used_idx v) < 8 \<and>
     avail v ! 1 = la + of_nat (length aw) \<and>
     (\<forall>k<length aw. avail v ! (2 + unat (la + of_nat k) mod 8) = of_nat (aw ! k)) \<and>
     unat (ua_id (used v ! 0)) mod 8 = (unat (used_idx v) + length uw) mod 8 \<and>
     (\<forall>k<length uw. ue_id (elems (used v ! 0) ! ((unat (used_idx v) + k) mod 8)) = of_nat (uw ! k))"

definition reqs_ok :: "vaddrs \<Rightarrow> (nat \<Rightarrow> u8) \<Rightarrow> vst \<Rightarrow> (nat \<rightharpoonup> req) \<Rightarrow> (nat \<rightharpoonup> phase) \<Rightarrow> bool" where
  "reqs_ok A D s R ph \<longleftrightarrow> dom ph = dom R \<and>
     (\<forall>h r p. R h = Some r \<longrightarrow> ph h = Some p \<longrightarrow> req_ok A D s h r p) \<and>
     (\<forall>h h' r r'. R h = Some r \<longrightarrow> R h' = Some r' \<longrightarrow> h \<noteq> h' \<longrightarrow>
        chain_of h r \<inter> chain_of h' r' = {} \<and> req_ha r \<noteq> req_ha r' \<and> req_ba r \<noteq> req_ba r') \<and>
     (\<forall>i<8. \<not> free (vio s) ! i \<longrightarrow> (\<exists>h r. R h = Some r \<and> i \<in> chain_of h r)) \<and>
     (\<forall>i<8. info (vio s) ! i \<noteq> None \<longrightarrow> R i \<noteq> None)"

definition dinv :: "vaddrs \<Rightarrow> (nat \<Rightarrow> u8) \<Rightarrow> vsys \<Rightarrow> (nat \<rightharpoonup> phase) \<Rightarrow> nat list \<Rightarrow> nat list \<Rightarrow> bool" where
  "dinv A D y ph aw uw \<longleftrightarrow> rings_ok (vio (drv y)) (last_avail y) aw uw \<and> reqs_ok A D (drv y) (reqs y) ph \<and>
     distinct aw \<and> set aw = {h. ph h = Some PAvail} \<and> taken y = {h. ph h = Some PTaken} \<and>
     distinct uw \<and> set uw = {h. ph h = Some PUsed}"

definition disk_inv :: "vaddrs \<Rightarrow> (nat \<Rightarrow> u8) \<Rightarrow> vsys \<Rightarrow> bool" where
  "disk_inv A D y \<longleftrightarrow> (\<exists>ph aw uw. dinv A D y ph aw uw)"

text \<open>One request from submission to completion, as a concrete run.\<close>

definition demo_addrs :: vaddrs where
  "demo_addrs = \<lparr>free0 = 0, status_addr = of_nat\<rparr>"

definition demo_buf :: "Buf Box" where
  "demo_buf = \<lparr>box_addr = 0x80000000, unbox = Buf_new\<lparr>blockno := 5\<rparr>\<rparr>"

definition demo_s1 :: vst where
  "demo_s1 = \<lparr>vio = VirtIO_new\<lparr>free := (replicate 8 True)[0 := False, 1 := False, 2 := False],
      desc := (replicate 8 VRingDesc_new)[0 := \<lparr>d_addr = 100, d_len = 16, d_flags = VRING_DESC_F_NEXT, d_next = 1\<rparr>,
        1 := \<lparr>d_addr = 0x80000010, d_len = ucast BSIZE, d_flags = VRING_DESC_F_WRITE OR VRING_DESC_F_NEXT, d_next = 2\<rparr>,
        2 := \<lparr>d_addr = 0, d_len = 1, d_flags = VRING_DESC_F_WRITE, d_next = 0\<rparr>],
      info := (replicate 8 None)[0 := Some \<lparr>op_buf = demo_buf\<lparr>unbox := (unbox demo_buf)\<lparr>b_disk := 1\<rparr>\<rparr>, op_status = 0\<rparr>],
      avail := (replicate (unat AVAIL_SZ) 0)[2 := 0, 1 := 1]\<rparr>,
    hdrs = [100 \<mapsto> \<lparr>blk_type = VIRTIO_BLK_T_IN, reserved = 0, sector = 10\<rparr>], woken = [], notified = [0]\<rparr>"

definition demo_s2 :: vst where
  "demo_s2 = demo_s1\<lparr>vio := (vio demo_s1)\<lparr>
      info := (replicate 8 None)[0 := Some \<lparr>op_buf = demo_buf\<lparr>unbox := (unbox demo_buf)\<lparr>b_disk := 1, b_data := disk_block (\<lambda>i. of_nat i) 10\<rparr>\<rparr>, op_status = 0\<rparr>],
      used := (replicate 8 UsedArea_new)[0 := UsedArea_new\<lparr>elems := (elems UsedArea_new)[0 := \<lparr>ue_id = 0, ue_len = ucast BSIZE\<rparr>], ua_id := 1\<rparr>]\<rparr>\<rparr>"

definition demo_y :: vsys where
  "demo_y = \<lparr>drv = demo_s2, last_avail = 1, taken = {}, reqs = [0 \<mapsto> (1, 2, 5, 100, 0x80000000)]\<rparr>"

section \<open>Descriptors\<close>

lemma DESC_NUM_num [simp]: "DESC_NUM = 8"
  by (simp add: DESC_NUM_def)

lemma flag_bits [simp]:
  "(VRING_DESC_F_WRITE OR VRING_DESC_F_NEXT) AND VRING_DESC_F_NEXT \<noteq> 0" "VRING_DESC_F_NEXT AND VRING_DESC_F_NEXT \<noteq> 0"
  "VRING_DESC_F_WRITE AND VRING_DESC_F_NEXT = 0"
  by (simp_all add: VRING_DESC_F_WRITE_def VRING_DESC_F_NEXT_def)

lemma BSIZE_num [simp]: "unat BSIZE = 1024" "BSIZE div 512 = 2"
  by (simp_all add: BSIZE_def)

lemma unat_of_nat_u16: "n < 8 \<Longrightarrow> unat (of_nat n :: u16) = n" "n < 8 \<Longrightarrow> unat (of_nat n :: u32) = n"
  by (simp_all add: unat_of_nat)

lemma free_desc_ok:
  assumes "length (desc (vio s)) = 8" "length (free (vio s)) = 8" "i < 8" "\<not> free (vio s) ! i"
  shows "free_desc A i s = Inr (s\<lparr>vio := (vio s)\<lparr>desc := (desc (vio s))[i := (desc (vio s) ! i)\<lparr>d_addr := 0\<rparr>],
    free := (free (vio s))[i := True]\<rparr>, woken := free0 A # woken s\<rparr>)"
  using assms by (simp add: free_desc_def)

lemma free_chain_step:
  assumes "length (desc (vio s)) = 8" "length (free (vio s)) = 8" "i < 8" "\<not> free (vio s) ! i"
  shows "free_chain A i s = (let s' = s\<lparr>vio := (vio s)\<lparr>desc := (desc (vio s))[i := (desc (vio s) ! i)\<lparr>d_addr := 0\<rparr>],
      free := (free (vio s))[i := True]\<rparr>, woken := free0 A # woken s\<rparr>
    in if d_flags (desc (vio s) ! i) AND VRING_DESC_F_NEXT \<noteq> 0 then free_chain A (unat (d_next (desc (vio s) ! i))) s' else Inr s')"
  using assms by (subst free_chain.simps) (simp add: free_desc_ok Let_def)

lemma free_chain_three:
  assumes "length (desc (vio s)) = 8" "length (free (vio s)) = 8" "h < 8" "i1 < 8" "i2 < 8" "h \<noteq> i1" "h \<noteq> i2" "i1 \<noteq> i2"
    and "\<not> free (vio s) ! h" "\<not> free (vio s) ! i1" "\<not> free (vio s) ! i2"
    and "d_flags (desc (vio s) ! h) AND VRING_DESC_F_NEXT \<noteq> 0" "d_next (desc (vio s) ! h) = of_nat i1"
    and "d_flags (desc (vio s) ! i1) AND VRING_DESC_F_NEXT \<noteq> 0" "d_next (desc (vio s) ! i1) = of_nat i2"
    and "d_flags (desc (vio s) ! i2) AND VRING_DESC_F_NEXT = 0"
  shows "\<exists>ds w. free_chain A h s = Inr (s\<lparr>vio := (vio s)\<lparr>desc := ds, free := (free (vio s))[h := True, i1 := True, i2 := True]\<rparr>, woken := w\<rparr>) \<and>
    length ds = 8 \<and> (\<forall>j. j \<notin> {h, i1, i2} \<longrightarrow> ds ! j = desc (vio s) ! j)"
  using assms
  by (simp add: free_chain_step unat_of_nat_u16 Let_def) (intro exI conjI, rule refl, auto)

lemma alloc_desc_cases:
  assumes "length (free (vio s)) = 8"
  obtains (some) i where "alloc_desc s = (s\<lparr>vio := (vio s)\<lparr>free := (free (vio s))[i := False]\<rparr>\<rparr>, Some i)" "i < 8" "free (vio s) ! i"
  | (none) "alloc_desc s = (s, None)" "\<forall>i<8. \<not> free (vio s) ! i"
proof (cases "first_slot (\<lambda>b. b) 0 (take DESC_NUM (free (vio s)))")
  case None
  have t: "take DESC_NUM (free (vio s)) = free (vio s)" using assms by simp
  have "\<forall>x\<in>set (free (vio s)). \<not> x" using None unfolding first_slot_None_iff t .
  then have "\<forall>i<8. \<not> free (vio s) ! i" using assms nth_mem by metis
  moreover have "alloc_desc s = (s, None)" unfolding alloc_desc_def None by simp
  ultimately show ?thesis using none by blast
next
  case (Some i)
  have t: "take DESC_NUM (free (vio s)) = free (vio s)" using assms by simp
  have "i < 8" "free (vio s) ! i" using Some assms unfolding first_slot_Some_iff t by simp_all
  moreover have "alloc_desc s = (s\<lparr>vio := (vio s)\<lparr>free := (free (vio s))[i := False]\<rparr>\<rparr>, Some i)"
    unfolding alloc_desc_def Some by simp
  ultimately show ?thesis using some by blast
qed

lemma list_update_same_id: "xs ! i \<Longrightarrow> xs[i := True] = xs"
  by (metis (full_types) list_update_id)

lemma free_same [simp]: "v\<lparr>desc := d, free := free v\<rparr> = v\<lparr>desc := d\<rparr>"
  by (cases v) simp

lemma alloc3_cases:
  assumes l: "length (free (vio s)) = 8" "length (desc (vio s)) = 8"
  obtains (some) a b c where "alloc3_desc A s = Inr (s\<lparr>vio := (vio s)\<lparr>free := (free (vio s))[a := False, b := False, c := False]\<rparr>\<rparr>, Some [a, b, c])"
      "a < 8" "b < 8" "c < 8" "a \<noteq> b" "a \<noteq> c" "b \<noteq> c" "free (vio s) ! a" "free (vio s) ! b" "free (vio s) ! c"
  | (none) ds w where "alloc3_desc A s = Inr (s\<lparr>vio := (vio s)\<lparr>desc := ds\<rparr>, woken := w\<rparr>, None)" "length ds = 8"
      "\<forall>j<8. \<not> free (vio s) ! j \<longrightarrow> ds ! j = desc (vio s) ! j"
proof -
  let ?f = "free (vio s)"
  have three: "alloc3_desc A s = alloc_descs A (Suc (Suc (Suc 0))) [] s" by (simp add: alloc3_desc_def numeral_3_eq_3)
  from l(1) show ?thesis
  proof (cases rule: alloc_desc_cases)
    case none
    then have "alloc3_desc A s = Inr (s\<lparr>vio := (vio s)\<lparr>desc := desc (vio s)\<rparr>, woken := woken s\<rparr>, None)" unfolding three by simp
    then show ?thesis using that(2) l(2) by blast
  next
    case (some a)
    note a = some
    let ?s1 = "s\<lparr>vio := (vio s)\<lparr>free := ?f[a := False]\<rparr>\<rparr>"
    have l1: "length (free (vio ?s1)) = 8" using l(1) by simp
    from l1 show ?thesis
    proof (cases rule: alloc_desc_cases)
      case none
      have "free_desc A a ?s1 = Inr (s\<lparr>vio := (vio s)\<lparr>desc := (desc (vio s))[a := (desc (vio s) ! a)\<lparr>d_addr := 0\<rparr>]\<rparr>, woken := free0 A # woken s\<rparr>)"
        using free_desc_ok[of ?s1 a A] l a(2,3) by (simp add: list_update_same_id)
      then have "alloc3_desc A s = Inr (s\<lparr>vio := (vio s)\<lparr>desc := (desc (vio s))[a := (desc (vio s) ! a)\<lparr>d_addr := 0\<rparr>]\<rparr>, woken := free0 A # woken s\<rparr>, None)"
        unfolding three using a(1) none(1) by simp
      then show ?thesis using that(2) l(2) a(3) by (metis length_list_update nth_list_update_neq)
    next
      case (some b)
      note b = some
      have ab: "a \<noteq> b" "?f ! b" using b(2,3) l(1) a(2) by (auto simp: nth_list_update split: if_splits)
      let ?s2 = "s\<lparr>vio := (vio s)\<lparr>free := ?f[a := False, b := False]\<rparr>\<rparr>"
      have l2: "length (free (vio ?s2)) = 8" using l(1) by simp
      from l2 show ?thesis
      proof (cases rule: alloc_desc_cases)
        case none
        let ?d = "(desc (vio s))[a := (desc (vio s) ! a)\<lparr>d_addr := 0\<rparr>]"
        let ?s3 = "s\<lparr>vio := (vio s)\<lparr>desc := ?d, free := ?f[b := False]\<rparr>, woken := free0 A # woken s\<rparr>"
        have sw: "?f[a := False, b := False, a := True] = ?f[b := False]"
          using ab(1) a(3) by (simp add: list_update_swap[of b a] list_update_same_id)
        have "free_desc A a ?s2 = Inr ?s3"
          using free_desc_ok[of ?s2 a A] l a(2) ab(1) sw by simp
        moreover have "free_desc A b ?s3 = Inr (s\<lparr>vio := (vio s)\<lparr>desc := ?d[b := (?d ! b)\<lparr>d_addr := 0\<rparr>]\<rparr>, woken := free0 A # free0 A # woken s\<rparr>)"
          using free_desc_ok[of ?s3 b A] l b(2) ab(2) by (simp add: list_update_same_id)
        ultimately have "alloc3_desc A s = Inr (s\<lparr>vio := (vio s)\<lparr>desc := ?d[b := (?d ! b)\<lparr>d_addr := 0\<rparr>]\<rparr>, woken := free0 A # free0 A # woken s\<rparr>, None)"
          unfolding three using a(1) b(1) none(1) by simp
        moreover have "?d[b := (?d ! b)\<lparr>d_addr := 0\<rparr>] ! j = desc (vio s) ! j" if "\<not> ?f ! j" for j
          using that a(3) ab(2) by (metis nth_list_update_neq)
        ultimately show ?thesis using that(2) l(2) by (metis length_list_update)
      next
        case (some c)
        have "a \<noteq> c" "b \<noteq> c" "?f ! c" using some(2,3) l(1) a(2) b(2) by (auto simp: nth_list_update split: if_splits)
        moreover have "alloc3_desc A s = Inr (s\<lparr>vio := (vio s)\<lparr>free := ?f[a := False, b := False, c := False]\<rparr>\<rparr>, Some [a, b, c])"
          unfolding three using a(1) b(1) some(1) by simp
        ultimately show ?thesis using that(1) a b some ab by auto
      qed
    qed
  qed
qed

section \<open>The invariant\<close>

lemma reqs_okD:
  assumes "reqs_ok A D s R ph"
  shows "R h = Some r \<Longrightarrow> ph h = Some p \<Longrightarrow> req_ok A D s h r p"
    "R h = Some r \<Longrightarrow> \<exists>p. ph h = Some p" "ph h = Some p \<Longrightarrow> \<exists>r. R h = Some r"
    "R h = Some r \<Longrightarrow> R h' = Some r' \<Longrightarrow> h \<noteq> h' \<Longrightarrow>
       chain_of h r \<inter> chain_of h' r' = {} \<and> req_ha r \<noteq> req_ha r' \<and> req_ba r \<noteq> req_ba r'"
    "i < 8 \<Longrightarrow> \<not> free (vio s) ! i \<Longrightarrow> \<exists>h r. R h = Some r \<and> i \<in> chain_of h r"
    "i < 8 \<Longrightarrow> info (vio s) ! i \<noteq> None \<Longrightarrow> R i \<noteq> None"
proof -
  show "R h = Some r \<Longrightarrow> ph h = Some p \<Longrightarrow> req_ok A D s h r p" using assms unfolding reqs_ok_def by blast
  have d: "dom ph = dom R" using assms unfolding reqs_ok_def by blast
  show "R h = Some r \<Longrightarrow> \<exists>p. ph h = Some p" "ph h = Some p \<Longrightarrow> \<exists>r. R h = Some r"
    using d by (metis domD domI)+
  show "R h = Some r \<Longrightarrow> R h' = Some r' \<Longrightarrow> h \<noteq> h' \<Longrightarrow>
       chain_of h r \<inter> chain_of h' r' = {} \<and> req_ha r \<noteq> req_ha r' \<and> req_ba r \<noteq> req_ba r'"
    "i < 8 \<Longrightarrow> \<not> free (vio s) ! i \<Longrightarrow> \<exists>h r. R h = Some r \<and> i \<in> chain_of h r"
    "i < 8 \<Longrightarrow> info (vio s) ! i \<noteq> None \<Longrightarrow> R i \<noteq> None"
    using assms unfolding reqs_ok_def by blast+
qed

lemma req_ok_chain:
  assumes "req_ok A D s h r p"
  shows "chain_of h r \<subseteq> {..<8}" "card (chain_of h r) = 3" "h \<in> chain_of h r" "\<And>i. i \<in> chain_of h r \<Longrightarrow> \<not> free (vio s) ! i"
  using assms by (cases r; auto)+

lemma inflight_bound:
  assumes "reqs_ok A D s R ph"
  shows "finite (dom R)" "card (dom R) \<le> 2"
proof -
  have c: "chain_of h (the (R h)) \<subseteq> {..<8}" "card (chain_of h (the (R h))) = 3" "h \<in> chain_of h (the (R h))" if h: "h \<in> dom R" for h
  proof -
    obtain r where r: "R h = Some r" using h by blast
    obtain p where "ph h = Some p" using reqs_okD(2)[OF assms r] by blast
    from req_ok_chain[OF reqs_okD(1)[OF assms r this]] r
    show "chain_of h (the (R h)) \<subseteq> {..<8}" "card (chain_of h (the (R h))) = 3" "h \<in> chain_of h (the (R h))" by simp_all
  qed
  have sub: "(\<Union>h\<in>dom R. chain_of h (the (R h))) \<subseteq> {..<8}" using c(1) by blast
  have "dom R \<subseteq> {..<8}" using c(1,3) by blast
  then show f: "finite (dom R)" by (rule finite_subset) simp
  have "card (\<Union>h\<in>dom R. chain_of h (the (R h))) = (\<Sum>h\<in>dom R. card (chain_of h (the (R h))))"
  proof (rule card_UN_disjoint[OF f])
    show "\<forall>h\<in>dom R. finite (chain_of h (the (R h)))"
    proof
      fix h assume "h \<in> dom R"
      from c(1)[OF this] show "finite (chain_of h (the (R h)))" by (rule finite_subset) simp
    qed
    show "\<forall>h\<in>dom R. \<forall>k\<in>dom R. h \<noteq> k \<longrightarrow> chain_of h (the (R h)) \<inter> chain_of k (the (R k)) = {}"
    proof (intro ballI impI)
      fix h k assume hk: "h \<in> dom R" "k \<in> dom R" "h \<noteq> k"
      then obtain r r' where "R h = Some r" "R k = Some r'" by blast
      then show "chain_of h (the (R h)) \<inter> chain_of k (the (R k)) = {}" using reqs_okD(4)[OF assms] hk(3) by (simp del: chain_of.simps split_paired_All)
    qed
  qed
  also have "\<dots> = 3 * card (dom R)" using c(2) by simp
  finally have "3 * card (dom R) = card (\<Union>h\<in>dom R. chain_of h (the (R h)))" by simp
  also have "\<dots> \<le> 8" using card_mono[OF _ sub] by simp
  finally show "card (dom R) \<le> 2" by simp
qed

lemma window_bound:
  assumes "reqs_ok A D s R ph" "distinct ws" "\<And>h. h \<in> set ws \<Longrightarrow> ph h \<noteq> None"
  shows "length ws \<le> 2" "\<And>k. k < length ws \<Longrightarrow> ws ! k < 8"
proof -
  have "dom ph = dom R" using assms(1) unfolding reqs_ok_def by blast
  then have d: "set ws \<subseteq> dom R" using assms(3) by blast
  have "length ws = card (set ws)" using distinct_card[OF assms(2)] by simp
  also have "\<dots> \<le> card (dom R)" by (rule card_mono[OF inflight_bound(1)[OF assms(1)] d])
  finally show "length ws \<le> 2" using inflight_bound(2)[OF assms(1)] by simp
  fix k assume "k < length ws"
  then have "ws ! k \<in> dom R" using d nth_mem by blast
  then obtain r where r: "R (ws ! k) = Some r" by blast
  obtain p where "ph (ws ! k) = Some p" using reqs_okD(2)[OF assms(1) r] by blast
  from req_ok_chain[OF reqs_okD(1)[OF assms(1) r this]] show "ws ! k < 8" by blast
qed

lemma dinvD:
  assumes "dinv A D y ph aw uw"
  shows "rings_ok (vio (drv y)) (last_avail y) aw uw" "reqs_ok A D (drv y) (reqs y) ph"
    "distinct aw" "set aw = {h. ph h = Some PAvail}" "taken y = {h. ph h = Some PTaken}"
    "distinct uw" "set uw = {h. ph h = Some PUsed}"
  using assms by (simp_all add: dinv_def)

lemma disk_init_inv: "dinv A D disk_init Map.empty [] []"
  by (simp add: dinv_def disk_init_def rings_ok_def reqs_ok_def VirtIO_new_def UsedArea_new_def AVAIL_SZ_def consts_simps)

lemma req_ok_cong:
  assumes "desc (vio s') = desc (vio s)" "free (vio s') = free (vio s)" "hdrs s' = hdrs s" "info (vio s') ! h = info (vio s) ! h"
  shows "req_ok A D s' h r p = req_ok A D s h r p"
  by (cases r) (simp add: assms)

text \<open>A request moves to the next phase: its own slot of \<open>info\<close> is all that changes.\<close>

lemma reqs_ok_phase:
  assumes q: "reqs_ok A D s R ph" and x: "R x = Some rx" "ph x = Some px"
    and s: "desc (vio s') = desc (vio s)" "free (vio s') = free (vio s)" "hdrs s' = hdrs s"
      "\<And>i. i \<noteq> x \<Longrightarrow> info (vio s') ! i = info (vio s) ! i"
    and ok: "req_ok A D s' x rx p"
  shows "reqs_ok A D s' R (ph(x \<mapsto> p))"
  unfolding reqs_ok_def
proof (intro conjI allI impI)
  have "dom ph = dom R" using q unfolding reqs_ok_def by blast
  then show "dom (ph(x \<mapsto> p)) = dom R" using x(2) by auto
  fix h r p' assume a: "R h = Some r" "(ph(x \<mapsto> p)) h = Some p'"
  show "req_ok A D s' h r p'"
  proof (cases "h = x")
    case True
    then show ?thesis using a x(1) ok by simp
  next
    case False
    then have "req_ok A D s h r p'" using reqs_okD(1)[OF q a(1)] a(2) by simp
    then show ?thesis using req_ok_cong[OF s(1-3) s(4)[OF False]] by simp
  qed
next
  fix i :: nat assume i: "i < 8" "info (vio s') ! i \<noteq> None"
  show "R i \<noteq> None"
  proof (cases "i = x")
    case False
    then show ?thesis using i s(4)[OF False] reqs_okD(6)[OF q i(1)] by simp
  qed (use x(1) in simp)
next
  fix i :: nat assume "i < 8" "\<not> free (vio s') ! i"
  then show "\<exists>h r. R h = Some r \<and> i \<in> chain_of h r" using reqs_okD(5)[OF q] s(2) by metis
qed (use reqs_okD(4)[OF q] in blast)+

lemma mod8_u16:
  "unat (x + 1 :: u16) mod 8 = (unat x + 1) mod 8" "unat (x + of_nat k :: u16) mod 8 = (unat x + k) mod 8"
proof -
  have d: "(8 :: nat) dvd 65536" by simp
  show g: "unat (x + of_nat k :: u16) mod 8 = (unat x + k) mod 8" for k
  proof -
    have "unat (x + of_nat k :: u16) = (unat x + k) mod 65536"
      by (simp add: unat_word_ariths unat_of_nat mod_add_right_eq)
    then show ?thesis by (simp add: mod_mod_cancel[OF d])
  qed
  show "unat (x + 1 :: u16) mod 8 = (unat x + 1) mod 8" using g[of 1] unfolding of_nat_1 .
qed

lemma mod8_window: "(a + j) mod 8 = (a + k) mod 8 \<Longrightarrow> j < 8 \<Longrightarrow> k < 8 \<Longrightarrow> j = (k :: nat)"
  by (simp add: mod_nat_eqI nat_mod_eq_iff) arith

lemma take_inv:
  assumes i: "dinv A D y ph aw uw" and ne: "last_avail y \<noteq> avail (vio (drv y)) ! 1"
    and h: "h = unat (avail (vio (drv y)) ! (2 + unat (last_avail y) mod DESC_NUM))"
  shows "aw = h # tl aw" "dinv A D (y\<lparr>last_avail := last_avail y + 1, taken := insert h (taken y)\<rparr>) (ph(h \<mapsto> PTaken)) (tl aw) uw"
proof -
  note I = dinvD[OF i]
  have "aw \<noteq> []" using I(1) ne by (auto simp: rings_ok_def)
  then obtain x aw' where aw: "aw = x # aw'" by (cases aw) auto
  have wb: "x < 8" using window_bound(2)[OF I(2,3), of 0] I(4) aw by auto
  have "avail (vio (drv y)) ! (2 + unat (last_avail y) mod 8) = of_nat x"
    using I(1) aw unfolding rings_ok_def by fastforce
  then have hx: "h = x" using h wb by (simp add: unat_of_nat_u16)
  have px: "ph x = Some PAvail" using I(4) aw by auto
  obtain rx where rx: "reqs y x = Some rx" using reqs_okD(3)[OF I(2) px] by blast
  have "req_ok A D (drv y) x rx PTaken" using reqs_okD(1)[OF I(2) rx px] by (cases rx) auto
  then have q: "reqs_ok A D (drv y) (reqs y) (ph(x \<mapsto> PTaken))" by (intro reqs_ok_phase[OF I(2) rx px]) auto
  have r: "rings_ok (vio (drv y)) (last_avail y + 1) aw' uw"
    using I(1) aw unfolding rings_ok_def by (auto simp: algebra_simps)
  show "aw = h # tl aw" using aw hx by simp
  have "dinv A D (y\<lparr>last_avail := last_avail y + 1, taken := insert h (taken y)\<rparr>) (ph(x \<mapsto> PTaken)) aw' uw"
    using r q I(3-7) aw hx px by (auto simp: dinv_def)
  then show "dinv A D (y\<lparr>last_avail := last_avail y + 1, taken := insert h (taken y)\<rparr>) (ph(h \<mapsto> PTaken)) (tl aw) uw"
    using aw hx by simp
qed

lemma mod8_diff:
  assumes "b mod 8 = (a + n) mod 8" "n < (8 :: nat)"
  shows "(b mod 8 + 8 - a mod 8) mod 8 = n"
proof -
  define x where "x = a mod 8"
  have x: "x < 8" "b mod 8 = (x + n) mod 8" unfolding x_def assms(1) by (simp_all add: mod_simps)
  show ?thesis
  proof (cases "x + n < 8")
    case True
    then have "b mod 8 + 8 - x = n + 8" using x by simp
    then show ?thesis using assms(2) unfolding x_def[symmetric] by simp
  next
    case False
    then have "(x + n) mod 8 = x + n - 8" using x(1) assms(2) by (simp add: mod_if)
    then have "b mod 8 + 8 - x = n" using x False by simp
    then show ?thesis using assms(2) unfolding x_def[symmetric] by simp
  qed
qed

lemma intr_one_inv:
  assumes i: "dinv A D y ph aw (x # uw)"
  shows "\<exists>s'. intr_one (drv y) = Inr s' \<and> dinv A D (y\<lparr>drv := s'\<rparr>) (ph(x \<mapsto> PDone)) aw uw \<and>
    woken s' = req_ba (the (reqs y x)) # woken (drv y)"
proof -
  note I = dinvD[OF i]
  have px: "ph x = Some PUsed" using I(7) by auto
  obtain rx where rx: "reqs y x = Some rx" using reqs_okD(3)[OF I(2) px] by blast
  note ok = reqs_okD(1)[OF I(2) rx px]
  obtain op where op: "info (vio (drv y)) ! x = Some op" "op_status op = 0" using ok by (cases rx) auto
  have wb: "x < 8" using window_bound(2)[OF I(2,6), of 0] I(7) by auto
  let ?v = "vio (drv y)"
  have R: "length (info ?v) = 8" "length (used ?v) = 8" "length (elems (used ?v ! 0)) = 8" "unat (used_idx ?v) < 8"
    "ue_id (elems (used ?v ! 0) ! (unat (used_idx ?v) mod 8)) = of_nat x"
    using I(1) unfolding rings_ok_def by fastforce+
  let ?op = "op\<lparr>op_buf := (op_buf op)\<lparr>unbox := (unbox (op_buf op))\<lparr>b_disk := 0\<rparr>\<rparr>\<rparr>"
  let ?v' = "?v\<lparr>info := (info ?v)[x := Some ?op], used_idx := of_nat (Suc (unat (used_idx ?v)) mod 8)\<rparr>"
  let ?s = "(drv y)\<lparr>vio := ?v', woken := box_addr (op_buf op) # woken (drv y)\<rparr>"
  have add: "add_chk (used_idx ?v) 1 = Inr (used_idx ?v + 1)" "unat (used_idx ?v + 1) = Suc (unat (used_idx ?v))"
    using R(4) by (simp_all add: unat_word_ariths)
  have r: "intr_one (drv y) = Inr ?s"
    using R op wb add by (simp add: intr_one_def Let_def unat_of_nat_u16)
  have "req_ok A D ?s x rx PDone" using ok op R(1) wb by (cases rx) auto
  then have q: "reqs_ok A D ?s (reqs y) (ph(x \<mapsto> PDone))" by (intro reqs_ok_phase[OF I(2) rx px]) auto
  have u: "unat (of_nat (Suc (unat (used_idx ?v)) mod 8) :: u16) = Suc (unat (used_idx ?v)) mod 8" by (simp add: unat_of_nat_u16)
  have k: "ue_id (elems (used ?v ! 0) ! ((unat (used_idx ?v) + Suc k) mod 8)) = of_nat (uw ! k)" if "k < length uw" for k
    using I(1) that unfolding rings_ok_def by (metis Suc_less_eq length_Cons nth_Cons_Suc)
  have "rings_ok ?v' (last_avail y) aw uw"
    using I(1) u k unfolding rings_ok_def by (simp add: mod_simps)
  then have "dinv A D (y\<lparr>drv := ?s\<rparr>) (ph(x \<mapsto> PDone)) aw uw"
    using q I(3-7) px by (auto simp: dinv_def)
  moreover have "req_ba rx = box_addr (op_buf op)" using ok op(1) by (cases rx) auto
  ultimately show ?thesis using r rx by auto
qed

lemma intr_window:
  assumes "dinv A D y ph aw uw"
  shows "intr_pending (drv y) = length uw"
    and "\<And>k. k < length uw \<Longrightarrow> unat (ue_id (elems (used (vio (drv y)) ! 0) ! ((unat (used_idx (vio (drv y))) + k) mod 8))) = uw ! k"
proof -
  note I = dinvD[OF assms]
  have w: "uw ! k < 8" if "k < length uw" for k
    by (rule window_bound(2)[OF I(2,6)]) (use I(7) that in auto)
  have "length uw \<le> 2" by (rule window_bound(1)[OF I(2,6)]) (use I(7) in auto)
  then have "length uw < 8" by simp
  then show "intr_pending (drv y) = length uw"
    using I(1) unfolding intr_pending_def rings_ok_def by (metis mod8_diff)
  show "unat (ue_id (elems (used (vio (drv y)) ! 0) ! ((unat (used_idx (vio (drv y))) + k) mod 8))) = uw ! k" if "k < length uw" for k
    using I(1) that w[OF that] unfolding rings_ok_def by (simp add: unat_of_nat_u16)
qed

lemma intr_inv:
  assumes "dinv A D y ph aw uw"
  shows "\<exists>s'. virtiointr (drv y) = Inr s' \<and> dinv A D (y\<lparr>drv := s'\<rparr>) (\<lambda>h. if h \<in> set uw then Some PDone else ph h) aw [] \<and>
    (\<forall>h\<in>set uw. req_ba (the (reqs y h)) \<in> set (woken s')) \<and> set (woken (drv y)) \<subseteq> set (woken s')"
  using assms
proof (induction uw arbitrary: y ph)
  case Nil
  then have "unat (used_idx (vio (drv y))) mod 8 = unat (ua_id (used (vio (drv y)) ! 0)) mod 8"
    by (simp add: dinv_def rings_ok_def)
  then have "virtiointr (drv y) = Inr (drv y)" by (subst virtiointr.simps) simp
  then show ?case using Nil by simp
next
  case (Cons x uw)
  obtain s1 where s1: "intr_one (drv y) = Inr s1" "dinv A D (y\<lparr>drv := s1\<rparr>) (ph(x \<mapsto> PDone)) aw uw"
      "woken s1 = req_ba (the (reqs y x)) # woken (drv y)"
    using intr_one_inv[OF Cons.prems] by blast
  have "intr_pending (drv y) = length (x # uw)" by (rule intr_window(1)[OF Cons.prems])
  then have "unat (used_idx (vio (drv y))) mod 8 \<noteq> unat (ua_id (used (vio (drv y)) ! 0)) mod 8"
    by (auto simp: intr_pending_def)
  then have v: "virtiointr (drv y) = virtiointr s1" using s1(1) by (subst virtiointr.simps) simp
  have "(\<lambda>h. if h \<in> set uw then Some PDone else (ph(x \<mapsto> PDone)) h) = (\<lambda>h. if h \<in> set (x # uw) then Some PDone else ph h)" by auto
  then show ?case using Cons.IH[OF s1(2)] s1(3) unfolding v by simp blast
qed

lemma complete_inv:
  assumes i: "dinv A D y ph aw uw" and inj: "inj_on (status_addr A) {..<8}" and h: "h \<in> taken y" and v: "v = vio (drv y)"
    and d: "d0 = desc v ! h" "d1 = desc v ! unat (d_next d0)" "d2 = desc v ! unat (d_next d1)"
    and hd: "hdrs (drv y) (d_addr d0) = Some hdr"
    and op: "k < 8" "info v ! k = Some op" "box_addr (op_buf op) + 16 = d_addr d1"
      "op' = op\<lparr>op_buf := (op_buf op)\<lparr>unbox := (unbox (op_buf op))\<lparr>b_data := disk_block D (sector hdr)\<rparr>\<rparr>\<rparr>"
    and j: "j < 8" "status_addr A j = d_addr d2" "(info v)[k := Some op'] ! j = Some opj"
      "infos = (info v)[k := Some op', j := Some (opj\<lparr>op_status := 0\<rparr>)]"
    and u: "u = used v ! 0" "u' = u\<lparr>elems := (elems u)[unat (ua_id u) mod 8 := \<lparr>ue_id = of_nat h, ue_len = ucast BSIZE\<rparr>], ua_id := ua_id u + 1\<rparr>"
  shows "dinv A D (y\<lparr>drv := (drv y)\<lparr>vio := v\<lparr>info := infos, used := (used v)[0 := u']\<rparr>\<rparr>, taken := taken y - {h}\<rparr>) (ph(h \<mapsto> PUsed)) aw (uw @ [h])"
proof -
  note I = dinvD[OF i]
  have ph: "ph h = Some PTaken" using I(5) h by simp
  obtain r where r: "reqs y h = Some r" using reqs_okD(3)[OF I(2) ph] by blast
  obtain i1 i2 bno ha ba where rr: "r = (i1, i2, bno, ha, ba)" by (cases r)
  note ok = reqs_okD(1)[OF I(2) r ph, unfolded rr]
  have D: "d_addr d0 = ha" "d_addr d1 = ba + 16" "d_addr d2 = status_addr A h" "hdr = \<lparr>blk_type = VIRTIO_BLK_T_IN, reserved = 0, sector = ucast bno * 2\<rparr>" "h < 8"
    using ok d v hd by (simp_all add: unat_of_nat_u16)
  have R: "length (info v) = 8" "length (used v) = 8" "length (elems u) = 8" "unat (ua_id u) mod 8 = (unat (used_idx v) + length uw) mod 8"
    using I(1) u v unfolding rings_ok_def by simp_all
  have jh: "j = h" using inj j(1,2) D(3,5) by (auto dest: inj_onD)
  have kh: "k = h"
  proof (rule ccontr)
    assume "k \<noteq> h"
    obtain rk where rk: "reqs y k = Some rk" using reqs_okD(6)[OF I(2) op(1)] op(2) v by auto
    obtain pk where pk: "ph k = Some pk" using reqs_okD(2)[OF I(2) rk] by blast
    have "req_ba rk = ba" using reqs_okD(1)[OF I(2) rk pk] op(2,3) D(2) v by (cases rk) auto
    then show False using reqs_okD(4)[OF I(2) rk r \<open>k \<noteq> h\<close>] rr by simp
  qed
  let ?s = "(drv y)\<lparr>vio := v\<lparr>info := infos, used := (used v)[0 := u']\<rparr>\<rparr>"
  have inf: "infos = (info v)[h := Some (op'\<lparr>op_status := 0\<rparr>)]" using j(3,4) jh kh D(5) R(1) by simp
  have "req_ok A D ?s h r PUsed"
    using ok inf op kh D(4,5) R(1) v rr by auto
  then have q: "reqs_ok A D ?s (reqs y) (ph(h \<mapsto> PUsed))"
    by (intro reqs_ok_phase[OF I(2) r ph]) (use inf v in auto)
  have w: "length uw \<le> 2" by (rule window_bound(1)[OF I(2,6)]) (use I(7) in auto)
  have e: "ue_id (elems u' ! ((unat (used_idx v) + n) mod 8)) = of_nat ((uw @ [h]) ! n)" if "n < length (uw @ [h])" for n
  proof (cases "n < length uw")
    case True
    then have "(unat (used_idx v) + n) mod 8 \<noteq> unat (ua_id u) mod 8"
      using mod8_window[of "unat (used_idx v)" n "length uw"] w R(4) by auto
    then have "elems u' ! ((unat (used_idx v) + n) mod 8) = elems u ! ((unat (used_idx v) + n) mod 8)" using u(2) by simp
    then show ?thesis using I(1) True u(1) v unfolding rings_ok_def by (simp add: nth_append)
  next
    case False
    then have n: "n = length uw" using that by simp
    then show ?thesis using u(2) R(3,4) by simp
  qed
  have "unat (ua_id u') mod 8 = (unat (used_idx v) + length (uw @ [h])) mod 8"
    using u(2) mod8_u16(1)[of "ua_id u"] R(4) by simp (metis mod_Suc_eq)
  then have "rings_ok (vio ?s) (last_avail y) aw (uw @ [h])"
    using I(1) e R u v inf unfolding rings_ok_def by simp
  then show ?thesis using q I(3-7) ph by (auto simp: dinv_def)
qed

lemma rw_sector_ok: "rw_sector b = Inr (ucast (blockno b) * 2)"
proof -
  have "unat (ucast (blockno b) :: usize) = unat (blockno b)" by (simp add: unat_ucast_up)
  moreover have "unat (blockno b) < 2 ^ 32" using unsigned_less[of "blockno b", where 'a=nat] by simp
  ultimately show ?thesis unfolding rw_sector_def BSIZE_num(2) mul_chk_def by simp
qed

lemma desc_set_all: "d\<lparr>d_addr := a, d_len := l, d_flags := f, d_next := n\<rparr> = \<lparr>d_addr = a, d_len = l, d_flags = f, d_next = n\<rparr>"
  by (cases d) simp

lemma rw_submit_ok:
  assumes l: "length (desc (vio s)) = 8" "length (info (vio s)) = 8" "10 \<le> length (avail (vio s))"
    and abc: "a < 8" "b < 8" "c < 8" "a \<noteq> b" "a \<noteq> c" "b \<noteq> c"
  shows "rw_submit A bf False ha sec [a, b, c] s =
    rbind (add_chk (avail (vio s) ! 1) 1) (\<lambda>av. Inr (s\<lparr>vio := (vio s)\<lparr>
      desc := (desc (vio s))[a := \<lparr>d_addr = ha, d_len = 16, d_flags = VRING_DESC_F_NEXT, d_next = of_nat b\<rparr>,
        b := \<lparr>d_addr = box_addr bf + 16, d_len = ucast BSIZE, d_flags = VRING_DESC_F_WRITE OR VRING_DESC_F_NEXT, d_next = of_nat c\<rparr>,
        c := \<lparr>d_addr = status_addr A a, d_len = 1, d_flags = VRING_DESC_F_WRITE, d_next = 0\<rparr>],
      info := (info (vio s))[a := Some \<lparr>op_buf = bf\<lparr>unbox := (unbox bf)\<lparr>b_disk := 1\<rparr>\<rparr>, op_status = 0\<rparr>],
      avail := (avail (vio s))[2 + unat (avail (vio s) ! 1) mod 8 := of_nat a, 1 := av]\<rparr>,
      hdrs := (hdrs s)(ha \<mapsto> \<lparr>blk_type = VIRTIO_BLK_T_IN, reserved = 0, sector = sec\<rparr>), notified := 0 # notified s\<rparr>))"
proof -
  define n where "n = 2 + unat (avail (vio s) ! 1) mod 8"
  have n: "n < length (avail (vio s))" "n \<noteq> 1"
    using l(3) mod_less_divisor[of 8 "unat (avail (vio s) ! 1)"] unfolding n_def by linarith+
  have o: "1 < length (avail (vio s))" using l(3) by simp
  have ix: "[a, b, c] ! 0 = a" "[a, b, c] ! 1 = b" "[a, b, c] ! 2 = c" by (simp_all add: numeral_2_eq_2)
  have g: "arr_get xs i = Inr (xs ! i)" "arr_set xs i y = Inr (xs[i := y])" if "i < length xs" for xs :: "'x list" and i y
    using that by simp_all
  have b: "a < length (desc (vio s))" "b < length (desc (vio s))" "c < length (desc (vio s))" "a < length (info (vio s))"
    using l abc by simp_all
  show ?thesis
    unfolding rw_submit_def Let_def ix DESC_NUM_num n_def[symmetric]
    by (simp only: g b n(1) o length_list_update rbind_simps n_def[symmetric] desc_set_all if_False nth_list_update_neq[OF n(2)])
qed

text \<open>A new request: its descriptors were free, so no other request used them.\<close>

lemma reqs_ok_add:
  assumes q: "reqs_ok A D s R ph" and f: "free (vio s) ! a" "free (vio s) ! b" "free (vio s) ! c" "length (free (vio s)) = 8"
    and new: "\<forall>r\<in>ran R. req_ha r \<noteq> ha \<and> req_ba r \<noteq> ba"
    and s: "free (vio s') = (free (vio s))[a := False, b := False, c := False]"
      "\<And>j. j \<notin> {a, b, c} \<Longrightarrow> desc (vio s') ! j = desc (vio s) ! j"
      "\<And>j. j \<noteq> a \<Longrightarrow> info (vio s') ! j = info (vio s) ! j"
      "\<And>x. x \<noteq> ha \<Longrightarrow> hdrs s' x = hdrs s x"
    and ok: "req_ok A D s' a (b, c, bno, ha, ba) PAvail"
  shows "reqs_ok A D s' (R(a \<mapsto> (b, c, bno, ha, ba))) (ph(a \<mapsto> PAvail))" "R a = None"
proof -
  have nf: "i \<noteq> a \<and> i \<noteq> b \<and> i \<noteq> c" if t: "R h = Some r" "i \<in> chain_of h r" for h r i
  proof -
    obtain p where "ph h = Some p" using reqs_okD(2)[OF q t(1)] by blast
    from req_ok_chain(4)[OF reqs_okD(1)[OF q t(1) this] t(2)] f show ?thesis by auto
  qed
  have hin: "h \<in> chain_of h r" for h r by (cases r) simp
  show Ra: "R a = None" using nf[OF _ hin] by (metis not_None_eq)
  have bnd: "a < 8" "b < 8" "c < 8" using ok by simp_all
  show "reqs_ok A D s' (R(a \<mapsto> (b, c, bno, ha, ba))) (ph(a \<mapsto> PAvail))"
    unfolding reqs_ok_def
  proof (intro conjI allI impI)
    have "dom ph = dom R" using q unfolding reqs_ok_def by blast
    then show "dom (ph(a \<mapsto> PAvail)) = dom (R(a \<mapsto> (b, c, bno, ha, ba)))" by simp
  next
    fix h r p assume a: "(R(a \<mapsto> (b, c, bno, ha, ba))) h = Some r" "(ph(a \<mapsto> PAvail)) h = Some p"
    show "req_ok A D s' h r p"
    proof (cases "h = a")
      case True
      then show ?thesis using a ok by auto
    next
      case False
      then have hr: "R h = Some r" "ph h = Some p" using a by simp_all
      obtain i1 i2 bno' ha' ba' where r: "r = (i1, i2, bno', ha', ba')" by (cases r)
      have "ha' \<noteq> ha" using new hr(1) r ranI by fastforce
      moreover have "desc (vio s') ! k = desc (vio s) ! k \<and> free (vio s') ! k = free (vio s) ! k" if "k = h \<or> k = i1 \<or> k = i2" for k
        using nf[OF hr(1), of k] r that s(1,2) by auto
      ultimately show ?thesis
        using reqs_okD(1)[OF q hr] False s(3,4) unfolding r by simp
    qed
  next
    fix i :: nat assume i: "i < 8" "\<not> free (vio s') ! i"
    show "\<exists>h r. (R(a \<mapsto> (b, c, bno, ha, ba))) h = Some r \<and> i \<in> chain_of h r"
    proof (cases "i \<in> {a, b, c}")
      case True
      then have "i \<in> chain_of a (b, c, bno, ha, ba)" by auto
      then show ?thesis by (metis fun_upd_same)
    next
      case False
      then have "\<not> free (vio s) ! i" using i s(1) by simp
      then obtain h r where "R h = Some r" "i \<in> chain_of h r" using reqs_okD(5)[OF q i(1)] by blast
      then show ?thesis using Ra by (metis fun_upd_other option.distinct(1))
    qed
  next
    fix i :: nat assume i: "i < 8" "info (vio s') ! i \<noteq> None"
    show "(R(a \<mapsto> (b, c, bno, ha, ba))) i \<noteq> None"
    proof (cases "i = a")
      case False
      then show ?thesis using i s(3)[OF False] reqs_okD(6)[OF q i(1)] by simp
    qed simp
  next
    fix h h' r r'
    assume hh: "(R(a \<mapsto> (b, c, bno, ha, ba))) h = Some r" "(R(a \<mapsto> (b, c, bno, ha, ba))) h' = Some r'" "h \<noteq> h'"
    have other: "chain_of k rk \<inter> {a, b, c} = {} \<and> req_ha rk \<noteq> ha \<and> req_ba rk \<noteq> ba" if "R k = Some rk" for k rk
      using nf[OF that] new ranI[of R k rk] that by blast
    have "chain_of h r \<inter> chain_of h' r' = {} \<and> req_ha r \<noteq> req_ha r' \<and> req_ba r \<noteq> req_ba r'"
    proof (cases "h = a")
      case True
      then have "R h' = Some r'" "r = (b, c, bno, ha, ba)" using hh by auto
      then show ?thesis using other[of h' r'] True by auto
    next
      case False
      show ?thesis
      proof (cases "h' = a")
        case True
        then have "R h = Some r" "r' = (b, c, bno, ha, ba)" using hh by auto
        then show ?thesis using other[of h r] True by auto
      next
        case f': False
        then have "R h = Some r" "R h' = Some r'" using hh False by simp_all
        then show ?thesis using reqs_okD(4)[OF q _ _ hh(3)] by blast
      qed
    qed
    then show "chain_of h r \<inter> chain_of h' r' = {}" "req_ha r \<noteq> req_ha r'" "req_ba r \<noteq> req_ba r'" by blast+
  qed
qed

lemma submit_inv:
  assumes i: "dinv A D y ph aw uw" and run: "rw_run A (RwAlloc b False ha) (drv y) = Inr (s', RwWait h, ch)"
    and new: "\<forall>r\<in>ran (reqs y). req_ha r \<noteq> ha \<and> req_ba r \<noteq> box_addr b"
    and ii: "i1 = unat (d_next (desc (vio s') ! h))" "i2 = unat (d_next (desc (vio s') ! i1))"
  shows "dinv A D (y\<lparr>drv := s', reqs := (reqs y)(h \<mapsto> (i1, i2, blockno (unbox b), ha, box_addr b))\<rparr>) (ph(h \<mapsto> PAvail)) (aw @ [h]) uw"
proof -
  note I = dinvD[OF i]
  let ?v = "vio (drv y)"
  have L: "length (free ?v) = 8" "length (desc ?v) = 8" "length (info ?v) = 8" "10 \<le> length (avail ?v)"
    using I(1) by (simp_all add: rings_ok_def)
  from L(1,2) show ?thesis
  proof (cases rule: alloc3_cases[of "drv y" A])
    case none
    then show ?thesis using run by (simp add: rw_sector_ok)
  next
    case (some p q r)
    let ?s1 = "(drv y)\<lparr>vio := ?v\<lparr>free := (free ?v)[p := False, q := False, r := False]\<rparr>\<rparr>"
    obtain av where av: "add_chk (avail ?v ! 1) 1 = Inr av"
      using run some(1) rw_submit_ok[of ?s1 p q r] some(2-7) L by (cases "add_chk (avail ?v ! 1) 1") (simp_all add: rw_sector_ok)
    have av1: "av = avail ?v ! 1 + 1" using add_chk_InrD(1)[OF av] .
    define s2 where "s2 = ?s1\<lparr>vio := (vio ?s1)\<lparr>
      desc := (desc ?v)[p := \<lparr>d_addr = ha, d_len = 16, d_flags = VRING_DESC_F_NEXT, d_next = of_nat q\<rparr>,
        q := \<lparr>d_addr = box_addr b + 16, d_len = ucast BSIZE, d_flags = VRING_DESC_F_WRITE OR VRING_DESC_F_NEXT, d_next = of_nat r\<rparr>,
        r := \<lparr>d_addr = status_addr A p, d_len = 1, d_flags = VRING_DESC_F_WRITE, d_next = 0\<rparr>],
      info := (info ?v)[p := Some \<lparr>op_buf = b\<lparr>unbox := (unbox b)\<lparr>b_disk := 1\<rparr>\<rparr>, op_status = 0\<rparr>],
      avail := (avail ?v)[2 + unat (avail ?v ! 1) mod 8 := of_nat p, 1 := av]\<rparr>,
      hdrs := (hdrs (drv y))(ha \<mapsto> \<lparr>blk_type = VIRTIO_BLK_T_IN, reserved = 0, sector = ucast (blockno (unbox b)) * 2\<rparr>), notified := 0 # notified (drv y)\<rparr>"
    have "rw_submit A b False ha (ucast (blockno (unbox b)) * 2) [p, q, r] ?s1 = Inr s2"
      using rw_submit_ok[of ?s1 p q r] some(2-7) L av unfolding s2_def by simp
    then have "rw_run A (RwAlloc b False ha) (drv y) = rw_wait A p s2"
      using some(1) by (simp add: rw_sector_ok)
    also have "\<dots> = Inr (s2, RwWait p, Some (box_addr b))"
      using L(3) some(2) by (simp add: rw_wait_def s2_def)
    finally have s': "s' = s2" "h = p" using run by simp_all
    have ix: "i1 = q" "i2 = r" using ii s' L some(2-7) by (simp_all add: s2_def unat_of_nat_u16)
    have "req_ok A D s2 p (q, r, blockno (unbox b), ha, box_addr b) PAvail"
      using L some(2-7) by (simp add: s2_def)
    note q = reqs_ok_add[OF I(2) some(8-10) L(1) new _ _ _ _ this]
    have q1: "reqs_ok A D s2 ((reqs y)(p \<mapsto> (q, r, blockno (unbox b), ha, box_addr b))) (ph(p \<mapsto> PAvail))"
      by (rule q(1)) (simp_all add: s2_def)
    have "reqs y p = None" by (rule q(2)) (simp_all add: s2_def)
    then have php: "ph p = None" using reqs_okD(3)[OF I(2)] by (metis not_None_eq option.distinct(1))
    have w: "length aw \<le> 2" by (rule window_bound(1)[OF I(2,3)]) (use I(4) in auto)
    have la: "avail ?v ! 1 = last_avail y + of_nat (length aw)" using I(1) by (simp add: rings_ok_def)
    have e: "avail (vio s2) ! (2 + unat (last_avail y + of_nat k) mod 8) = of_nat ((aw @ [p]) ! k)" if "k < length (aw @ [p])" for k
    proof (cases "k < length aw")
      case True
      then have "(unat (last_avail y) + k) mod 8 \<noteq> (unat (last_avail y) + length aw) mod 8"
        using mod8_window[of "unat (last_avail y)" k "length aw"] w by auto
      then have "avail (vio s2) ! (2 + unat (last_avail y + of_nat k) mod 8) = avail ?v ! (2 + unat (last_avail y + of_nat k) mod 8)"
        unfolding s2_def la by (simp add: mod8_u16(2))
      then show ?thesis using I(1) True unfolding rings_ok_def by (simp add: nth_append)
    next
      case False
      then have k: "k = length aw" using that by simp
      have "2 + unat (avail ?v ! 1) mod 8 < length (avail ?v)"
        using L(4) mod_less_divisor[of 8 "unat (avail ?v ! 1)"] by linarith
      then show ?thesis unfolding k s2_def la[symmetric] by simp
    qed
    have "rings_ok (vio s2) (last_avail y) (aw @ [p]) uw"
      using I(1) e av1 la L unfolding rings_ok_def by (simp add: s2_def add.assoc)
    then have "dinv A D (y\<lparr>drv := s2, reqs := (reqs y)(p \<mapsto> (q, r, blockno (unbox b), ha, box_addr b))\<rparr>) (ph(p \<mapsto> PAvail)) (aw @ [p]) uw"
      using q1 I(3-7) php by (auto simp: dinv_def)
    then show ?thesis unfolding s' ix .
  qed
qed

lemma reqs_ok_drop_descs:
  assumes q: "reqs_ok A D s R ph" and s: "free (vio s') = free (vio s)" "hdrs s' = hdrs s" "info (vio s') = info (vio s)"
    and d: "\<And>j. j < 8 \<Longrightarrow> \<not> free (vio s) ! j \<Longrightarrow> desc (vio s') ! j = desc (vio s) ! j"
  shows "reqs_ok A D s' R ph"
proof -
  have "req_ok A D s' h r p" if t: "req_ok A D s h r p" for h r p
    using t d s by (cases r) simp
  then show ?thesis using q unfolding reqs_ok_def s(1,3) by blast
qed

lemma rw_wait_not_alloc: "rw_wait A i s \<noteq> Inr (s', RwAlloc b w ha, c)"
  by (auto simp: rw_wait_def split: option.splits if_splits)

lemma full_inv:
  assumes i: "dinv A D y ph aw uw" and run: "rw_run A (RwAlloc b w ha) (drv y) = Inr (s', RwAlloc b' w' ha', c)"
  shows "disk_inv A D (y\<lparr>drv := s'\<rparr>)"
proof -
  note I = dinvD[OF i]
  have L: "length (free (vio (drv y))) = 8" "length (desc (vio (drv y))) = 8" using I(1) by (simp_all add: rings_ok_def)
  from L show ?thesis
  proof (cases rule: alloc3_cases[of "drv y" A])
    case some
    then show ?thesis using run rw_wait_not_alloc by (auto simp: rw_sector_ok)
  next
    case (none ds wk)
    let ?s = "(drv y)\<lparr>vio := (vio (drv y))\<lparr>desc := ds\<rparr>, woken := wk\<rparr>"
    have s': "s' = ?s" using run none(1) by (simp add: rw_sector_ok)
    have "reqs_ok A D ?s (reqs y) ph" by (rule reqs_ok_drop_descs[OF I(2)]) (use none(3) in simp_all)
    then have "dinv A D (y\<lparr>drv := ?s\<rparr>) ph aw uw"
      using I none(2) by (simp add: dinv_def rings_ok_def)
    then show ?thesis unfolding s' disk_inv_def by blast
  qed
qed

text \<open>A waiting caller never panics: it sleeps again, or it finishes with its block.\<close>

lemma wait_cases:
  assumes i: "dinv A D y ph aw uw" and h: "reqs y h = Some r"
  obtains (sleep) c where "ph h \<noteq> Some PDone" "rw_wait A h (drv y) = Inr (drv y, RwWait h, Some c)"
  | (fin) b ds wk where "ph h = Some PDone"
      "rw_wait A h (drv y) = Inr ((drv y)\<lparr>vio := (vio (drv y))\<lparr>info := (info (vio (drv y)))[h := None], desc := ds,
         free := (free (vio (drv y)))[h := True, fst r := True, fst (snd r) := True]\<rparr>, woken := wk\<rparr>, RwDone b, None)"
      "length ds = 8" "\<And>j. j \<notin> chain_of h r \<Longrightarrow> ds ! j = desc (vio (drv y)) ! j"
      "b_data (unbox b) = disk_block D (ucast (req_bno r) * 2)" "box_addr b = req_ba r"
proof -
  note I = dinvD[OF i]
  obtain p where p: "ph h = Some p" using reqs_okD(2)[OF I(2) h] by blast
  obtain i1 i2 bno ha ba where r: "r = (i1, i2, bno, ha, ba)" by (cases r)
  note ok = reqs_okD(1)[OF I(2) h p, unfolded r]
  let ?v = "vio (drv y)"
  have L: "length (free ?v) = 8" "length (desc ?v) = 8" "length (info ?v) = 8" using I(1) by (simp_all add: rings_ok_def)
  obtain op where op: "info ?v ! h = Some op" "box_addr (op_buf op) = ba"
      "b_disk (unbox (op_buf op)) = (if p = PDone then 0 else 1)"
      "p = PDone \<Longrightarrow> b_data (unbox (op_buf op)) = disk_block D (ucast bno * 2)" "h < 8" using ok by auto
  show ?thesis
  proof (cases "p = PDone")
    case False
    then show ?thesis using sleep op L p by (simp add: rw_wait_def)
  next
    case True
    let ?s = "(drv y)\<lparr>vio := ?v\<lparr>info := (info ?v)[h := None]\<rparr>\<rparr>"
    have "\<exists>ds w. free_chain A h ?s = Inr (?s\<lparr>vio := (vio ?s)\<lparr>desc := ds, free := (free (vio ?s))[h := True, i1 := True, i2 := True]\<rparr>, woken := w\<rparr>) \<and>
      length ds = 8 \<and> (\<forall>j. j \<notin> {h, i1, i2} \<longrightarrow> ds ! j = desc (vio ?s) ! j)"
      by (rule free_chain_three) (use ok L in \<open>simp_all add: VRING_DESC_F_NEXT_def VRING_DESC_F_WRITE_def\<close>)
    then obtain ds w where fc: "free_chain A h ?s = Inr (?s\<lparr>vio := (vio ?s)\<lparr>desc := ds, free := (free (vio ?s))[h := True, i1 := True, i2 := True]\<rparr>, woken := w\<rparr>)"
      "length ds = 8" "\<forall>j. j \<notin> {h, i1, i2} \<longrightarrow> ds ! j = desc (vio ?s) ! j" by blast
    have "rw_wait A h (drv y) = Inr (?s\<lparr>vio := (vio ?s)\<lparr>desc := ds, free := (free (vio ?s))[h := True, i1 := True, i2 := True]\<rparr>, woken := w\<rparr>, RwDone (op_buf op), None)"
      using fc(1) op L True by (simp add: rw_wait_def)
    then show ?thesis using fin[where ds = ds and b = "op_buf op" and wk = w] fc(2,3) p True op r by simp
  qed
qed

lemma reqs_ok_remove:
  assumes q: "reqs_ok A D s R ph" and h: "R h = Some r"
    and s: "hdrs s' = hdrs s" "info (vio s') = (info (vio s))[h := None]" "length (info (vio s)) = 8"
      "free (vio s') = (free (vio s))[h := True, fst r := True, fst (snd r) := True]" "length (free (vio s)) = 8"
    and d: "\<And>j. j \<notin> chain_of h r \<Longrightarrow> desc (vio s') ! j = desc (vio s) ! j"
  shows "reqs_ok A D s' (R(h := None)) (ph(h := None))"
proof -
  obtain i1 i2 bno ha ba where r: "r = (i1, i2, bno, ha, ba)" by (cases r)
  obtain p where p: "ph h = Some p" using reqs_okD(2)[OF q h] by blast
  have b: "h < 8" "i1 < 8" "i2 < 8" using reqs_okD(1)[OF q h p] unfolding r by simp_all
  have dom: "dom ph = dom R" using q unfolding reqs_ok_def by blast
  show ?thesis
    unfolding reqs_ok_def
  proof (intro conjI allI impI)
    show "dom (ph(h := None)) = dom (R(h := None))" using dom by simp
  next
    fix k rk pk assume k: "(R(h := None)) k = Some rk" "(ph(h := None)) k = Some pk"
    then have kh: "k \<noteq> h" and k': "R k = Some rk" "ph k = Some pk" by (auto split: if_splits)
    obtain j1 j2 bno' ha' ba' where rk: "rk = (j1, j2, bno', ha', ba')" by (cases rk)
    have "chain_of k rk \<inter> chain_of h r = {}" using reqs_okD(4)[OF q k'(1) h kh] by blast
    then have ne: "j \<notin> {h, i1, i2}" if "j = k \<or> j = j1 \<or> j = j2" for j using that unfolding rk r by auto
    have "desc (vio s') ! j = desc (vio s) ! j \<and> free (vio s') ! j = free (vio s) ! j" if "j = k \<or> j = j1 \<or> j = j2" for j
      using ne[OF that] d[of j] s(4) r by auto
    then show "req_ok A D s' k rk pk"
      using reqs_okD(1)[OF q k'] kh s(1,2) unfolding rk by simp
  next
    fix i :: nat assume i: "i < 8" "\<not> free (vio s') ! i"
    then have ne: "i \<noteq> h" "i \<noteq> i1" "i \<noteq> i2" and "\<not> free (vio s) ! i"
      using s(4,5) b r by (auto simp: nth_list_update split: if_splits)
    then obtain k rk where k: "R k = Some rk" "i \<in> chain_of k rk" using reqs_okD(5)[OF q i(1)] by blast
    then have "k \<noteq> h" using h ne r by auto
    then show "\<exists>k rk. (R(h := None)) k = Some rk \<and> i \<in> chain_of k rk" using k by (metis fun_upd_other)
  next
    fix i :: nat assume i: "i < 8" "info (vio s') ! i \<noteq> None"
    then have "i \<noteq> h" "info (vio s) ! i \<noteq> None" using s(2,3) b by (auto simp: nth_list_update split: if_splits)
    then show "(R(h := None)) i \<noteq> None" using reqs_okD(6)[OF q i(1)] by simp
  next
    fix k k' rk rk' assume "(R(h := None)) k = Some rk" "(R(h := None)) k' = Some rk'" "k \<noteq> k'"
    then have "R k = Some rk" "R k' = Some rk'" by (auto split: if_splits)
    from reqs_okD(4)[OF q this \<open>k \<noteq> k'\<close>]
    show "chain_of k rk \<inter> chain_of k' rk' = {}" "req_ha rk \<noteq> req_ha rk'" "req_ba rk \<noteq> req_ba rk'" by blast+
  qed
qed

lemma finish_inv:
  assumes i: "dinv A D y ph aw uw" and h: "reqs y h = Some r" and run: "rw_run A (RwWait h) (drv y) = Inr (s', RwDone b, None)"
  shows "disk_inv A D (y\<lparr>drv := s', reqs := (reqs y)(h := None)\<rparr>)"
  using i h
proof (cases rule: wait_cases)
  case (sleep c)
  then show ?thesis using run by simp
next
  case (fin b' ds wk)
  note I = dinvD[OF i]
  let ?v = "vio (drv y)"
  let ?s = "(drv y)\<lparr>vio := ?v\<lparr>info := (info ?v)[h := None], desc := ds,
         free := (free ?v)[h := True, fst r := True, fst (snd r) := True]\<rparr>, woken := wk\<rparr>"
  have s': "s' = ?s" using run fin(2) by simp
  have L: "length (free ?v) = 8" "length (info ?v) = 8" using I(1) by (simp_all add: rings_ok_def)
  have "reqs_ok A D ?s ((reqs y)(h := None)) (ph(h := None))"
    by (rule reqs_ok_remove[OF I(2) h]) (use L fin(4) in simp_all)
  moreover have "rings_ok (vio ?s) (last_avail y) aw uw" using I(1) fin(3) by (simp add: rings_ok_def)
  ultimately have "dinv A D (y\<lparr>drv := ?s, reqs := (reqs y)(h := None)\<rparr>) (ph(h := None)) aw uw"
    using I(3-7) fin(1) by (auto simp: dinv_def)
  then show ?thesis unfolding s' disk_inv_def by blast
qed

lemma disk_step_inv:
  assumes inj: "inj_on (status_addr A) {..<8}" and st: "disk_step A D y y'" and i: "disk_inv A D y"
  shows "disk_inv A D y'"
proof -
  obtain ph aw uw where I: "dinv A D y ph aw uw" using i unfolding disk_inv_def by blast
  from st show ?thesis
  proof cases
    case (submit b ha s' h c i1 i2)
    show ?thesis unfolding submit(1) disk_inv_def using submit_inv[OF I submit(2,3,5,6)] by blast
  next
    case (full b ha s' c)
    show ?thesis unfolding full(1) by (rule full_inv[OF I full(2)])
  next
    case (take h)
    show ?thesis unfolding take(1) disk_inv_def using take_inv(2)[OF I take(2,3)] by blast
  next
    case (complete h v d0 d1 d2 hdr k op op' j opj infos u u')
    note c = complete
    show ?thesis unfolding c(1) disk_inv_def
      using complete_inv[OF I inj c(2-7) c(9)[unfolded DESC_NUM_num] c(10,11,13) c(14)[unfolded DESC_NUM_num] c(15-18) c(19)[unfolded DESC_NUM_num]] by blast
  next
    case (intr s')
    show ?thesis using intr_inv[OF I] intr unfolding disk_inv_def by auto
  next
    case (finish h s' b)
    then obtain r where r: "reqs y h = Some r" by auto
    show ?thesis unfolding finish(1) by (rule finish_inv[OF I r finish(3)])
  qed
qed

lemma disk_reach_inv: "disk_reach A D y \<Longrightarrow> inj_on (status_addr A) {..<8} \<Longrightarrow> disk_inv A D y"
proof (induction rule: disk_reach.induct)
  case start
  then show ?case using disk_init_inv unfolding disk_inv_def by blast
next
  case (step y y')
  then show ?case using disk_step_inv by blast
qed

section \<open>Properties\<close>

text \<open>C18: In every state the driver and the device can reach, under every interleaving of
  submissions, completions and interrupts, a caller waiting in \<open>rw\<close> never panics: it goes back
  to sleep with nothing changed, or it returns its own buffer holding the 1024 bytes of the
  block it asked for. (The compiler places the status bytes of the slots at distinct addresses.)\<close>

theorem disk_read_correct:
  assumes "disk_reach A D y" "inj_on (status_addr A) {..<DESC_NUM}" "reqs y h = Some r"
  shows "(\<exists>c. rw_run A (RwWait h) (drv y) = Inr (drv y, RwWait h, Some c)) \<or>
    (\<exists>s' b. rw_run A (RwWait h) (drv y) = Inr (s', RwDone b, None) \<and> box_addr b = req_ba r \<and>
       b_data (unbox b) = disk_block D (ucast (req_bno r) * 2))"
proof -
  obtain ph aw uw where I: "dinv A D y ph aw uw"
    using disk_reach_inv[OF assms(1) assms(2)[unfolded DESC_NUM_num]] unfolding disk_inv_def by blast
  from I assms(3) show ?thesis by (cases rule: wait_cases) auto
qed


text \<open>\<open>VirtIO::init\<close> writes the accepted features to the read-only register of the device's
  features: what a device does with a write to \<open>DRIVER_FEATURES\<close> makes no difference.\<close>

lemma VirtIO_init_no_driver_features:
  assumes "rd32 B = rd32 B'" "\<And>a v d. a \<noteq> mmio_val DRIVER_FEATURES \<Longrightarrow> wr32 B a v d = wr32 B' a v d"
  shows "VirtIO_init B va v d = VirtIO_init B' va v d"
proof -
  have rd: "mmio_rd B = mmio_rd B'" using assms(1) by (simp add: mmio_rd_def fun_eq_iff)
  have wr: "mmio_wr B r = mmio_wr B' r" if "r \<noteq> DRIVER_FEATURES" for r
  proof -
    have "mmio_val r \<noteq> mmio_val DRIVER_FEATURES" using that by (cases r) (simp_all add: mmio_val_def)
    then show ?thesis using assms(2) by (simp add: mmio_wr_def fun_eq_iff)
  qed
  show ?thesis unfolding VirtIO_init_def by (simp only: rd wr VIRTIO_MMIO.distinct not_False_eq_True)
qed

text \<open>The available index is a \<open>u16\<close> incremented with a checked addition: the 65536th request
  panics.\<close>

lemma rw_avail_overflow:
  assumes "length (desc (vio s)) = 8" "length (info (vio s)) = 8" "length (free (vio s)) = 8" "10 \<le> length (avail (vio s))"
    and "avail (vio s) ! 1 = 65535" "alloc3_desc A s = Inr (s1, Some idx)"
  shows "rw_run A (RwAlloc b False ha) s = Inl Overflow"
  using assms(3,1)
proof (cases rule: alloc3_cases[of s A])
  case (some p q r)
  have "add_chk (avail (vio s) ! 1) 1 = Inl Overflow" unfolding assms(5) by (simp add: add_chk_def)
  then have "rw_submit A b False ha (ucast (blockno (unbox b)) * 2) [p, q, r] (s\<lparr>vio := (vio s)\<lparr>free := (free (vio s))[p := False, q := False, r := False]\<rparr>\<rparr>) = Inl Overflow"
    using some assms by (subst rw_submit_ok) simp_all
  then show ?thesis using some(1) by (simp add: rw_sector_ok)
next
  case none
  then show ?thesis using assms(6) by simp
qed

lemma demo_inj: "inj_on (status_addr demo_addrs) {..<DESC_NUM}"
  unfolding demo_addrs_def by (auto intro!: inj_onI simp: of_nat_inverse dest!: arg_cong[where f = unat] simp: unat_of_nat)

lemma AVAIL_SZ_num: "unat AVAIL_SZ = 1984"
  by (simp add: AVAIL_SZ_def consts_simps)

lemma demo_alloc: "alloc3_desc demo_addrs (drv disk_init) = Inr ((drv disk_init)\<lparr>vio := (vio (drv disk_init))\<lparr>free := (replicate 8 True)[0 := False, 1 := False, 2 := False]\<rparr>\<rparr>, Some [0, 1, 2])"
  by (simp add: alloc3_desc_def numeral_3_eq_3 alloc_desc_def disk_init_def eval_nat_numeral)

lemma demo_submit: "rw_run demo_addrs (RwAlloc demo_buf False 100) (drv disk_init) = Inr (demo_s1, RwWait 0, Some 0x80000000)"
proof -
  let ?s = "(drv disk_init)\<lparr>vio := (vio (drv disk_init))\<lparr>free := (replicate 8 True)[0 := False, 1 := False, 2 := False]\<rparr>\<rparr>"
  have "rw_submit demo_addrs demo_buf False 100 10 [0, 1, 2] ?s = Inr demo_s1"
    by (subst rw_submit_ok) (simp_all add: disk_init_def VirtIO_new_def AVAIL_SZ_num demo_s1_def demo_buf_def demo_addrs_def add_chk_def)
  moreover have "rw_wait demo_addrs 0 demo_s1 = Inr (demo_s1, RwWait 0, Some 0x80000000)"
    by (simp add: rw_wait_def demo_s1_def demo_buf_def)
  ultimately show ?thesis using demo_alloc by (simp add: rw_sector_ok demo_buf_def Buf_new_def)
qed

lemma demo_reach: "disk_reach demo_addrs (\<lambda>i. of_nat i) demo_y"
proof -
  let ?A = demo_addrs and ?D = "\<lambda>i. of_nat i :: u8"
  let ?R = "[0 \<mapsto> (1, 2, 5, 100, 0x80000000)] :: nat \<rightharpoonup> req"
  let ?y1 = "\<lparr>drv = demo_s1, last_avail = 0, taken = {}, reqs = ?R\<rparr>"
  let ?y2 = "\<lparr>drv = demo_s1, last_avail = 1, taken = {0}, reqs = ?R\<rparr>"
  have y0: "disk_reach ?A ?D disk_init" by (rule disk_reach.start)
  have "disk_step ?A ?D disk_init (disk_init\<lparr>drv := demo_s1, reqs := (reqs disk_init)(0 \<mapsto> (1, 2, blockno (unbox demo_buf), 100, box_addr demo_buf))\<rparr>)"
    by (rule disk_step.submit[OF demo_submit]) (simp_all add: disk_init_def demo_buf_def Buf_new_def demo_s1_def)
  moreover have "disk_init\<lparr>drv := demo_s1, reqs := (reqs disk_init)(0 \<mapsto> (1, 2, blockno (unbox demo_buf), 100, box_addr demo_buf))\<rparr> = ?y1"
    by (simp add: disk_init_def demo_buf_def)
  ultimately have y1: "disk_reach ?A ?D ?y1" using disk_reach.step[OF y0] by simp
  have av: "avail (vio demo_s1) ! 1 = 1" "avail (vio demo_s1) ! 2 = 0" by (simp_all add: demo_s1_def AVAIL_SZ_num)
  have "disk_step ?A ?D ?y1 (?y1\<lparr>last_avail := last_avail ?y1 + 1, taken := insert 0 (taken ?y1)\<rparr>)"
    by (rule disk_step.take) (simp_all add: av[simplified])
  then have y2: "disk_reach ?A ?D ?y2" using disk_reach.step[OF y1] by simp
  let ?v = "vio demo_s1" and ?u = "UsedArea_new"
  let ?op = "\<lparr>op_buf = demo_buf\<lparr>unbox := (unbox demo_buf)\<lparr>b_disk := 1\<rparr>\<rparr>, op_status = 0\<rparr>"
  let ?op' = "?op\<lparr>op_buf := (op_buf ?op)\<lparr>unbox := (unbox (op_buf ?op))\<lparr>b_data := disk_block ?D 10\<rparr>\<rparr>\<rparr>"
  have "disk_step ?A ?D ?y2 (?y2\<lparr>drv := (drv ?y2)\<lparr>vio := ?v\<lparr>info := (info ?v)[0 := Some ?op', 0 := Some (?op'\<lparr>op_status := 0\<rparr>)],
      used := (used ?v)[0 := ?u\<lparr>elems := (elems ?u)[unat (ua_id ?u) mod DESC_NUM := \<lparr>ue_id = of_nat 0, ue_len = ucast BSIZE\<rparr>], ua_id := ua_id ?u + 1\<rparr>]\<rparr>\<rparr>,
      taken := taken ?y2 - {0}\<rparr>)"
    by (rule disk_step.complete[where h = 0 and i = 0 and j = 0 and op = ?op and op' = ?op' and opj = ?op' and u = ?u
          and ?d0.0 = "\<lparr>d_addr = 100, d_len = 16, d_flags = VRING_DESC_F_NEXT, d_next = 1\<rparr>"
          and ?d1.0 = "\<lparr>d_addr = 0x80000010, d_len = ucast BSIZE, d_flags = VRING_DESC_F_WRITE OR VRING_DESC_F_NEXT, d_next = 2\<rparr>"
          and ?d2.0 = "\<lparr>d_addr = 0, d_len = 1, d_flags = VRING_DESC_F_WRITE, d_next = 0\<rparr>" and v = ?v
          and hdr = "\<lparr>blk_type = VIRTIO_BLK_T_IN, reserved = 0, sector = 10\<rparr>"])
      (simp_all add: demo_s1_def demo_buf_def demo_addrs_def VirtIO_new_def)
  moreover have "?y2\<lparr>drv := (drv ?y2)\<lparr>vio := ?v\<lparr>info := (info ?v)[0 := Some ?op', 0 := Some (?op'\<lparr>op_status := 0\<rparr>)],
      used := (used ?v)[0 := ?u\<lparr>elems := (elems ?u)[unat (ua_id ?u) mod DESC_NUM := \<lparr>ue_id = of_nat 0, ue_len = ucast BSIZE\<rparr>], ua_id := ua_id ?u + 1\<rparr>]\<rparr>\<rparr>,
      taken := taken ?y2 - {0}\<rparr> = demo_y"
    by (simp add: demo_y_def demo_s2_def demo_s1_def VirtIO_new_def UsedArea_new_def)
  ultimately have "disk_step ?A ?D ?y2 demo_y" by simp
  then show ?thesis by (rule disk_reach.step[OF y2])
qed

lemma demo_pending: "intr_pending demo_s2 = 1" "used_idx (vio demo_s2) = 0" "ue_id (elems (used (vio demo_s2) ! 0) ! 0) = 0"
  by (simp_all add: intr_pending_def demo_s2_def demo_s1_def VirtIO_new_def UsedArea_new_def)

theorem disk_read_correct_witness:
  "disk_reach demo_addrs (\<lambda>i. of_nat i) demo_y \<and>
   ((\<exists>c. rw_run demo_addrs (RwWait 0) (drv demo_y) = Inr (drv demo_y, RwWait 0, Some c)) \<or>
    (\<exists>s' b. rw_run demo_addrs (RwWait 0) (drv demo_y) = Inr (s', RwDone b, None) \<and> box_addr b = 0x80000000 \<and>
       b_data (unbox b) = disk_block (\<lambda>i. of_nat i) 10))"
  using disk_read_correct[OF demo_reach demo_inj, of 0 "(1, 2, 5, 100, 0x80000000)"] demo_reach by (simp add: demo_y_def)


end
