(* ===== verification/Disk.thy ===== *)
theory Disk
  imports Virtio PageTree
begin

text \<open>
  The block device as the file system uses it: one read at a time. \<open>block_device\<close> states what
  \<open>VirtIO::read\<close> promises its callers; the driver of \<open>virtio.rs\<close>, run together with a device that
  answers each request, keeps the promise.
\<close>

section \<open>Definitions\<close>

text \<open>
  What the file system calls: \<open>VIRTIO().read(dev, blockno)\<close>, which returns a box, and dropping
  that box.
\<close>

record 'w disk =
  disk_read :: "u32 \<Rightarrow> u32 \<Rightarrow> 'w \<Rightarrow> ('w \<times> Buf Box) res"
  drop_buf :: "Buf Box \<Rightarrow> 'w \<Rightarrow> 'w res"

text \<open>
  A device that takes the next request off the available ring and completes it; \<open>None\<close> when it
  cannot make sense of the descriptors.
\<close>

definition dev_run :: "vaddrs \<Rightarrow> (nat \<Rightarrow> u8) \<Rightarrow> vsys \<Rightarrow> vsys option" where
  "dev_run A D y =
     (let v = vio (drv y);
          h = unat (avail v ! (2 + unat (last_avail y) mod DESC_NUM));
          d0 = desc v ! h; d1 = desc v ! unat (d_next d0); d2 = desc v ! unat (d_next d1)
      in if last_avail y = avail v ! 1 then None
         else case (hdrs (drv y) (d_addr d0),
             find (\<lambda>i. case info v ! i of None \<Rightarrow> False | Some op \<Rightarrow> box_addr (op_buf op) + 16 = d_addr d1) [0..<DESC_NUM],
             find (\<lambda>j. status_addr A j = d_addr d2) [0..<DESC_NUM]) of
           (Some hdr, Some i, Some j) \<Rightarrow>
             if blk_type hdr \<noteq> VIRTIO_BLK_T_IN \<or> d_len d1 \<noteq> ucast BSIZE then None
             else (let op = the (info v ! i);
                       op' = op\<lparr>op_buf := (op_buf op)\<lparr>unbox := (unbox (op_buf op))\<lparr>b_data := disk_block D (sector hdr)\<rparr>\<rparr>\<rparr>
                   in case (info v)[i := Some op'] ! j of
                        None \<Rightarrow> None
                      | Some opj \<Rightarrow>
                          (let u = used v ! 0;
                               u' = u\<lparr>elems := (elems u)[unat (ua_id u) mod DESC_NUM := \<lparr>ue_id = of_nat h, ue_len = ucast BSIZE\<rparr>],
                                      ua_id := ua_id u + 1\<rparr>
                           in Some (y\<lparr>last_avail := last_avail y + 1,
                                drv := (drv y)\<lparr>vio := v\<lparr>info := (info v)[i := Some op', j := Some (opj\<lparr>op_status := 0\<rparr>)],
                                  used := (used v)[0 := u']\<rparr>\<rparr>,
                                taken := taken y - {h}\<rparr>)))
         | _ \<Rightarrow> None)"

text \<open>
  \<open>VirtIO::read\<close> with nothing else running: the request is submitted, the caller sleeps, the
  device answers, the interrupt handler runs and the caller finishes. A caller that is never
  woken does not return; that case is \<open>Recursion\<close>.
\<close>

definition sync_read :: "vaddrs \<Rightarrow> (nat \<Rightarrow> u8) \<Rightarrow> usize \<Rightarrow> u32 \<Rightarrow> u32 \<Rightarrow> kmem \<times> vsys \<Rightarrow> ((kmem \<times> vsys) \<times> Buf Box) res" where
  "sync_read A D ha dev bno = (\<lambda>(m, y).
     rbind (VirtIO_read dev bno ha m) (\<lambda>(m1, st).
     rbind (rw_run A st (drv y)) (\<lambda>(s1, st1, c).
     case st1 of
       RwWait h \<Rightarrow>
         (let i1 = unat (d_next (desc (vio s1) ! h)); i2 = unat (d_next (desc (vio s1) ! i1));
              ba = (case st of RwAlloc b w ha \<Rightarrow> box_addr b | _ \<Rightarrow> 0)
          in case dev_run A D (y\<lparr>drv := s1, reqs := (reqs y)(h \<mapsto> (i1, i2, bno, ha, ba))\<rparr>) of
               None \<Rightarrow> Inl Recursion
             | Some y2 \<Rightarrow>
                 rbind (virtiointr (drv y2)) (\<lambda>s3.
                 rbind (rw_run A st1 s3) (\<lambda>(s4, st4, c4).
                   case st4 of
                     RwDone b \<Rightarrow> Inr ((m1, y2\<lparr>drv := s4, reqs := (reqs y2)(h := None)\<rparr>), b)
                   | _ \<Rightarrow> Inl Recursion)))
     | _ \<Rightarrow> Inl Recursion)))"

definition virtio_disk :: "vaddrs \<Rightarrow> (nat \<Rightarrow> u8) \<Rightarrow> usize \<Rightarrow> (kmem \<times> vsys) disk" where
  "virtio_disk A D ha = \<lparr>disk_read = sync_read A D ha,
     drop_buf = (\<lambda>b (m, y). rbind (free_frame (box_addr b) m) (\<lambda>m'. Inr (m', y)))\<rparr>"

text \<open>
  The driver can serve \<open>n\<close> more reads: the status bytes of the slots have distinct addresses, there
  is a frame for the buffer, no request is in flight
  and the available index has \<open>n\<close> values left.
\<close>

definition virtio_ready :: "vaddrs \<Rightarrow> (nat \<Rightarrow> u8) \<Rightarrow> nat \<Rightarrow> kmem \<times> vsys \<Rightarrow> bool" where
  "virtio_ready A D n = (\<lambda>(m, y). inj_on (status_addr A) {..<DESC_NUM} \<and> (\<exists>M. owns (alc m) M) \<and>
     0 < free_pages (alc m) \<and> disk_reach A D y \<and> reqs y = Map.empty \<and> unat (avail (vio (drv y)) ! 1) + n \<le> 65535)"

section \<open>The contract\<close>

locale block_device =
  fixes K :: "'w disk" and D :: "nat \<Rightarrow> u8" and ready :: "nat \<Rightarrow> 'w \<Rightarrow> bool"
  assumes read_block: "ready (Suc n) w \<Longrightarrow> \<exists>w' b w''. disk_read K dev bno w = Inr (w', b) \<and>
      b_data (unbox b) = disk_block D (ucast bno * 2) \<and> drop_buf K b w' = Inr w'' \<and> ready n w''"

section \<open>The driver keeps the contract\<close>

lemma quiet_dinv:
  assumes "disk_reach A D y" "inj_on (status_addr A) {..<8}" "reqs y = Map.empty"
  shows "dinv A D y Map.empty [] []" "free (vio (drv y)) = replicate 8 True"
proof -
  obtain ph aw uw where I: "dinv A D y ph aw uw"
    using disk_reach_inv[OF assms(1,2)] unfolding disk_inv_def by blast
  have "dom ph = dom (reqs y)" using dinvD(2)[OF I] unfolding reqs_ok_def by blast
  then have ph: "ph = Map.empty" using assms(3) by simp
  then have "aw = []" "uw = []" using dinvD(4,7)[OF I] by simp_all
  then show "dinv A D y Map.empty [] []" using I ph by simp
  have l: "length (free (vio (drv y))) = 8" using dinvD(1)[OF I] by (simp add: rings_ok_def)
  have "free (vio (drv y)) ! i" if "i < 8" for i
    using reqs_okD(5)[OF dinvD(2)[OF I] that] assms(3) by fastforce
  then show "free (vio (drv y)) = replicate 8 True" using l by (auto intro!: nth_equalityI)
qed

lemma alloc3_all_free:
  assumes "free (vio s) = replicate 8 True"
  shows "alloc3_desc A s = Inr (s\<lparr>vio := (vio s)\<lparr>free := (replicate 8 True)[0 := False, 1 := False, 2 := False]\<rparr>\<rparr>, Some [0, 1, 2])"
  by (simp add: alloc3_desc_def numeral_3_eq_3 alloc_desc_def assms eval_nat_numeral)

lemma quiet_submit:
  assumes I: "dinv A D y Map.empty [] []" and f: "free (vio (drv y)) = replicate 8 True"
    and av: "unat (avail (vio (drv y)) ! 1) < 65535"
  shows "\<exists>s' c. rw_run A (RwAlloc b False ha) (drv y) = Inr (s', RwWait 0, c) \<and>
    avail (vio s') ! 1 = avail (vio (drv y)) ! 1 + 1"
proof -
  let ?v = "vio (drv y)"
  let ?s1 = "(drv y)\<lparr>vio := ?v\<lparr>free := (replicate 8 True)[0 := False, 1 := False, 2 := False]\<rparr>\<rparr>"
  have L: "length (desc ?v) = 8" "length (info ?v) = 8" "10 \<le> length (avail ?v)"
    using dinvD(1)[OF I] by (simp_all add: rings_ok_def)
  have add: "add_chk (avail ?v ! 1) 1 = Inr (avail ?v ! 1 + 1)" using av by (simp add: add_chk_def)
  have "\<exists>s2. rw_submit A b False ha (ucast (blockno (unbox b)) * 2) [0, 1, 2] ?s1 = Inr s2 \<and>
      avail (vio s2) ! 1 = avail ?v ! 1 + 1 \<and> length (info (vio s2)) = 8 \<and>
      (\<exists>op. info (vio s2) ! 0 = Some op \<and> b_disk (unbox (op_buf op)) = 1)"
    using L add rw_submit_ok[of ?s1 0 1 2 A b ha "ucast (blockno (unbox b)) * 2"] by simp
  then obtain s2 op where s2: "rw_submit A b False ha (ucast (blockno (unbox b)) * 2) [0, 1, 2] ?s1 = Inr s2"
      "avail (vio s2) ! 1 = avail ?v ! 1 + 1" "length (info (vio s2)) = 8"
      "info (vio s2) ! 0 = Some op" "b_disk (unbox (op_buf op)) = 1" by blast
  then have "rw_run A (RwAlloc b False ha) (drv y) = Inr (s2, RwWait 0, Some (box_addr (op_buf op)))"
    by (simp add: rw_sector_ok alloc3_all_free[OF f] rw_wait_def)
  then show ?thesis using s2(2) by blast
qed

lemma find_unique:
  assumes "i < n" "P i" "\<And>j. j < n \<Longrightarrow> P j \<Longrightarrow> j = i"
  shows "find P [0..<n] = Some i"
proof -
  have "\<exists>k. find P [0..<n] = Some k" using assms(1,2) by (metis atLeastLessThan_iff find_None_iff le0 not_None_eq set_upt)
  then obtain k where k: "find P [0..<n] = Some k" by blast
  then have "k < n" "P k" by (auto simp: find_Some_iff)
  then show ?thesis using k assms(3) by simp
qed

lemma dev_run_ok:
  assumes I: "dinv A D y ph (h # aw) uw" and inj: "inj_on (status_addr A) {..<8}" and t: "taken y = {}"
    and la: "last_avail y \<noteq> avail (vio (drv y)) ! 1"
  shows "\<exists>y2. dev_run A D y = Some y2 \<and> dinv A D y2 (ph(h \<mapsto> PUsed)) aw (uw @ [h]) \<and> reqs y2 = reqs y \<and>
    (\<exists>y1. disk_step A D y y1 \<and> disk_step A D y1 y2) \<and> avail (vio (drv y2)) = avail (vio (drv y))"
proof -
  let ?v = "vio (drv y)"
  define k where "k = unat (avail ?v ! (2 + unat (last_avail y) mod DESC_NUM))"
  let ?y1 = "y\<lparr>last_avail := last_avail y + 1, taken := insert k (taken y)\<rparr>"
  have st1: "disk_step A D y ?y1" by (rule disk_step.take[OF la k_def])
  have k: "k = h" using take_inv(1)[OF I la k_def] by simp
  have J: "dinv A D ?y1 (ph(h \<mapsto> PTaken)) aw uw" using take_inv(2)[OF I la k_def] k by simp
  have h: "(ph(h \<mapsto> PTaken)) h = Some PTaken" by simp
  obtain r where r: "reqs ?y1 h = Some r" using reqs_okD(3)[OF dinvD(2)[OF J] h] by blast
  obtain i1 i2 bno ha ba where rr: "r = (i1, i2, bno, ha, ba)" by (cases r)
  note ok = reqs_okD(1)[OF dinvD(2)[OF J] r h, unfolded rr]
  obtain op where op: "info ?v ! h = Some op" "box_addr (op_buf op) = ba" using ok by auto
  let ?d0 = "desc ?v ! h"
  let ?d1 = "desc ?v ! unat (d_next ?d0)"
  let ?d2 = "desc ?v ! unat (d_next ?d1)"
  have D: "d_addr ?d0 = ha" "d_addr ?d1 = ba + 16" "d_len ?d1 = ucast BSIZE" "d_addr ?d2 = status_addr A h" "h < 8"
      "hdrs (drv y) ha = Some \<lparr>blk_type = VIRTIO_BLK_T_IN, reserved = 0, sector = ucast bno * 2\<rparr>"
    using ok by (simp_all add: unat_of_nat_u16)
  have L: "length (info ?v) = 8" using dinvD(1)[OF J] by (simp add: rings_ok_def)
  have fi: "find (\<lambda>i. case info ?v ! i of None \<Rightarrow> False | Some op \<Rightarrow> box_addr (op_buf op) + 16 = ba + 16) [0..<8] = Some h"
  proof (rule find_unique[OF D(5)])
    fix j :: nat assume j: "j < 8" "case info ?v ! j of None \<Rightarrow> False | Some op \<Rightarrow> box_addr (op_buf op) + 16 = ba + 16"
    show "j = h"
    proof (rule ccontr)
      assume jh: "j \<noteq> h"
      have "info (vio (drv ?y1)) ! j \<noteq> None" using j(2) by (auto split: option.splits)
      then obtain rj where rj: "reqs ?y1 j = Some rj" using reqs_okD(6)[OF dinvD(2)[OF J] j(1)] by auto
      obtain pj where pj: "(ph(h \<mapsto> PTaken)) j = Some pj" using reqs_okD(2)[OF dinvD(2)[OF J] rj] by blast
      have "req_ba rj = ba" using reqs_okD(1)[OF dinvD(2)[OF J] rj pj] j(2) by (cases rj) (auto split: option.splits)
      then show False using reqs_okD(4)[OF dinvD(2)[OF J] rj r jh] rr by simp
    qed
  qed (use op in simp)
  have fj: "find (\<lambda>j. status_addr A j = status_addr A h) [0..<8] = Some h"
    by (rule find_unique) (use D(5) inj in \<open>auto dest: inj_onD\<close>)
  define op' where "op' = op\<lparr>op_buf := (op_buf op)\<lparr>unbox := (unbox (op_buf op))\<lparr>b_data := disk_block D (ucast bno * 2)\<rparr>\<rparr>\<rparr>"
  define u' where "u' = (used ?v ! 0)\<lparr>elems := (elems (used ?v ! 0))[unat (ua_id (used ?v ! 0)) mod 8 := \<lparr>ue_id = of_nat h, ue_len = ucast BSIZE\<rparr>], ua_id := ua_id (used ?v ! 0) + 1\<rparr>"
  let ?y2 = "?y1\<lparr>drv := (drv ?y1)\<lparr>vio := ?v\<lparr>info := (info ?v)[h := Some op', h := Some (op'\<lparr>op_status := 0\<rparr>)], used := (used ?v)[0 := u']\<rparr>\<rparr>,
      taken := taken ?y1 - {h}\<rparr>"
  have kd: "unat (avail ?v ! (2 + unat (last_avail y) mod 8)) = h" using k k_def by simp
  have run: "dev_run A D y = Some ?y2"
    unfolding dev_run_def Let_def DESC_NUM_num unfolding kd D(1,2,4,6) unfolding fi fj
    using la D(3,5) op(1) L t k by (simp add: op'_def u'_def)
  have st2: "disk_step A D ?y1 ?y2"
    by (rule disk_step.complete[where i = h and j = h and op = op and opj = op' and hdr = "\<lparr>blk_type = VIRTIO_BLK_T_IN, reserved = 0, sector = ucast bno * 2\<rparr>"
          and v = ?v and ?d0.0 = ?d0 and ?d1.0 = ?d1 and ?d2.0 = ?d2 and op' = op' and u = "used ?v ! 0" and u' = u'])
      (use k D op L in \<open>simp_all add: op'_def u'_def\<close>)
  have "dinv A D ?y2 ((ph(h \<mapsto> PTaken))(h \<mapsto> PUsed)) aw (uw @ [h])"
    by (rule complete_inv[OF J inj, where k = h and j = h and op = op and op' = op' and opj = op' and hdr = "\<lparr>blk_type = VIRTIO_BLK_T_IN, reserved = 0, sector = ucast bno * 2\<rparr>"
          and v = ?v and ?d0.0 = ?d0 and ?d1.0 = ?d1 and ?d2.0 = ?d2 and u = "used ?v ! 0" and u' = u'])
      (use k D op L in \<open>simp_all add: op'_def u'_def\<close>)
  then have "dinv A D ?y2 (ph(h \<mapsto> PUsed)) aw (uw @ [h])" by simp
  moreover have "reqs ?y2 = reqs y" "avail (vio (drv ?y2)) = avail ?v" by simp_all
  ultimately show ?thesis using run st1 st2 by blast
qed

lemma sync_read_ok:
  assumes r: "virtio_ready A D (Suc n) (m, y)"
  shows "\<exists>m' y' b m''. sync_read A D ha dev bno (m, y) = Inr ((m', y'), b) \<and>
    b_data (unbox b) = disk_block D (ucast bno * 2) \<and> free_frame (box_addr b) m' = Inr m'' \<and> virtio_ready A D n (m'', y') \<and>
    box_frame (\<lambda>_. 0) m = Inr (m', box_addr b)"
proof -
  obtain M where M: "owns (alc m) M" and R: "0 < free_pages (alc m)" "inj_on (status_addr A) {..<8}" "disk_reach A D y"
      "reqs y = Map.empty" "unat (avail (vio (drv y)) ! 1) < 65535" "unat (avail (vio (drv y)) ! 1) + Suc n \<le> 65535"
    using r unfolding virtio_ready_def by auto
  obtain m1 a where bx: "box_frame (\<lambda>_. 0) m = Inr (m1, a)"
    using box_frame_panics[OF M, of "\<lambda>_. 0"] R(1) by (cases "box_frame (\<lambda>_. 0) m") auto
  note B = box_frame_ok[OF M bx]
  define b0 where "b0 = \<lparr>box_addr = a, unbox = Buf_new\<lparr>b_dev := dev, blockno := bno\<rparr>\<rparr>"
  have vr: "VirtIO_read dev bno ha m = Inr (m1, RwAlloc b0 False ha)" using bx by (simp add: VirtIO_read_def b0_def)
  note I = quiet_dinv[OF R(3,2,4)]
  obtain s1 c where s1: "rw_run A (RwAlloc b0 False ha) (drv y) = Inr (s1, RwWait 0, c)"
      "avail (vio s1) ! 1 = avail (vio (drv y)) ! 1 + 1" using quiet_submit[OF I R(5), of b0 ha] by blast
  define i1 where "i1 = unat (d_next (desc (vio s1) ! 0))"
  define i2 where "i2 = unat (d_next (desc (vio s1) ! i1))"
  let ?rq = "(i1, i2, bno, ha, a)"
  let ?y1 = "y\<lparr>drv := s1, reqs := (reqs y)(0 \<mapsto> ?rq)\<rparr>"
  have b0: "blockno (unbox b0) = bno" "box_addr b0 = a" "length (b_data (unbox b0)) = unat BSIZE"
    by (simp_all add: b0_def Buf_new_def)
  have new: "\<forall>r\<in>ran (reqs y). req_ha r \<noteq> ha \<and> req_ba r \<noteq> box_addr b0" using R(4) by simp
  have J: "dinv A D ?y1 [0 \<mapsto> PAvail] [0] []"
    using submit_inv[OF I(1) s1(1) new i1_def i2_def] b0 by simp
  have st1: "disk_step A D y ?y1" using disk_step.submit[OF s1(1) new b0(3) i1_def i2_def] b0 by simp
  have "avail (vio (drv ?y1)) ! 1 = last_avail ?y1 + 1" using dinvD(1)[OF J] by (simp add: rings_ok_def)
  then have la: "last_avail ?y1 \<noteq> avail (vio (drv ?y1)) ! 1" by simp
  have t: "taken ?y1 = {}" using dinvD(5)[OF J] by (auto split: if_splits)
  obtain y2 y1' where y2: "dev_run A D ?y1 = Some y2" "dinv A D y2 [0 \<mapsto> PUsed] [] [0]" "reqs y2 = reqs ?y1"
      "disk_step A D ?y1 y1'" "disk_step A D y1' y2" "avail (vio (drv y2)) = avail (vio s1)"
    using dev_run_ok[OF J R(2) t la] by auto
  obtain s3 where s3: "virtiointr (drv y2) = Inr s3" "dinv A D (y2\<lparr>drv := s3\<rparr>) (\<lambda>h. if h \<in> set [0] then Some PDone else [0 \<mapsto> PUsed] h) [] []"
    using intr_inv[OF y2(2)] by blast
  have reach3: "disk_reach A D (y2\<lparr>drv := s3\<rparr>)"
    using R(3) st1 y2(4,5) disk_step.intr[OF s3(1)] by (blast intro: disk_reach.step)
  have rq: "reqs (y2\<lparr>drv := s3\<rparr>) 0 = Some ?rq" using y2(3) by simp
  obtain b s4 where s4: "rw_wait A 0 s3 = Inr (s4, RwDone b, None)" "b_data (unbox b) = disk_block D (ucast bno * 2)" "box_addr b = a"
      "avail (vio s4) = avail (vio s3)"
    using s3(2) rq by (cases rule: wait_cases) auto
  let ?y4 = "y2\<lparr>drv := s4, reqs := (reqs y2)(0 := None)\<rparr>"
  have "disk_step A D (y2\<lparr>drv := s3\<rparr>) ((y2\<lparr>drv := s3\<rparr>)\<lparr>drv := s4, reqs := (reqs (y2\<lparr>drv := s3\<rparr>))(0 := None)\<rparr>)"
    by (rule disk_step.finish) (use rq s4(1) in simp_all)
  then have reach4: "disk_reach A D ?y4" using disk_reach.step[OF reach3] by simp
  have run: "sync_read A D ha dev bno (m, y) = Inr ((m1, ?y4), b)"
    unfolding sync_read_def using vr s1(1) y2(1) s3(1) s4(1) b0 by (simp add: Let_def i1_def i2_def)
  obtain m2 where m2: "free_frame a m1 = Inr m2" "owns (alc m2) M"
  proof -
    have "(M(a \<mapsto> 1)) a = Some 1" by simp
    from fs.dealloc_old[OF B(2) this] obtain al where "deallocate (alc m1) a = Inr al" "owns al ((M(a \<mapsto> 1))(a := None))" by blast
    moreover have "(M(a \<mapsto> 1))(a := None) = M" using B(1) by auto
    ultimately show ?thesis using that[of "m1\<lparr>alc := al\<rparr>"] by (simp add: free_frame_def os_dealloc_def)
  qed
  have fp: "free_pages (alc m2) = free_pages (alc m)" using owns_count(2)[OF M] owns_count(2)[OF m2(2)] by simp
  have av3: "avail (vio s3) ! 1 = avail (vio (drv y)) ! 1 + 1"
  proof -
    have "avail (vio s3) ! 1 = last_avail y2" using dinvD(1)[OF s3(2)] by (simp add: rings_ok_def)
    moreover have "avail (vio (drv y2)) ! 1 = last_avail y2" using dinvD(1)[OF y2(2)] by (simp add: rings_ok_def)
    ultimately show ?thesis using y2(6) s1(2) by simp
  qed
  have "unat (avail (vio s4) ! 1) = Suc (unat (avail (vio (drv y)) ! 1))"
    using R(5) unfolding s4(4) av3 by (simp add: unat_word_ariths)
  then have "virtio_ready A D n (m2, ?y4)"
    unfolding virtio_ready_def using R m2(2) fp reach4 y2(3) by auto
  then show ?thesis using run s4(2,3) m2(1) bx by blast
qed

interpretation vd: block_device "virtio_disk A D ha" D "virtio_ready A D"
proof
  fix n w dev bno assume "virtio_ready A D (Suc n) w"
  then show "\<exists>w' b w''. disk_read (virtio_disk A D ha) dev bno w = Inr (w', b) \<and> b_data (unbox b) = disk_block D (ucast bno * 2) \<and>
      drop_buf (virtio_disk A D ha) b w' = Inr w'' \<and> virtio_ready A D n w''"
    using sync_read_ok[of A D n "fst w" "snd w" ha dev bno] by (cases w) (fastforce simp: virtio_disk_def)
qed

end
