(* ===== verification/Files.thy ===== *)
theory Files
  imports Disk Bytes
begin

text \<open>
  Files: \<open>file.rs\<close>, \<open>file/fsfile.rs\<close> and the program \<open>fs.cpp\<close> that builds the disk image. The
  block device is the contract \<open>block_device\<close>; the theorems about files are proved from the
  contract and hold for the driver through its interpretation.
\<close>

section \<open>Definitions\<close>

record FsFile =
  f_offset :: usize
  f_sz :: usize
  rw_offset :: "usize \<times> usize"
  readable :: bool
  writable :: bool

text \<open>\<open>Box<dyn Device>\<close>: the console is the only device.\<close>

datatype File = Device | FsFile FsFile | Pipe

definition HEADER_SIZE :: nat where
  "HEADER_SIZE = 1024"

definition FILE_MAX :: nat where
  "FILE_MAX = 1024"

text \<open>The loop that finds the end of a name, from index \<open>i\<close> on.\<close>

function name_end :: "u8 list \<Rightarrow> nat \<Rightarrow> nat res" where
  "name_end data i =
     rbind (arr_get data i) (\<lambda>d.
       if d = 0 then Inr i
       else if Suc i = length data then Inr (Suc i) else name_end data (Suc i))"
  by pat_completeness auto

termination
  by (relation "measure (\<lambda>(data, i). length data - i)") (auto simp: arr_get_eq_Inr)

declare name_end.simps [simp del]

text \<open>The body of \<open>get_file_info\<close> for one header: \<open>None\<close> ends the search.\<close>

definition header_entry :: "u8 list \<Rightarrow> (usize \<times> usize \<times> u8 list) option res" where
  "header_entry data =
     (let sz = le_word (slice 0 8 data); offset = le_word (slice 8 8 data)
      in if sz = 0 then Inr None
         else rbind (name_end data 16) (\<lambda>i.
              case from_utf8 (slice 16 (i - 16) data) of
                None \<Rightarrow> Inl Unwrap
              | Some name \<Rightarrow> Inr (Some (offset, sz, name))))"

primrec info_loop :: "'w disk \<Rightarrow> u8 list \<Rightarrow> nat \<Rightarrow> nat \<Rightarrow> 'w \<Rightarrow> ('w \<times> (usize \<times> usize) option) res" where
  "info_loop K fpath fid 0 w = Inr (w, None)"
| "info_loop K fpath fid (Suc n) w =
     rbind (disk_read K 1 (of_nat fid) w) (\<lambda>(w1, b).
     rbind (header_entry (b_data (unbox b))) (\<lambda>e.
     rbind (drop_buf K b w1) (\<lambda>w2.
       case e of
         None \<Rightarrow> Inr (w2, None)
       | Some (offset, sz, name) \<Rightarrow>
           if name = fpath then Inr (w2, Some (offset, sz)) else info_loop K fpath (Suc fid) n w2)))"

definition get_file_info :: "'w disk \<Rightarrow> u8 list \<Rightarrow> 'w \<Rightarrow> ('w \<times> (usize \<times> usize) option) res" where
  "get_file_info K fpath w = info_loop K fpath 0 FILE_MAX w"

definition FsFile_open :: "'w disk \<Rightarrow> u8 list \<Rightarrow> usize \<Rightarrow> 'w \<Rightarrow> ('w \<times> FsFile) res" where
  "FsFile_open K fpath mode w =
     rbind (get_file_info K fpath w) (\<lambda>(w', x).
     case x of
       None \<Rightarrow> Inl (Panic ''{} not found'')
     | Some (offset, sz) \<Rightarrow> Inr (w', \<lparr>f_offset = offset, f_sz = sz, rw_offset = (0, 0), readable = True, writable = True\<rparr>))"

definition FsFile_read :: "'w disk \<Rightarrow> FsFile \<Rightarrow> u8 list \<Rightarrow> 'w \<Rightarrow> ('w \<times> FsFile \<times> u8 list \<times> i32) res" where
  "FsFile_read K f content w =
     (if \<not> readable f then Inr (w, f, content, - 1)
      else let read_offset = fst (rw_offset f) in
        rbind (sub_chk (f_sz f) read_offset) (\<lambda>left.
        let read_sz = min left (of_nat (length content)) in
        rbind (add_chk (f_offset f) read_offset) (\<lambda>pos.
        rbind (disk_read K 1 (ucast (pos div BSIZE)) w) (\<lambda>(w1, result).
        rbind (rfor 0 (unat read_sz) (\<lambda>i c. rbind (arr_get (b_data (unbox result)) i) (arr_set c i)) content) (\<lambda>content'.
        rbind (add_chk read_offset read_sz) (\<lambda>ro.
        rbind (drop_buf K result w1) (\<lambda>w2.
          Inr (w2, f\<lparr>rw_offset := (ro, snd (rw_offset f))\<rparr>, content', ucast read_sz))))))))"

definition FsFile_write :: "FsFile \<Rightarrow> u8 list \<Rightarrow> i32 res" where
  "FsFile_write f content = (if \<not> writable f then Inr (- 1) else Inl Unimplemented)"

text \<open>
  \<open>fs.cpp\<close>. The image is the bytes written so far; what was never written is zero. A file is its
  path on the host and its contents.
\<close>

type_synonym image = "nat \<Rightarrow> u8"

definition header_size :: nat where
  "header_size = 1024 * 1024"

definition mkfs_align_val :: "u32 \<Rightarrow> u32" where
  "mkfs_align_val val = (let off = 4096 - 1 in (val + off) AND NOT off)"

definition write_at :: "nat \<Rightarrow> u8 list \<Rightarrow> image \<Rightarrow> image" where
  "write_at pos bs img = (\<lambda>k. if pos \<le> k \<and> k < pos + length bs then bs ! (k - pos) else img k)"

text \<open>\<open>filename.substr(filename.find_last_of('/'))\<close>; without a slash \<open>substr\<close> throws.\<close>

definition fsname :: "u8 list \<Rightarrow> u8 list option" where
  "fsname filename =
     (if 0x2f \<in> set filename then Some (0x2f # rev (takeWhile (\<lambda>c. c \<noteq> 0x2f) (rev filename))) else None)"

record fsentry =
  e_offset :: nat
  e_size :: nat
  e_name :: "u8 list"

primrec mkfs_data :: "nat \<Rightarrow> (u8 list \<times> u8 list) list \<Rightarrow> image \<Rightarrow> (image \<times> fsentry list) option" where
  "mkfs_data cum_sz [] hdd = Some (hdd, [])"
| "mkfs_data cum_sz (f # fs) hdd =
     (case fsname (fst f) of
        None \<Rightarrow> None
      | Some name \<Rightarrow>
          (let sz = length (snd f); al = unat (mkfs_align_val (of_nat sz));
               hdd = write_at cum_sz (snd f) hdd;
               hdd = write_at (cum_sz + sz) (replicate (al - sz) 0) hdd
           in case mkfs_data (cum_sz + al) fs hdd of
                None \<Rightarrow> None
              | Some (hdd, es) \<Rightarrow> Some (hdd, \<lparr>e_offset = cum_sz, e_size = sz, e_name = name\<rparr> # es)))"

definition header_bytes :: "fsentry \<Rightarrow> u8 list" where
  "header_bytes e = word_le 8 (of_nat (e_size e) :: u64) @ word_le 8 (of_nat (e_offset e) :: u64) @ e_name e @ [0]"

primrec mkfs_headers :: "nat \<Rightarrow> fsentry list \<Rightarrow> image \<Rightarrow> image" where
  "mkfs_headers i [] hdd = hdd"
| "mkfs_headers i (e # es) hdd = mkfs_headers (Suc i) es (write_at (i * 1024) (header_bytes e) hdd)"

definition mkfs :: "(u8 list \<times> u8 list) list \<Rightarrow> image option" where
  "mkfs fs = (case mkfs_data header_size fs (\<lambda>_. 0) of None \<Rightarrow> None | Some (hdd, es) \<Rightarrow> Some (mkfs_headers 0 es hdd))"

text \<open>
  What the theorem about images asks of the files: they have names with a slash that fit a
  header, are UTF-8 without a zero byte and differ; they are not empty; together they fit the
  header area and four gigabytes.
\<close>

definition fs_files_ok :: "(u8 list \<times> u8 list) list \<Rightarrow> bool" where
  "fs_files_ok fs \<longleftrightarrow> length fs \<le> FILE_MAX \<and>
     (\<forall>f\<in>set fs. fsname (fst f) \<noteq> None \<and> length (the (fsname (fst f))) \<le> 1000 \<and> 0 \<notin> set (the (fsname (fst f))) \<and>
        utf8_valid (the (fsname (fst f))) \<and> snd f \<noteq> []) \<and>
     distinct (map (the \<circ> fsname \<circ> fst) fs) \<and> (\<Sum>f\<leftarrow>fs. length (snd f) + 4096) < 2 ^ 31"

text \<open>\<open>n\<close> reads of 1024 bytes one after the other, collecting what each returned.\<close>

primrec read_blocks :: "'w disk \<Rightarrow> nat \<Rightarrow> FsFile \<Rightarrow> 'w \<Rightarrow> ('w \<times> FsFile \<times> u8 list) res" where
  "read_blocks K 0 f w = Inr (w, f, [])"
| "read_blocks K (Suc n) f w =
     rbind (FsFile_read K f (replicate 1024 0) w) (\<lambda>(w1, f1, blk, r).
     rbind (read_blocks K n f1 w1) (\<lambda>(w2, f2, rest). Inr (w2, f2, take (unat r) blk @ rest)))"

section \<open>Headers\<close>

lemma name_end_found:
  assumes "i \<le> k" "k < length data" "data ! k = 0" "\<And>j. i \<le> j \<Longrightarrow> j < k \<Longrightarrow> data ! j \<noteq> 0"
  shows "name_end data i = Inr k"
  using assms
proof (induction "k - i" arbitrary: i)
  case 0
  then show ?case by (subst name_end.simps) simp
next
  case (Suc x)
  then have "name_end data (Suc i) = Inr k" by (intro Suc.hyps(1)) auto
  then show ?case using Suc.prems Suc.hyps(2) by (subst name_end.simps) auto
qed

lemma header_entry_ok:
  assumes e: "0 < e_size e" "e_size e < 2 ^ 64" "0 \<notin> set (e_name e)" "utf8_valid (e_name e)"
    and d: "data = header_bytes e @ zs"
  shows "header_entry data = Inr (Some (of_nat (e_offset e), of_nat (e_size e), e_name e))"
proof -
  let ?s = "word_le 8 (of_nat (e_size e) :: u64)" and ?o = "word_le 8 (of_nat (e_offset e) :: u64)"
  have data: "data = ?s @ ?o @ e_name e @ 0 # zs" using d by (simp add: header_bytes_def)
  have s: "slice 0 8 data = ?s" using slice_append[of "[]" 0 ?s 8] data by simp
  have off: "slice 8 8 data = ?o" unfolding data by (rule slice_append) simp_all
  have "unat (of_nat (e_size e) :: u64) = e_size e" using e(2) by (simp add: unat_of_nat)
  then have nz: "(of_nat (e_size e) :: u64) \<noteq> 0" using e(1) by auto
  have ne: "name_end data 16 = Inr (16 + length (e_name e))"
  proof (rule name_end_found)
    fix j assume "16 \<le> j" "j < 16 + length (e_name e)"
    then have "data ! j = e_name e ! (j - 16)" "j - 16 < length (e_name e)" unfolding data by (auto simp: nth_append)
    then show "data ! j \<noteq> 0" using e(3) nth_mem by metis
  qed (auto simp: data nth_append)
  have n: "slice 16 (length (e_name e)) data = e_name e"
    using slice_append[of "?s @ ?o" 16 "e_name e" "length (e_name e)" "0 # zs"] data by simp
  show ?thesis
    unfolding header_entry_def Let_def s off using nz ne n e(4)
    by (simp add: le_word_word_le from_utf8_def)
qed

section \<open>The image\<close>

lemma write_at_in: "pos \<le> k \<Longrightarrow> k < pos + length bs \<Longrightarrow> write_at pos bs img k = bs ! (k - pos)"
  by (simp add: write_at_def)

lemma write_at_out: "k < pos \<or> pos + length bs \<le> k \<Longrightarrow> write_at pos bs img k = img k"
  by (auto simp: write_at_def)

lemma mkfs_align_ok:
  assumes "n + 4096 < 2 ^ 31"
  shows "n \<le> unat (mkfs_align_val (of_nat n))" "unat (mkfs_align_val (of_nat n)) mod 1024 = 0"
    "unat (mkfs_align_val (of_nat n)) < n + 4096"
proof -
  have m: "(4096 - 1 :: u32) = mask 12" by (simp add: mask_eq_exp_minus_1)
  have u: "unat (of_nat n + (4096 - 1) :: u32) = n + 4095" using assms by (simp add: unat_word_ariths unat_of_nat)
  have a: "unat (mkfs_align_val (of_nat n)) = (n + 4095) - (n + 4095) mod 4096"
    unfolding mkfs_align_val_def Let_def m unat_and_not_mask unfolding m[symmetric] u by simp
  have b: "(n + 4095) mod 4096 \<le> 4095" by (rule less_Suc_eq_le[THEN iffD1]) simp
  then show "n \<le> unat (mkfs_align_val (of_nat n))" "unat (mkfs_align_val (of_nat n)) < n + 4096" unfolding a by linarith+
  have "(n + 4095) - (n + 4095) mod 4096 = 1024 * (4 * ((n + 4095) div 4096))"
    by (simp add: minus_mod_eq_mult_div)
  then show "unat (mkfs_align_val (of_nat n)) mod 1024 = 0" unfolding a by simp
qed

lemma mkfs_data_ok:
  assumes "\<forall>f\<in>set fs. fsname (fst f) \<noteq> None" "cum mod 1024 = 0" "(\<Sum>f\<leftarrow>fs. length (snd f) + 4096) < 2 ^ 31"
  shows "\<exists>hdd' es. mkfs_data cum fs hdd = Some (hdd', es) \<and> length es = length fs \<and> (\<forall>x<cum. hdd' x = hdd x) \<and>
    (\<forall>k<length fs. e_size (es ! k) = length (snd (fs ! k)) \<and> e_name (es ! k) = the (fsname (fst (fs ! k))) \<and>
       cum \<le> e_offset (es ! k) \<and> e_offset (es ! k) mod 1024 = 0 \<and>
       e_offset (es ! k) + e_size (es ! k) \<le> cum + (\<Sum>f\<leftarrow>fs. length (snd f) + 4096) \<and>
       (\<forall>j<e_size (es ! k). hdd' (e_offset (es ! k) + j) = snd (fs ! k) ! j))"
  using assms
proof (induction fs arbitrary: cum hdd)
  case Nil
  then show ?case by simp
next
  case (Cons f fs)
  define sz where "sz = length (snd f)"
  define al where "al = unat (mkfs_align_val (of_nat sz))"
  have "sz + 4096 < 2 ^ 31" using Cons.prems(3) by (simp add: sz_def)
  from mkfs_align_ok[OF this] have al: "sz \<le> al" "al mod 1024 = 0" "al < sz + 4096" by (simp_all add: al_def)
  obtain nm where nm: "fsname (fst f) = Some nm" using Cons.prems(1) by auto
  let ?h = "write_at (cum + sz) (replicate (al - sz) 0) (write_at cum (snd f) hdd)"
  have "(cum + al) mod 1024 = 0" using Cons.prems(2) al(2) by (simp add: mod_add_eq [symmetric])
  moreover have "\<forall>f\<in>set fs. fsname (fst f) \<noteq> None" "(\<Sum>f\<leftarrow>fs. length (snd f) + 4096) < 2 ^ 31"
    using Cons.prems(1,3) by auto
  ultimately obtain hdd' es where r: "mkfs_data (cum + al) fs ?h = Some (hdd', es)" "length es = length fs" "\<forall>x<cum + al. hdd' x = ?h x"
    and es: "\<forall>k<length fs. e_size (es ! k) = length (snd (fs ! k)) \<and> e_name (es ! k) = the (fsname (fst (fs ! k))) \<and>
       cum + al \<le> e_offset (es ! k) \<and> e_offset (es ! k) mod 1024 = 0 \<and>
       e_offset (es ! k) + e_size (es ! k) \<le> cum + al + (\<Sum>f\<leftarrow>fs. length (snd f) + 4096) \<and>
       (\<forall>j<e_size (es ! k). hdd' (e_offset (es ! k) + j) = snd (fs ! k) ! j)"
    using Cons.IH[of "cum + al" ?h] by auto
  let ?e = "\<lparr>e_offset = cum, e_size = sz, e_name = nm\<rparr>"
  have run: "mkfs_data cum (f # fs) hdd = Some (hdd', ?e # es)"
    using nm r(1) by (simp add: Let_def sz_def al_def)
  have low: "hdd' x = hdd x" if "x < cum" for x using r(3) that by (simp add: write_at_out)
  have data: "hdd' (cum + j) = snd f ! j" if "j < sz" for j
    using r(3) that al(1) by (simp add: write_at_out write_at_in sz_def)
  have all: "e_size ((?e # es) ! k) = length (snd ((f # fs) ! k)) \<and> e_name ((?e # es) ! k) = the (fsname (fst ((f # fs) ! k))) \<and>
       cum \<le> e_offset ((?e # es) ! k) \<and> e_offset ((?e # es) ! k) mod 1024 = 0 \<and>
       e_offset ((?e # es) ! k) + e_size ((?e # es) ! k) \<le> cum + (\<Sum>f\<leftarrow>f # fs. length (snd f) + 4096) \<and>
       (\<forall>j<e_size ((?e # es) ! k). hdd' (e_offset ((?e # es) ! k) + j) = snd ((f # fs) ! k) ! j)" if "k < length (f # fs)" for k
  proof (cases k)
    case 0
    then show ?thesis using nm data Cons.prems(2) by (simp add: sz_def)
  next
    case (Suc k')
    then have "k' < length fs" using that by simp
    with es have "e_size (es ! k') = length (snd (fs ! k')) \<and> e_name (es ! k') = the (fsname (fst (fs ! k'))) \<and>
       cum + al \<le> e_offset (es ! k') \<and> e_offset (es ! k') mod 1024 = 0 \<and>
       e_offset (es ! k') + e_size (es ! k') \<le> cum + al + (\<Sum>f\<leftarrow>fs. length (snd f) + 4096) \<and>
       (\<forall>j<e_size (es ! k'). hdd' (e_offset (es ! k') + j) = snd (fs ! k') ! j)" by blast
    then show ?thesis using Suc al(3) by (simp add: sz_def)
  qed
  have "length (?e # es) = length (f # fs)" using r(2) by simp
  with run low all show ?case by blast
qed

lemma mkfs_headers_low: "x < i * 1024 \<Longrightarrow> mkfs_headers i es hdd x = hdd x"
  by (induction es arbitrary: i hdd) (simp_all add: write_at_out)

lemma mkfs_headers_high:
  "\<forall>e\<in>set es. length (header_bytes e) \<le> 1024 \<Longrightarrow> (i + length es) * 1024 \<le> x \<Longrightarrow> mkfs_headers i es hdd x = hdd x"
proof (induction es arbitrary: i hdd)
  case (Cons e es)
  then have "mkfs_headers (Suc i) es (write_at (i * 1024) (header_bytes e) hdd) x = write_at (i * 1024) (header_bytes e) hdd x"
    by (intro Cons.IH) simp_all
  also have "\<dots> = hdd x" using Cons.prems by (intro write_at_out) auto
  finally show ?case by simp
qed simp

lemma mkfs_headers_at:
  assumes "\<forall>e\<in>set es. length (header_bytes e) \<le> 1024" "k < length es" "r < 1024"
  shows "mkfs_headers i es hdd ((i + k) * 1024 + r) =
    (if r < length (header_bytes (es ! k)) then header_bytes (es ! k) ! r else hdd ((i + k) * 1024 + r))"
  using assms
proof (induction es arbitrary: i hdd k)
  case Nil
  then show ?case by simp
next
  case (Cons e es)
  show ?case
  proof (cases k)
    case 0
    then show ?thesis using Cons.prems(3) by (auto simp: mkfs_headers_low write_at_def)
  next
    case (Suc k')
    have "mkfs_headers (Suc i) es (write_at (i * 1024) (header_bytes e) hdd) ((Suc i + k') * 1024 + r) =
      (if r < length (header_bytes (es ! k')) then header_bytes (es ! k') ! r
       else write_at (i * 1024) (header_bytes e) hdd ((Suc i + k') * 1024 + r))"
      by (rule Cons.IH) (use Cons.prems Suc in auto)
    moreover have "write_at (i * 1024) (header_bytes e) hdd ((Suc i + k') * 1024 + r) = hdd ((Suc i + k') * 1024 + r)"
      using Cons.prems(1) by (intro write_at_out) auto
    ultimately show ?thesis using Suc by simp
  qed
qed

lemma disk_block_at:
  assumes "b < 2 ^ 31"
  shows "disk_block D (ucast (of_nat b :: u32) * 2) = map (\<lambda>j. D (1024 * b + j)) [0..<1024]"
proof -
  have "unat (ucast (of_nat b :: u32) :: usize) = b" using assms by (simp add: unat_ucast_up unat_of_nat)
  then have "unat (ucast (of_nat b :: u32) * 2 :: usize) = 2 * b" using assms by (simp add: unat_word_ariths)
  then show ?thesis by (simp add: disk_block_def)
qed

text \<open>What the image holds: a header for each file, then zeros, and each file at its offset.\<close>

lemma mkfs_ok:
  assumes ok: "fs_files_ok fs"
  shows "\<exists>D es. mkfs fs = Some D \<and> length es = length fs \<and>
    (\<forall>k<length fs. e_size (es ! k) = length (snd (fs ! k)) \<and> e_name (es ! k) = the (fsname (fst (fs ! k))) \<and>
       e_offset (es ! k) mod 1024 = 0 \<and> e_offset (es ! k) + e_size (es ! k) < 2 ^ 32 \<and>
       (\<forall>j<e_size (es ! k). D (e_offset (es ! k) + j) = snd (fs ! k) ! j) \<and>
       (\<exists>zs. disk_block D (ucast (of_nat k :: u32) * 2) = header_bytes (es ! k) @ zs)) \<and>
    (\<forall>k. length fs \<le> k \<longrightarrow> k < FILE_MAX \<longrightarrow> disk_block D (ucast (of_nat k :: u32) * 2) = replicate 1024 0)"
proof -
  have sum: "(\<Sum>f\<leftarrow>fs. length (snd f) + 4096) < 2 ^ 31" and names: "\<forall>f\<in>set fs. fsname (fst f) \<noteq> None"
      and len: "length fs \<le> 1024" using ok by (auto simp: fs_files_ok_def FILE_MAX_def)
  obtain hdd es where d: "mkfs_data header_size fs (\<lambda>_. 0) = Some (hdd, es)" "length es = length fs" "\<forall>x<header_size. hdd x = 0"
    and es: "\<forall>k<length fs. e_size (es ! k) = length (snd (fs ! k)) \<and> e_name (es ! k) = the (fsname (fst (fs ! k))) \<and>
       header_size \<le> e_offset (es ! k) \<and> e_offset (es ! k) mod 1024 = 0 \<and>
       e_offset (es ! k) + e_size (es ! k) \<le> header_size + (\<Sum>f\<leftarrow>fs. length (snd f) + 4096) \<and>
       (\<forall>j<e_size (es ! k). hdd (e_offset (es ! k) + j) = snd (fs ! k) ! j)"
    using mkfs_data_ok[OF names _ sum, of header_size "\<lambda>_. 0"] by (auto simp: header_size_def)
  have hl: "\<forall>e\<in>set es. length (header_bytes e) \<le> 1024"
  proof
    fix e assume "e \<in> set es"
    then obtain k where k: "k < length fs" "e = es ! k" using d(2) by (auto simp: in_set_conv_nth)
    then have "e_name e = the (fsname (fst (fs ! k)))" using es by blast
    moreover have "length (the (fsname (fst (fs ! k)))) \<le> 1000" using ok nth_mem[OF k(1)] by (simp add: fs_files_ok_def)
    ultimately show "length (header_bytes e) \<le> 1024" by (simp add: header_bytes_def)
  qed
  let ?D = "mkfs_headers 0 es hdd"
  have hi: "?D x = hdd x" if "header_size \<le> x" for x
    by (rule mkfs_headers_high[OF hl]) (use that d(2) len in \<open>simp add: header_size_def\<close>)
  have blk: "disk_block ?D (ucast (of_nat k :: u32) * 2) = header_bytes (es ! k) @ replicate (1024 - length (header_bytes (es ! k))) 0"
    if k: "k < length fs" for k
  proof (rule nth_equalityI)
    have b: "disk_block ?D (ucast (of_nat k :: u32) * 2) = map (\<lambda>j. ?D (1024 * k + j)) [0..<1024]"
      by (rule disk_block_at) (use k len in simp)
    have le: "length (header_bytes (es ! k)) \<le> 1024" using hl k d(2) by simp
    then show "length (disk_block ?D (ucast (of_nat k :: u32) * 2)) = length (header_bytes (es ! k) @ replicate (1024 - length (header_bytes (es ! k))) 0)"
      using b by simp
    fix r assume "r < length (disk_block ?D (ucast (of_nat k :: u32) * 2))"
    then have r: "r < 1024" using b by simp
    have "?D (k * 1024 + r) = (if r < length (header_bytes (es ! k)) then header_bytes (es ! k) ! r else hdd (k * 1024 + r))"
      using mkfs_headers_at[OF hl, of k r 0 hdd] k d(2) r by simp
    moreover have "hdd (k * 1024 + r) = 0" using d(3) k len r by (simp add: header_size_def)
    ultimately show "disk_block ?D (ucast (of_nat k :: u32) * 2) ! r = (header_bytes (es ! k) @ replicate (1024 - length (header_bytes (es ! k))) 0) ! r"
      using b r by (simp add: nth_append mult.commute)
  qed
  have zero: "disk_block ?D (ucast (of_nat k :: u32) * 2) = replicate 1024 0" if k: "length fs \<le> k" "k < FILE_MAX" for k
  proof -
    have b: "disk_block ?D (ucast (of_nat k :: u32) * 2) = map (\<lambda>j. ?D (1024 * k + j)) [0..<1024]"
      by (rule disk_block_at) (use k in \<open>simp add: FILE_MAX_def\<close>)
    have "?D (1024 * k + r) = 0" if "r < 1024" for r
    proof -
      have "?D (1024 * k + r) = hdd (1024 * k + r)" by (rule mkfs_headers_high[OF hl]) (use k d(2) in simp)
      also have "\<dots> = 0" using d(3) k(2) that by (simp add: header_size_def FILE_MAX_def)
      finally show ?thesis .
    qed
    then show ?thesis using b by (auto intro!: nth_equalityI)
  qed
  have "mkfs fs = Some ?D" using d(1) by (simp add: mkfs_def)
  moreover have "e_size (es ! k) = length (snd (fs ! k)) \<and> e_name (es ! k) = the (fsname (fst (fs ! k))) \<and>
       e_offset (es ! k) mod 1024 = 0 \<and> e_offset (es ! k) + e_size (es ! k) < 2 ^ 32 \<and>
       (\<forall>j<e_size (es ! k). ?D (e_offset (es ! k) + j) = snd (fs ! k) ! j) \<and>
       (\<exists>zs. disk_block ?D (ucast (of_nat k :: u32) * 2) = header_bytes (es ! k) @ zs)" if k: "k < length fs" for k
  proof -
    have e: "e_size (es ! k) = length (snd (fs ! k))" "e_name (es ! k) = the (fsname (fst (fs ! k)))"
       "header_size \<le> e_offset (es ! k)" "e_offset (es ! k) mod 1024 = 0"
       "e_offset (es ! k) + e_size (es ! k) \<le> header_size + (\<Sum>f\<leftarrow>fs. length (snd f) + 4096)"
       "\<And>j. j < e_size (es ! k) \<Longrightarrow> hdd (e_offset (es ! k) + j) = snd (fs ! k) ! j" using es k by blast+
    have "e_offset (es ! k) + e_size (es ! k) < 2 ^ 32" using e(5) sum by (simp add: header_size_def)
    moreover have "?D (e_offset (es ! k) + j) = snd (fs ! k) ! j" if "j < e_size (es ! k)" for j
      using hi[of "e_offset (es ! k) + j"] e(3) e(6)[OF that] by simp
    ultimately show ?thesis using e(1,2,4) blk[OF k] by blast
  qed
  ultimately show ?thesis using d(2) zero by blast
qed

lemma rfor_copy:
  "i + n \<le> length c \<Longrightarrow> i + n \<le> length d \<Longrightarrow>
   rfor i n (\<lambda>i c. rbind (arr_get d i) (arr_set c i)) c = Inr (take i c @ slice i n d @ drop (i + n) c)"
proof (induction n arbitrary: i c)
  case 0
  then show ?case by (simp add: slice_def)
next
  case (Suc n)
  have "rfor (Suc i) n (\<lambda>i c. rbind (arr_get d i) (arr_set c i)) (c[i := d ! i]) =
    Inr (take (Suc i) (c[i := d ! i]) @ slice (Suc i) n d @ drop (Suc i + n) (c[i := d ! i]))"
    by (rule Suc.IH) (use Suc.prems in simp_all)
  moreover have "slice i (Suc n) d = d ! i # slice (Suc i) n d"
    using Suc.prems(2) by (simp add: slice_def Cons_nth_drop_Suc[symmetric])
  ultimately show ?case using Suc.prems by (simp add: take_Suc_conv_app_nth)
qed

section \<open>Clients of the block device\<close>

context block_device
begin

lemma info_loop_found:
  assumes "fid \<le> t" "t < fid + n" "ready (Suc (t - fid) + r) w" "nm t = p" "\<And>i. fid \<le> i \<Longrightarrow> i < t \<Longrightarrow> nm i \<noteq> p"
    and "\<And>i. fid \<le> i \<Longrightarrow> i \<le> t \<Longrightarrow> header_entry (disk_block D (ucast (of_nat i :: u32) * 2)) = Inr (Some (off i, sz i, nm i))"
  shows "\<exists>w'. info_loop K p fid n w = Inr (w', Some (off t, sz t)) \<and> ready r w'"
  using assms
proof (induction n arbitrary: fid w)
  case 0
  then show ?case by simp
next
  case (Suc n)
  obtain w1 b w2 where rd: "disk_read K 1 (of_nat fid) w = Inr (w1, b)" "b_data (unbox b) = disk_block D (ucast (of_nat fid :: u32) * 2)"
      "drop_buf K b w1 = Inr w2" "ready (t - fid + r) w2"
    using read_block[of "t - fid + r" w 1 "of_nat fid"] Suc.prems(3) by auto
  have h: "header_entry (b_data (unbox b)) = Inr (Some (off fid, sz fid, nm fid))"
    unfolding rd(2) by (rule Suc.prems(6)) (use Suc.prems(1) in simp_all)
  show ?case
  proof (cases "fid = t")
    case True
    then show ?thesis using rd h Suc.prems(4) by simp
  next
    case False
    then have lt: "fid < t" using Suc.prems(1) by simp
    then have "nm fid \<noteq> p" using Suc.prems(5) by simp
    moreover have "\<exists>w'. info_loop K p (Suc fid) n w2 = Inr (w', Some (off t, sz t)) \<and> ready r w'"
    proof (rule Suc.IH)
      show "ready (Suc (t - Suc fid) + r) w2" using rd(4) lt by (simp add: Suc_diff_Suc)
    qed (use Suc.prems lt in auto)
    ultimately show ?thesis using rd h by simp
  qed
qed

lemma info_loop_missing:
  assumes "ready (t - fid + Suc r) w" "fid \<le> t" "t < fid + n" "header_entry (disk_block D (ucast (of_nat t :: u32) * 2)) = Inr None"
    and "\<And>i. fid \<le> i \<Longrightarrow> i < t \<Longrightarrow> nm i \<noteq> p"
    and "\<And>i. fid \<le> i \<Longrightarrow> i < t \<Longrightarrow> header_entry (disk_block D (ucast (of_nat i :: u32) * 2)) = Inr (Some (off i, sz i, nm i))"
  shows "\<exists>w'. info_loop K p fid n w = Inr (w', None) \<and> ready r w'"
  using assms
proof (induction n arbitrary: fid w)
  case 0
  then show ?case by simp
next
  case (Suc n)
  obtain w1 b w2 where rd: "disk_read K 1 (of_nat fid) w = Inr (w1, b)" "b_data (unbox b) = disk_block D (ucast (of_nat fid :: u32) * 2)"
      "drop_buf K b w1 = Inr w2" "ready (t - fid + r) w2"
    using read_block[of "t - fid + r" w 1 "of_nat fid"] Suc.prems(1) by auto
  show ?case
  proof (cases "fid = t")
    case True
    then show ?thesis using rd Suc.prems(4) by simp
  next
    case False
    then have lt: "fid < t" using Suc.prems(2) by simp
    then have "nm fid \<noteq> p" "header_entry (b_data (unbox b)) = Inr (Some (off fid, sz fid, nm fid))"
      using Suc.prems(5,6) rd(2) by simp_all
    moreover have "\<exists>w'. info_loop K p (Suc fid) n w2 = Inr (w', None) \<and> ready r w'"
    proof (rule Suc.IH)
      show "ready (t - Suc fid + Suc r) w2" using rd(4) lt by (simp add: Suc_diff_Suc)
    qed (use Suc.prems lt in auto)
    ultimately show ?thesis using rd by simp
  qed
qed

lemma FsFile_read_block:
  assumes f: "readable f" "f_offset f = of_nat off" "f_sz f = of_nat len" "fst (rw_offset f) = of_nat p" "p \<le> len" "off + len < 2 ^ 32"
    and n: "n = min (len - p) (length content)" "n \<le> 1024" "length content \<le> 1024" and r: "ready (Suc r) w"
  shows "\<exists>w'. FsFile_read K f content w = Inr (w', f\<lparr>rw_offset := (of_nat (p + n), snd (rw_offset f))\<rparr>,
      map (\<lambda>x. D (1024 * ((off + p) div 1024) + x)) [0..<n] @ drop n content, of_nat n) \<and> ready r w'"
proof -
  have u: "unat (of_nat k :: usize) = k" if "k < 2 ^ 33" for k using that by (simp add: unat_of_nat)
  have sub: "sub_chk (f_sz f) (of_nat p) = Inr (of_nat (len - p))"
    using f(3,5,6) u[of p] u[of len] by (simp add: word_le_nat_alt of_nat_diff)
  have mn: "min (of_nat (len - p)) (of_nat (length content)) = (of_nat n :: usize)"
    using u[of "len - p"] u[of "length content"] f(6) n by (auto simp: min_def word_le_nat_alt)
  have add: "add_chk (f_offset f) (of_nat p) = Inr (of_nat (off + p))"
    using f(2,5,6) u[of off] u[of p] by simp
  have add2: "add_chk (of_nat p :: usize) (of_nat n) = Inr (of_nat (p + n))"
    using u[of p] u[of n] f(5,6) n(2) by simp
  define bk where "bk = (off + p) div 1024"
  have "unat (of_nat (off + p) div BSIZE :: usize) = bk"
    using u[of "off + p"] f(5,6) by (simp add: unat_div bk_def BSIZE_num)
  then have uc: "ucast (of_nat (off + p) div BSIZE :: usize) = (of_nat bk :: u32)"
    by (simp add: word_unat_eq_iff unat_ucast unat_of_nat)
  obtain w1 bf w2 where rd: "disk_read K 1 (of_nat bk) w = Inr (w1, bf)" "b_data (unbox bf) = disk_block D (ucast (of_nat bk :: u32) * 2)"
      "drop_buf K bf w1 = Inr w2" "ready r w2" using read_block[OF r, of 1 "of_nat bk"] by blast
  have "bk < 2 ^ 31" using f(5,6) by (auto simp: bk_def)
  then have blk: "b_data (unbox bf) = map (\<lambda>x. D (1024 * bk + x)) [0..<1024]" unfolding rd(2) by (rule disk_block_at)
  have "slice 0 n (b_data (unbox bf)) = map (\<lambda>x. D (1024 * bk + x)) [0..<n]"
    using n(2) by (simp add: slice_def blk take_map)
  then have cp: "rfor 0 (unat (of_nat n :: usize)) (\<lambda>i c. rbind (arr_get (b_data (unbox bf)) i) (arr_set c i)) content =
      Inr (map (\<lambda>x. D (1024 * bk + x)) [0..<n] @ drop n content)"
    using rfor_copy[of 0 n content "b_data (unbox bf)"] n u[of n] blk by simp
  have "(ucast (of_nat n :: usize) :: i32) = of_nat n" using u[of n] n(2)
    by (simp add: word_unat_eq_iff unat_ucast unat_of_nat)
  then show ?thesis
    unfolding FsFile_read_def Let_def f(4) using f(1) sub mn add add2 uc rd cp by (simp add: bk_def)
qed

lemma FsFile_read_ok:
  assumes f: "readable f" "f_offset f = of_nat off" "f_sz f = of_nat (length c)" "fst (rw_offset f) = of_nat p" "p = min (1024 * j) (length c)"
    and img: "off mod 1024 = 0" "off + length c < 2 ^ 32" "\<And>x. x < length c \<Longrightarrow> D (off + x) = c ! x"
    and n: "n = min (length c - p) 1024" and r: "ready (Suc r) w"
  shows "\<exists>w'. FsFile_read K f (replicate 1024 0) w =
    Inr (w', f\<lparr>rw_offset := (of_nat (min (1024 * Suc j) (length c)), snd (rw_offset f))\<rparr>, slice p n c @ replicate (1024 - n) 0, of_nat n) \<and> ready r w'"
proof -
  have b: "p \<le> length c" "n \<le> 1024" "p + n = min (1024 * Suc j) (length c)" using f(5) n by auto
  have "map (\<lambda>x. D (1024 * ((off + p) div 1024) + x)) [0..<n] = slice p n c"
  proof (cases "n = 0")
    case True
    then show ?thesis by (simp add: slice_def)
  next
    case False
    then have "p = 1024 * j" using f(5) n by (auto simp: min_def split: if_splits)
    moreover obtain q where "off = 1024 * q" using img(1) by blast
    ultimately have "off + p = 1024 * (q + j)" by simp
    then have a: "1024 * ((off + p) div 1024) = off + p" by (simp only: nonzero_mult_div_cancel_left)
    have "D (off + p + i) = c ! (p + i)" if "i < n" for i
    proof -
      have "p + i < length c" using that n by auto
      from img(3)[OF this] show ?thesis by (simp add: add.assoc)
    qed
    then show ?thesis using b(1) n unfolding a by (intro nth_equalityI) (auto simp: slice_nth)
  qed
  note e = this
  have "\<exists>w'. FsFile_read K f (replicate 1024 0) w = Inr (w', f\<lparr>rw_offset := (of_nat (p + n), snd (rw_offset f))\<rparr>,
      map (\<lambda>x. D (1024 * ((off + p) div 1024) + x)) [0..<n] @ drop n (replicate 1024 0), of_nat n) \<and> ready r w'"
    by (rule FsFile_read_block[OF f(1-4) b(1) img(2) _ b(2) _ r]) (use n in simp_all)
  then show ?thesis unfolding e b(3) drop_replicate .
qed

lemma short_reads:
  assumes f: "readable f" "f_offset f = of_nat off" "f_sz f = of_nat len" "rw_offset f = (0, q)" "off mod 1024 = 0"
    and l: "2 * L \<le> len" "off + len < 2 ^ 32" "2 * L \<le> 1024" "length b1 = L" "length b2 = L" and r: "ready (Suc 1) w"
  shows "\<exists>w1 f1 w2 f2. FsFile_read K f b1 w = Inr (w1, f1, map (\<lambda>x. D (off + x)) [0..<L], of_nat L) \<and>
    FsFile_read K f1 b2 w1 = Inr (w2, f2, map (\<lambda>x. D (off + x)) [0..<L], of_nat L)"
proof -
  have d: "drop L b1 = []" "drop L b2 = []" using l(4,5) by simp_all
  have a0: "1024 * ((off + 0) div 1024) = off" using f(5) by auto
  have "\<exists>w'. FsFile_read K f b1 w = Inr (w', f\<lparr>rw_offset := (of_nat (0 + L), snd (rw_offset f))\<rparr>,
      map (\<lambda>x. D (1024 * ((off + 0) div 1024) + x)) [0..<L] @ drop L b1, of_nat L) \<and> ready 1 w'"
    by (rule FsFile_read_block) (use f l r in auto)
  then obtain w1 where w1: "FsFile_read K f b1 w = Inr (w1, f\<lparr>rw_offset := (of_nat L, q)\<rparr>, map (\<lambda>x. D (off + x)) [0..<L], of_nat L)" "ready 1 w1"
    unfolding a0 d f(4) append_Nil2 add_0 snd_conv by blast
  let ?f = "f\<lparr>rw_offset := (of_nat L, q)\<rparr>"
  obtain k where "off = 1024 * k" using f(5) by blast
  then have a: "1024 * ((off + L) div 1024) = off" using l(3) by simp
  have "\<exists>w'. FsFile_read K ?f b2 w1 = Inr (w', ?f\<lparr>rw_offset := (of_nat (L + L), snd (rw_offset ?f))\<rparr>,
      map (\<lambda>x. D (1024 * ((off + L) div 1024) + x)) [0..<L] @ drop L b2, of_nat L) \<and> ready 0 w'"
    by (rule FsFile_read_block) (use f l w1(2) in auto)
  then show ?thesis using w1(1) unfolding a d append_Nil2 by blast
qed

lemma read_blocks_ok:
  assumes "readable f" "f_offset f = of_nat off" "f_sz f = of_nat (length c)" "rw_offset f = (of_nat (min (1024 * j) (length c)), q)"
    and "off mod 1024 = 0" "off + length c < 2 ^ 32" "\<And>x. x < length c \<Longrightarrow> D (off + x) = c ! x" and "ready n w"
  shows "\<exists>w' f'. read_blocks K n f w = Inr (w', f', slice (1024 * j) (1024 * n) c)"
  using assms(1-4,8)
proof (induction n arbitrary: j f w)
  case 0
  then show ?case by (simp add: slice_def)
next
  case (Suc n)
  define p where "p = min (1024 * j) (length c)"
  define m where "m = min (length c - p) 1024"
  obtain w1 where w1: "FsFile_read K f (replicate 1024 0) w =
      Inr (w1, f\<lparr>rw_offset := (of_nat (min (1024 * Suc j) (length c)), snd (rw_offset f))\<rparr>, slice p m c @ replicate (1024 - m) 0, of_nat m)" "ready n w1"
    using FsFile_read_ok[OF Suc.prems(1-3) _ p_def assms(5-7) m_def Suc.prems(5)] Suc.prems(4) by (auto simp: p_def)
  let ?f = "f\<lparr>rw_offset := (of_nat (min (1024 * Suc j) (length c)), snd (rw_offset f))\<rparr>"
  have "rw_offset ?f = (of_nat (min (1024 * Suc j) (length c)), q)" using Suc.prems(4) by simp
  then obtain w2 f2 where w2: "read_blocks K n ?f w1 = Inr (w2, f2, slice (1024 * Suc j) (1024 * n) c)"
    using Suc.IH[of ?f "Suc j" w1] Suc.prems(1-3) w1(2) by auto
  have "unat (of_nat m :: i32) = m" by (simp add: m_def unat_of_nat)
  moreover have "length (slice p m c) = m" by (simp add: m_def)
  ultimately have t: "take (unat (of_nat m :: i32)) (slice p m c @ replicate (1024 - m) 0) = slice p m c" by simp
  have e1: "slice p m c = slice (1024 * j) 1024 c" by (auto simp: slice_def p_def m_def min_def)
  have e2: "slice (1024 * j) 1024 c @ slice (1024 * Suc j) (1024 * n) c = slice (1024 * j) (1024 * Suc n) c"
    by (simp add: slice_def take_add add.commute[of "1024 * j"])
  show ?case unfolding read_blocks.simps w1(1) rbind_simps prod.case w2 t unfolding e1 e2 by blast
qed

end

section \<open>Properties\<close>

text \<open>The disk an image is read from: the contract for any driver state that can serve the reads.\<close>

lemma word_le_0: "word_le n (0 :: 'a::len word) = replicate n 0"
  by (induction n) simp_all

lemma mkfs_entries:
  assumes ok: "fs_files_ok fs" and D: "mkfs fs = Some D"
  shows "\<exists>es :: fsentry list. (\<forall>i<length fs. e_size (es ! i) = length (snd (fs ! i)) \<and> Some (e_name (es ! i)) = fsname (fst (fs ! i)) \<and>
      e_offset (es ! i) mod 1024 = 0 \<and> e_offset (es ! i) + e_size (es ! i) < 2 ^ 32 \<and>
      (\<forall>x<e_size (es ! i). D (e_offset (es ! i) + x) = snd (fs ! i) ! x) \<and>
      header_entry (disk_block D (ucast (of_nat i :: u32) * 2)) = Inr (Some (of_nat (e_offset (es ! i)), of_nat (e_size (es ! i)), e_name (es ! i)))) \<and>
    (\<forall>i. length fs \<le> i \<longrightarrow> i < FILE_MAX \<longrightarrow> header_entry (disk_block D (ucast (of_nat i :: u32) * 2)) = Inr None)"
proof -
  obtain es where es: "\<forall>k<length fs. e_size (es ! k) = length (snd (fs ! k)) \<and> e_name (es ! k) = the (fsname (fst (fs ! k))) \<and>
       e_offset (es ! k) mod 1024 = 0 \<and> e_offset (es ! k) + e_size (es ! k) < 2 ^ 32 \<and>
       (\<forall>j<e_size (es ! k). D (e_offset (es ! k) + j) = snd (fs ! k) ! j) \<and>
       (\<exists>zs. disk_block D (ucast (of_nat k :: u32) * 2) = header_bytes (es ! k) @ zs)"
    and z: "\<And>i. length fs \<le> i \<Longrightarrow> i < FILE_MAX \<Longrightarrow> disk_block D (ucast (of_nat i :: u32) * 2) = replicate 1024 0"
    using mkfs_ok[OF ok] D by auto
  have hdr: "Some (e_name (es ! i)) = fsname (fst (fs ! i)) \<and>
      header_entry (disk_block D (ucast (of_nat i :: u32) * 2)) = Inr (Some (of_nat (e_offset (es ! i)), of_nat (e_size (es ! i)), e_name (es ! i)))"
    if i: "i < length fs" for i
  proof -
    obtain zs where z: "disk_block D (ucast (of_nat i :: u32) * 2) = header_bytes (es ! i) @ zs" using es i by blast
    have e: "e_size (es ! i) = length (snd (fs ! i))" "e_name (es ! i) = the (fsname (fst (fs ! i)))" "e_offset (es ! i) + e_size (es ! i) < 2 ^ 32"
      using es i by blast+
    have f: "snd (fs ! i) \<noteq> []" "fsname (fst (fs ! i)) \<noteq> None" "0 \<notin> set (the (fsname (fst (fs ! i))))" "utf8_valid (the (fsname (fst (fs ! i))))"
      using ok nth_mem[OF i] by (auto simp: fs_files_ok_def)
    have "header_entry (disk_block D (ucast (of_nat i :: u32) * 2)) = Inr (Some (of_nat (e_offset (es ! i)), of_nat (e_size (es ! i)), e_name (es ! i)))"
      by (rule header_entry_ok[OF _ _ _ _ z]) (use e f in auto)
    then show ?thesis using e(2) f(2) by auto
  qed
  have "slice 0 8 (replicate 1024 (0 :: u8)) = word_le 8 (0 :: u64)" by (simp add: slice_def word_le_0)
  then have "header_entry (replicate 1024 0) = Inr None"
    unfolding header_entry_def Let_def by (simp add: le_word_word_le)
  then have "header_entry (disk_block D (ucast (of_nat i :: u32) * 2)) = Inr None" if "length fs \<le> i" "i < FILE_MAX" for i
    using z[OF that] by simp
  then show ?thesis using es hdr by (intro exI[of _ es]) auto
qed

context block_device
begin

lemma open_mkfs:
  assumes ok: "fs_files_ok fs" and D: "mkfs fs = Some D" and k: "k < length fs" and p: "fsname (fst (fs ! k)) = Some p"
    and r: "ready (Suc k + r) w"
  shows "\<exists>off w'. FsFile_open K p mode w =
      Inr (w', \<lparr>f_offset = of_nat off, f_sz = of_nat (length (snd (fs ! k))), rw_offset = (0, 0), readable = True, writable = True\<rparr>) \<and>
    ready r w' \<and> off mod 1024 = 0 \<and> off + length (snd (fs ! k)) < 2 ^ 32 \<and>
    (\<forall>x<length (snd (fs ! k)). D (off + x) = snd (fs ! k) ! x)"
proof -
  obtain es :: "fsentry list" where es: "\<And>i. i < length fs \<Longrightarrow> e_size (es ! i) = length (snd (fs ! i))" "\<And>i. i < length fs \<Longrightarrow> Some (e_name (es ! i)) = fsname (fst (fs ! i))"
      "\<And>i. i < length fs \<Longrightarrow> e_offset (es ! i) mod 1024 = 0" "\<And>i. i < length fs \<Longrightarrow> e_offset (es ! i) + e_size (es ! i) < 2 ^ 32"
      "\<And>i x. i < length fs \<Longrightarrow> x < e_size (es ! i) \<Longrightarrow> D (e_offset (es ! i) + x) = snd (fs ! i) ! x"
      "\<And>i. i < length fs \<Longrightarrow> header_entry (disk_block D (ucast (of_nat i :: u32) * 2)) = Inr (Some (of_nat (e_offset (es ! i)), of_nat (e_size (es ! i)), e_name (es ! i)))"
    using mkfs_entries[OF ok D] by blast
  have F: "length fs \<le> 1024" "distinct (map (the \<circ> fsname \<circ> fst) fs)" using ok by (auto simp: fs_files_ok_def FILE_MAX_def)
  have nm: "e_name (es ! k) = p" using es(2)[OF k] p by simp
  have ne: "e_name (es ! i) \<noteq> p" if i: "i < k" for i
  proof
    assume "e_name (es ! i) = p"
    then have "fsname (fst (fs ! i)) = fsname (fst (fs ! k))" using es(2)[of i] i k p by simp
    then show False using nth_eq_iff_index_eq[OF F(2), of i k] i k by simp
  qed
  have "\<exists>w'. info_loop K p 0 FILE_MAX w = Inr (w', Some (of_nat (e_offset (es ! k)), of_nat (e_size (es ! k)))) \<and> ready r w'"
    by (rule info_loop_found[where nm = "\<lambda>i. e_name (es ! i)"]) (use r k F nm ne es(6) in \<open>simp_all add: FILE_MAX_def\<close>)
  then show ?thesis using es(1,3,4,5)[OF k]
    by (intro exI[of _ "e_offset (es ! k)"]) (auto simp: FsFile_open_def get_file_info_def)
qed

end

text \<open>C23: What \<open>fs.cpp\<close> writes, the kernel reads back: on an image made from a list of files, opening the
  name of a file and reading it in blocks of 1024 bytes through the driver returns its contents
  in order, as much as the number of blocks holds, for every file of the image.\<close>

theorem mkfs_read_roundtrip:
  assumes "fs_files_ok fs" "mkfs fs = Some D" "k < length fs" "fsname (fst (fs ! k)) = Some p"
    and "virtio_ready A D (Suc k + n) w"
  shows "\<exists>w' f w'' f'. FsFile_open (virtio_disk A D ha) p mode w = Inr (w', f) \<and>
    read_blocks (virtio_disk A D ha) n f w' = Inr (w'', f', take (1024 * n) (snd (fs ! k)))"
proof -
  let ?c = "snd (fs ! k)"
  obtain off w' where o: "FsFile_open (virtio_disk A D ha) p mode w =
      Inr (w', \<lparr>f_offset = of_nat off, f_sz = of_nat (length ?c), rw_offset = (0, 0), readable = True, writable = True\<rparr>)"
    "virtio_ready A D n w'" "off mod 1024 = 0" "off + length ?c < 2 ^ 32" "\<And>x. x < length ?c \<Longrightarrow> D (off + x) = ?c ! x"
    using vd.open_mkfs[OF assms, of ha mode] by (elim exE conjE) metis
  have "\<exists>w'' f'. read_blocks (virtio_disk A D ha) n \<lparr>f_offset = of_nat off, f_sz = of_nat (length ?c), rw_offset = (0, 0), readable = True, writable = True\<rparr> w' =
      Inr (w'', f', slice (1024 * 0) (1024 * n) ?c)"
    by (rule vd.read_blocks_ok[where q = 0]) (use o in auto)
  then show ?thesis using o(1) by (auto simp: slice_def)
qed

text \<open>Opening a name that is not in the image panics: the directory scan ends at the first
  unused header.\<close>

theorem open_missing_file:
  assumes "fs_files_ok fs" "mkfs fs = Some D" "length fs < FILE_MAX" "\<forall>f\<in>set fs. fsname (fst f) \<noteq> Some p"
    and "virtio_ready A D (Suc (length fs)) w"
  shows "FsFile_open (virtio_disk A D ha) p mode w = Inl (Panic ''{} not found'')"
proof -
  obtain es :: "fsentry list" where es: "\<And>i. i < length fs \<Longrightarrow> Some (e_name (es ! i)) = fsname (fst (fs ! i))"
      "\<And>i. i < length fs \<Longrightarrow> header_entry (disk_block D (ucast (of_nat i :: u32) * 2)) = Inr (Some (of_nat (e_offset (es ! i)), of_nat (e_size (es ! i)), e_name (es ! i)))"
      "header_entry (disk_block D (ucast (of_nat (length fs) :: u32) * 2)) = Inr None"
    using mkfs_entries[OF assms(1,2)] assms(3) by blast
  have "e_name (es ! i) \<noteq> p" if "i < length fs" for i using es(1)[OF that] assms(4) nth_mem[OF that] by metis
  then have "\<exists>w'. info_loop (virtio_disk A D ha) p 0 FILE_MAX w = Inr (w', None) \<and> virtio_ready A D 0 w'"
    by (intro vd.info_loop_missing[where nm = "\<lambda>i. e_name (es ! i)" and t = "length fs"]) (use assms(3,5) es(2,3) in simp_all)
  then show ?thesis by (auto simp: FsFile_open_def get_file_info_def)
qed

text \<open>C24: The read offset inside a block is ignored: \<open>read\<close> always copies from the start of the block
  that holds the offset, so two reads of at most 512 bytes each from a new file return the same
  bytes, those at the start of the file, although the file has more.\<close>

theorem short_reads_repeat:
  assumes "fs_files_ok fs" "mkfs fs = Some D" "k < length fs" "fsname (fst (fs ! k)) = Some p"
    and "virtio_ready A D (Suc k + 2) w" "2 * L \<le> length (snd (fs ! k))" "L \<le> 512" "length b1 = L" "length b2 = L"
  shows "\<exists>w0 f w1 f1 w2 f2. FsFile_open (virtio_disk A D ha) p mode w = Inr (w0, f) \<and>
    FsFile_read (virtio_disk A D ha) f b1 w0 = Inr (w1, f1, take L (snd (fs ! k)), of_nat L) \<and>
    FsFile_read (virtio_disk A D ha) f1 b2 w1 = Inr (w2, f2, take L (snd (fs ! k)), of_nat L)"
proof -
  let ?c = "snd (fs ! k)"
  obtain off w' where o: "FsFile_open (virtio_disk A D ha) p mode w =
      Inr (w', \<lparr>f_offset = of_nat off, f_sz = of_nat (length ?c), rw_offset = (0, 0), readable = True, writable = True\<rparr>)"
    "virtio_ready A D 2 w'" "off mod 1024 = 0" "off + length ?c < 2 ^ 32" "\<And>x. x < length ?c \<Longrightarrow> D (off + x) = ?c ! x"
    using vd.open_mkfs[OF assms(1-5), of ha mode] by (elim exE conjE) metis
  have "map (\<lambda>x. D (off + x)) [0..<L] = take L ?c" using o(5) assms(6) by (intro nth_equalityI) auto
  moreover have "\<exists>w1 f1 w2 f2. FsFile_read (virtio_disk A D ha) \<lparr>f_offset = of_nat off, f_sz = of_nat (length ?c), rw_offset = (0, 0), readable = True, writable = True\<rparr> b1 w' =
        Inr (w1, f1, map (\<lambda>x. D (off + x)) [0..<L], of_nat L) \<and>
      FsFile_read (virtio_disk A D ha) f1 b2 w1 = Inr (w2, f2, map (\<lambda>x. D (off + x)) [0..<L], of_nat L)"
    by (rule vd.short_reads[where len = "length ?c" and q = 0]) (use o assms(6-9) in \<open>simp_all add: numeral_2_eq_2[symmetric]\<close>)
  ultimately show ?thesis using o(1) by (simp only:) blast
qed

text \<open>A small image: one file \<open>hi\<close>.\<close>

lemma demo_fs_ok:
  "fs_files_ok [(ascii ''bin/hi'', ascii ''hello'')]" "fsname (fst ([(ascii ''bin/hi'', ascii ''hello'')] ! 0)) = Some (ascii ''/hi'')"
  "\<exists>D. mkfs [(ascii ''bin/hi'', ascii ''hello'')] = Some D"
proof -
  show n: "fsname (fst ([(ascii ''bin/hi'', ascii ''hello'')] ! 0)) = Some (ascii ''/hi'')"
    by (simp add: fsname_def ascii_def of_char_def)
  then show ok: "fs_files_ok [(ascii ''bin/hi'', ascii ''hello'')]"
    by (simp add: fs_files_ok_def FILE_MAX_def) (simp add: ascii_def of_char_def)
  show "\<exists>D. mkfs [(ascii ''bin/hi'', ascii ''hello'')] = Some D" using mkfs_ok[OF ok] by blast
qed

lemma demo_ready: "virtio_ready demo_addrs D 65535 (\<lparr>alc = Allocator_new\<lparr>base_addr := 0x80100000\<rparr>, mem = \<lambda>_ _. 0\<rparr>, disk_init)"
proof -
  have o: "owns (Allocator_new\<lparr>base_addr := 0x80100000\<rparr>) Map.empty" by (rule owns_example)
  have "0 < free_pages (Allocator_new\<lparr>base_addr := 0x80100000\<rparr>)" using owns_count(2)[OF o] by (simp add: MAX_PAGE_num)
  moreover have "avail (vio (drv disk_init)) ! 1 = 0" by (simp add: disk_init_def VirtIO_new_def AVAIL_SZ_num)
  ultimately show ?thesis using o demo_inj disk_reach.start by (auto simp: virtio_ready_def disk_init_def)
qed

theorem mkfs_read_roundtrip_witness:
  "\<exists>D w' f w'' f'. mkfs [(ascii ''bin/hi'', ascii ''hello'')] = Some D \<and>
    FsFile_open (virtio_disk demo_addrs D 100) (ascii ''/hi'') 0 (\<lparr>alc = Allocator_new\<lparr>base_addr := 0x80100000\<rparr>, mem = \<lambda>_ _. 0\<rparr>, disk_init) = Inr (w', f) \<and>
    read_blocks (virtio_disk demo_addrs D 100) 1 f w' = Inr (w'', f', ascii ''hello'')"
proof -
  let ?w = "(\<lparr>alc = Allocator_new\<lparr>base_addr := 0x80100000\<rparr>, mem = \<lambda>_ _. 0\<rparr>, disk_init)"
  obtain D where D: "mkfs [(ascii ''bin/hi'', ascii ''hello'')] = Some D" using demo_fs_ok(3) by blast
  have "virtio_ready demo_addrs D (Suc 0 + 1) ?w" using demo_ready[of D] by (auto simp: virtio_ready_def)
  from mkfs_read_roundtrip[OF demo_fs_ok(1) D _ demo_fs_ok(2) this, of 100 0] D show ?thesis by (auto simp: ascii_def)
qed

theorem open_missing_file_witness:
  "\<exists>D. mkfs [(ascii ''bin/hi'', ascii ''hello'')] = Some D \<and>
    FsFile_open (virtio_disk demo_addrs D 100) (ascii ''/ho'') 0 (\<lparr>alc = Allocator_new\<lparr>base_addr := 0x80100000\<rparr>, mem = \<lambda>_ _. 0\<rparr>, disk_init) =
      Inl (Panic ''{} not found'')"
proof -
  let ?fs = "[(ascii ''bin/hi'', ascii ''hello'')]"
  let ?w = "(\<lparr>alc = Allocator_new\<lparr>base_addr := 0x80100000\<rparr>, mem = \<lambda>_ _. 0\<rparr>, disk_init)"
  obtain D where D: "mkfs ?fs = Some D" using demo_fs_ok(3) by blast
  have r: "virtio_ready demo_addrs D (Suc (length ?fs)) ?w" using demo_ready[of D] by (auto simp: virtio_ready_def)
  have "ascii ''/hi'' \<noteq> ascii ''/ho''" by (simp add: ascii_def of_char_def)
  then have "\<forall>f\<in>set ?fs. fsname (fst f) \<noteq> Some (ascii ''/ho'')" using demo_fs_ok(2) by simp
  from open_missing_file[OF demo_fs_ok(1) D _ this r, of 100 0] D show ?thesis by (simp add: FILE_MAX_def)
qed

theorem short_reads_repeat_witness:
  "\<exists>D w0 f w1 f1 w2 f2. mkfs [(ascii ''bin/hi'', ascii ''hello'')] = Some D \<and>
    FsFile_open (virtio_disk demo_addrs D 100) (ascii ''/hi'') 0 (\<lparr>alc = Allocator_new\<lparr>base_addr := 0x80100000\<rparr>, mem = \<lambda>_ _. 0\<rparr>, disk_init) = Inr (w0, f) \<and>
    FsFile_read (virtio_disk demo_addrs D 100) f [0, 0] w0 = Inr (w1, f1, ascii ''he'', 2) \<and>
    FsFile_read (virtio_disk demo_addrs D 100) f1 [0, 0] w1 = Inr (w2, f2, ascii ''he'', 2)"
proof -
  let ?w = "(\<lparr>alc = Allocator_new\<lparr>base_addr := 0x80100000\<rparr>, mem = \<lambda>_ _. 0\<rparr>, disk_init)"
  obtain D where D: "mkfs [(ascii ''bin/hi'', ascii ''hello'')] = Some D" using demo_fs_ok(3) by blast
  have "virtio_ready demo_addrs D (Suc 0 + 2) ?w" using demo_ready[of D] by (auto simp: virtio_ready_def)
  from short_reads_repeat[OF demo_fs_ok(1) D _ demo_fs_ok(2) this, of 2 "[0, 0]" "[0, 0]" 100 0] D
  show ?thesis by (simp add: ascii_def numeral_2_eq_2)
qed

end
