(* ===== verification/Process.thy ===== *)
theory Process
  imports Elf Unmap Files
begin

text \<open>
  Processes: \<open>process.rs\<close>, \<open>process/process.rs\<close>, \<open>process/trapframe.rs\<close> and \<open>process/context.rs\<close> as
  far as they create, copy and replace processes. The kernel state holds memory, the disk, the
  devices, the reference-counted files, the process pool and the process of the current hart;
  an operation runs without interruption by the others here (\<open>Schedule\<close> has the interleavings).
\<close>

section \<open>Definitions\<close>

datatype ProcessState = UNUSED | SLEEPING | RUNNABLE | RUNNING | ZOMBIE

text \<open>
  The boxes \<open>pgtable\<close>, \<open>trapframe\<close> and \<open>context\<close> are addresses of frames, a file is the address of
  its \<open>Arc\<close>; \<open>drop_on_put_back\<close> says whether the guard is present.
\<close>

record Process =
  pgtable :: usize
  trapframe :: usize
  p_context :: usize
  state :: ProcessState
  kstack :: usize
  kstack_sp :: usize
  pid :: i32
  channel :: usize
  drop_on_put_back :: bool
  files :: "usize option list"

datatype ProcInPool = NoProc | Scheduled | Pooling "Process Box" | BeingSlept

record 'd kernel =
  km :: kmem
  vs :: vsys
  dev :: 'd
  arcs :: "usize \<rightharpoonup> nat \<times> File"
  pool :: "ProcInPool list"
  cur :: "Process Box option"

text \<open>Addresses of the kernel's functions, which the linker assigns.\<close>

record kfuns =
  forkret_fn :: usize
  usertrap_fn :: usize
  kernelvec_fn :: usize
  uservec_fn :: usize
  userret_fn :: usize

text \<open>
  Positions, in words, in \<open>TrapFrame\<close> (\<open>regs\<close> 0 to 31, \<open>fregs\<close> 32 to 63, then the kernel's values) and
  in \<open>Context\<close>.
\<close>

datatype Register = R_zero | R_ra | R_sp | R_gp | R_tp | R_t0 | R_t1 | R_t2 | R_s0 | R_s1
  | R_a0 | R_a1 | R_a2 | R_a3 | R_a4 | R_a5 | R_a6 | R_a7

primrec Register_idx :: "Register \<Rightarrow> nat" where
  "Register_idx R_zero = 0" | "Register_idx R_ra = 1" | "Register_idx R_sp = 2" | "Register_idx R_gp = 3"
| "Register_idx R_tp = 4" | "Register_idx R_t0 = 5" | "Register_idx R_t1 = 6" | "Register_idx R_t2 = 7"
| "Register_idx R_s0 = 8" | "Register_idx R_s1 = 9" | "Register_idx R_a0 = 10" | "Register_idx R_a1 = 11"
| "Register_idx R_a2 = 12" | "Register_idx R_a3 = 13" | "Register_idx R_a4 = 14" | "Register_idx R_a5 = 15"
| "Register_idx R_a6 = 16" | "Register_idx R_a7 = 17"

datatype TrapFrameField = TF_regs Register | TF_satp | TF_sp | TF_hartid | TF_trap | TF_epc

primrec TrapFrame_word :: "TrapFrameField \<Rightarrow> nat" where
  "TrapFrame_word (TF_regs r) = Register_idx r"
| "TrapFrame_word TF_satp = 64"
| "TrapFrame_word TF_sp = 65"
| "TrapFrame_word TF_hartid = 66"
| "TrapFrame_word TF_trap = 67"
| "TrapFrame_word TF_epc = 68"

datatype ContextRegisters = CR_ra | CR_sp

primrec ContextRegisters_idx :: "ContextRegisters \<Rightarrow> nat" where
  "ContextRegisters_idx CR_ra = 0"
| "ContextRegisters_idx CR_sp = 1"

definition TrapFrame_zero :: "nat \<Rightarrow> usize" where
  "TrapFrame_zero = (\<lambda>i. 0)"

definition Context_zero :: "nat \<Rightarrow> usize" where
  "Context_zero = (\<lambda>i. 0)"

definition get_tf :: "usize \<Rightarrow> TrapFrameField \<Rightarrow> kmem \<Rightarrow> usize" where
  "get_tf tf f m = mem m tf (TrapFrame_word f)"

definition set_word :: "usize \<Rightarrow> nat \<Rightarrow> usize \<Rightarrow> kmem \<Rightarrow> kmem" where
  "set_word a i v m = m\<lparr>mem := upd_cell a i v (mem m)\<rparr>"

definition set_tf :: "usize \<Rightarrow> TrapFrameField \<Rightarrow> usize \<Rightarrow> kmem \<Rightarrow> kmem" where
  "set_tf tf f v m = set_word tf (TrapFrame_word f) v m"

text \<open>
  A box that holds less than a page is a frame of its own, like \<open>box_frame\<close>: the allocator hands
  out whole pages (\<open>allocate_small\<close> below).
\<close>

definition from_exist :: "kfuns \<Rightarrow> linker \<Rightarrow> i32 \<Rightarrow> usize \<Rightarrow> usize \<Rightarrow> kmem \<Rightarrow> (kmem \<times> Process) res" where
  "from_exist F l pd pt tf m =
     rif (sint pd < 0) (Panic ''invalid pid'')
    (rbind (mul_chk PAGE_SIZE 1024) (\<lambda>sz.
     rbind (allocate (alc m) sz) (\<lambda>(al, ks).
     rbind (box_frame Context_zero (m\<lparr>alc := al\<rparr>)) (\<lambda>(m, ctx).
     rbind (add_chk ks sz) (\<lambda>ksp.
     rbind (kernel_map pt TRAMPOLINE_START (TRAMPOLINE_TEXT_START l) (attr EA_RX) m) (\<lambda>m.
     rbind (kernel_map pt TRAPFRAME_START tf (attr EA_RW) m) (\<lambda>m.
     rbind (add_chk ks PAGE_SIZE) (\<lambda>sp.
       Inr (set_word ctx (ContextRegisters_idx CR_sp) sp (set_word ctx (ContextRegisters_idx CR_ra) (forkret_fn F) m),
         \<lparr>pgtable = pt, trapframe = tf, p_context = ctx, state = UNUSED, kstack = ks, kstack_sp = ksp,
          pid = pd, channel = 0, drop_on_put_back = False, files = replicate 256 None\<rparr>)))))))))"

definition Process_new :: "kfuns \<Rightarrow> linker \<Rightarrow> i32 \<Rightarrow> kmem \<Rightarrow> (kmem \<times> Process) res" where
  "Process_new F l pd m =
     rbind (box_frame Table_new m) (\<lambda>(m, pt).
     rbind (box_frame TrapFrame_zero m) (\<lambda>(m, tf).
       from_exist F l pd pt tf m))"

text \<open>\<open>pool[p.pid as usize]\<close>: the cast extends the sign.\<close>

definition pid_index :: "i32 \<Rightarrow> nat" where
  "pid_index pd = unat (scast pd :: usize)"

definition put_back_proc :: "Process Box \<Rightarrow> ProcInPool list \<Rightarrow> ProcInPool list res" where
  "put_back_proc p ps =
     rbind (arr_get ps (pid_index (pid (unbox p)))) (\<lambda>slot.
     let p' = p\<lparr>unbox := (unbox p)\<lparr>drop_on_put_back := False\<rparr>\<rparr> in
     case slot of
       Pooling _ \<Rightarrow> Inl (Panic ''pid {} already occupied'')
     | _ \<Rightarrow> arr_set ps (pid_index (pid (unbox p))) (Pooling p'))"

definition USER_STACK_PAGE :: nat where
  "USER_STACK_PAGE = 4"

definition map_stack :: "usize \<Rightarrow> usize \<Rightarrow> kmem \<Rightarrow> (kmem \<times> usize) res" where
  "map_stack pt stack_begin m =
     rbind (rfor 0 USER_STACK_PAGE (\<lambda>i m.
       rbind (Page_new m) (\<lambda>(m, stack).
       rbind (mul_chk (of_nat i) PAGE_SIZE) (\<lambda>k.
       rbind (add_chk stack_begin k) (\<lambda>va.
         Table_map pt va stack (attr EA_URW) m)))) m) (\<lambda>m.
     rbind (mul_chk PAGE_SIZE (of_nat USER_STACK_PAGE)) (\<lambda>n.
     rbind (add_chk stack_begin n) (\<lambda>sp. Inr (m, sp))))"

text \<open>\<open>code\<close> are the bytes that \<open>include_bytes!\<close> takes from the build of \<open>initcode.S\<close>.\<close>

definition init_proc :: "kfuns \<Rightarrow> linker \<Rightarrow> u8 list \<Rightarrow> 'd kernel \<Rightarrow> 'd kernel res" where
  "init_proc F l code k =
     rbind (Process_new F l 0 (km k)) (\<lambda>(m, p).
     rbind (Page_new m) (\<lambda>(m, pg).
     rif (unat PAGE_SIZE < length code) Bounds
    (rbind (Table_map (pgtable p) 0 pg (attr EA_URX) (m\<lparr>mem := (mem m)(pg := put_bytes 0 code (mem m pg))\<rparr>)) (\<lambda>m.
     rbind (map_stack (pgtable p) 0x80001000 m) (\<lambda>(m, sp).
     let m = set_tf (trapframe p) (TF_regs R_sp) sp (set_tf (trapframe p) TF_epc 0 m) in
     rbind (box_frame Context_zero m) (\<lambda>(m, b).
     rbind (put_back_proc \<lparr>box_addr = b, unbox = p\<lparr>state := RUNNABLE\<rparr>\<rparr> (pool k)) (\<lambda>ps.
       Inr (k\<lparr>km := m, pool := ps\<rparr>))))))))"

definition find_available_pid :: "ProcInPool list \<Rightarrow> i32 option" where
  "find_available_pid ps = map_option of_nat (first_slot (\<lambda>s. case s of NoProc \<Rightarrow> True | _ \<Rightarrow> False) 0 ps)"

definition my_proc :: "'d kernel \<Rightarrow> Process Box res" where
  "my_proc k = (case cur k of None \<Rightarrow> Inl Unwrap | Some p \<Rightarrow> Inr p)"

text \<open>
  \<open>Arc\<close>: a frame with a count and the file; using a pointer that was freed is not a step of the
  program.
\<close>

definition arc_new :: "File \<Rightarrow> 'd kernel \<Rightarrow> ('d kernel \<times> usize) res" where
  "arc_new f k = rbind (box_frame Context_zero (km k)) (\<lambda>(m, a). Inr (k\<lparr>km := m, arcs := (arcs k)(a \<mapsto> (1, f))\<rparr>, a))"

definition arc_clone :: "usize \<Rightarrow> (usize \<rightharpoonup> nat \<times> File) \<Rightarrow> (usize \<rightharpoonup> nat \<times> File) res" where
  "arc_clone a s = (case s a of None \<Rightarrow> Inl Unreachable | Some (n, f) \<Rightarrow> Inr (s(a \<mapsto> (Suc n, f))))"

definition arc_drop :: "usize \<Rightarrow> 'd kernel \<Rightarrow> 'd kernel res" where
  "arc_drop a k =
     (case arcs k a of
        None \<Rightarrow> Inl Unreachable
      | Some (n, f) \<Rightarrow>
          if n = 1 then rbind (free_frame a (km k)) (\<lambda>m. Inr (k\<lparr>km := m, arcs := (arcs k)(a := None)\<rparr>))
          else Inr (k\<lparr>arcs := (arcs k)(a \<mapsto> (n - 1, f))\<rparr>))"

definition clone_files :: "usize option list \<Rightarrow> (usize \<rightharpoonup> nat \<times> File) \<Rightarrow> ((usize \<rightharpoonup> nat \<times> File) \<times> usize option list) res" where
  "clone_files fs s =
     rfor 0 256 (\<lambda>i (s, new).
       rbind (arr_get fs i) (\<lambda>f. case f of
         Some x \<Rightarrow> rbind (arc_clone x s) (\<lambda>s'. rbind (arr_set new i (Some x)) (\<lambda>new'. Inr (s', new')))
       | None \<Rightarrow> rbind (arr_set new i None) (\<lambda>new'. Inr (s, new')))) (s, replicate 256 None)"

text \<open>
  The copies of page table and trap frame that \<open>fork\<close> makes: \<open>box *p.trapframe.clone()\<close> allocates the
  box, then clones the old one into another and frees that again.
\<close>

definition fork_memory :: "Process \<Rightarrow> kmem \<Rightarrow> (kmem \<times> usize \<times> usize) res" where
  "fork_memory p m =
     rbind (Table_clone (pgtable p) m) (\<lambda>(m, pt).
     rbind (box_frame TrapFrame_zero m) (\<lambda>(m, tf).
     rbind (box_frame (mem m (trapframe p)) m) (\<lambda>(m, tmp).
     rbind (free_frame tmp (m\<lparr>mem := (mem m)(tf := mem m tmp)\<rparr>)) (\<lambda>m.
       Inr (m, pt, tf)))))"

definition fork :: "kfuns \<Rightarrow> linker \<Rightarrow> 'd kernel \<Rightarrow> ('d kernel \<times> i32) res" where
  "fork F l k =
     rbind (my_proc k) (\<lambda>pb. let p = unbox pb in
     case find_available_pid (pool k) of
       None \<Rightarrow> Inl (Panic ''pid unavailable'')
     | Some f_pid \<Rightarrow>
         rbind (fork_memory p (km k)) (\<lambda>(m, pt, tf).
         rbind (from_exist F l f_pid pt tf m) (\<lambda>(m, fork_p).
         rbind (clone_files (files p) (arcs k)) (\<lambda>(s, fs).
         let m = set_tf tf (TF_regs R_a0) 0 m in
         rbind (box_frame Context_zero m) (\<lambda>(m, b).
         rbind (put_back_proc \<lparr>box_addr = b, unbox = fork_p\<lparr>files := fs, state := RUNNABLE\<rparr>\<rparr> (pool k)) (\<lambda>ps.
           Inr (k\<lparr>km := m, arcs := s, pool := ps\<rparr>, f_pid)))))))"

definition EXEC_BUF :: nat where
  "EXEC_BUF = 131072"

text \<open>The loop of \<open>exec\<close>: a block that is not full ends it and is not copied.\<close>

function exec_loop :: "'w disk \<Rightarrow> FsFile \<Rightarrow> u8 list \<Rightarrow> u8 list \<Rightarrow> nat \<Rightarrow> 'w \<Rightarrow> ('w \<times> u8 list) res" where
  "exec_loop K f blk content i w =
     rbind (FsFile_read K f blk w) (\<lambda>(w, f, blk, n).
       if n = 1024 then
         rbind (rfor 0 1024 (\<lambda>j c. rbind (arr_get blk j) (arr_set c (i + j))) content) (\<lambda>content.
           if EXEC_BUF \<le> i + 1024 + 1024 then Inl (Panic ''elf file too large!'')
           else exec_loop K f blk content (i + 1024) w)
       else Inr (w, content))"
  by pat_completeness auto

termination
  by (relation "measure (\<lambda>(K, f, blk, content, i, w). EXEC_BUF - i)") auto

declare exec_loop.simps [simp del]

text \<open>What the loader sees behind the pointer to the buffer; \<open>beyond\<close> is the memory after it.\<close>

definition buffer_bytes :: "u8 list \<Rightarrow> (usize \<Rightarrow> u8) \<Rightarrow> usize \<Rightarrow> u8" where
  "buffer_bytes content beyond i = (if unat i < length content then content ! unat i else beyond i)"

definition exec :: "'d kernel disk \<Rightarrow> (usize \<Rightarrow> u8) \<Rightarrow> u8 list \<Rightarrow> 'd kernel \<Rightarrow> 'd kernel res" where
  "exec K beyond fpath k =
     rbind (my_proc k) (\<lambda>pb. let p = unbox pb in
     rbind (os_alloc (alc (km k)) \<lparr>layout_size = of_nat EXEC_BUF, layout_align = 1\<rparr>) (\<lambda>(al, buf).
     let k = k\<lparr>km := (km k)\<lparr>alc := al\<rparr>\<rparr> in
     rbind (FsFile_open K fpath 0 k) (\<lambda>(k, f).
     rbind (exec_loop K f (replicate 1024 0) (replicate EXEC_BUF 0) 0 k) (\<lambda>(k, content).
     rbind (unmap_user 3 (pgtable p) (km k)) (\<lambda>m.
     rbind (parse_elf (buffer_bytes content beyond) (pgtable p) m) (\<lambda>(m, ent).
     rbind (map_stack (pgtable p) 0x80001000 m) (\<lambda>(m, sp).
     let m = set_tf (trapframe p) (TF_regs R_sp) sp (set_tf (trapframe p) TF_epc ent m) in
     rbind (os_dealloc (alc m) buf \<lparr>layout_size = of_nat EXEC_BUF, layout_align = 1\<rparr>) (\<lambda>al.
       Inr (k\<lparr>km := m\<lparr>alc := al\<rparr>\<rparr>)))))))))"

text \<open>\<open>exit\<close> up to the call of \<open>sched\<close>, from which a zombie never returns.\<close>

definition exit_proc :: "riscv \<Rightarrow> i32 \<Rightarrow> 'd kernel \<times> hart \<Rightarrow> ('d kernel \<times> hart) res" where
  "exit_proc R status = (\<lambda>(k, h).
     rbind (my_proc k) (\<lambda>pb.
     rif (pid (unbox pb) = 0) (Panic ''init exiting'')
       (Inr (k\<lparr>cur := Some (pb\<lparr>unbox := (unbox pb)\<lparr>state := ZOMBIE\<rparr>\<rparr>)\<rparr>, intr_off R h))))"

text \<open>
  Dropping a process gives back its stack; then its fields are dropped in the order of their
  declaration.
\<close>

definition Process_drop :: "nat \<Rightarrow> Process \<Rightarrow> 'd kernel \<Rightarrow> 'd kernel res" where
  "Process_drop n p k =
     rbind (free_frame (kstack p) (km k)) (\<lambda>m.
     rbind (drop_box_table n (pgtable p) m) (\<lambda>m.
     rbind (free_frame (trapframe p) m) (\<lambda>m.
     rbind (free_frame (p_context p) m) (\<lambda>m.
       rfor 0 (length (files p)) (\<lambda>i k. case files p ! i of Some a \<Rightarrow> arc_drop a k | None \<Rightarrow> Inr k) (k\<lparr>km := m\<rparr>)))))"

text \<open>
  The frames of a process, and the invariant of a process: its address space is well formed and
  maps the trampoline and its trap frame for the kernel only; trap frame, context and stack are blocks
  of their own.
\<close>

definition pframes :: "cells \<Rightarrow> Process \<Rightarrow> usize set" where
  "pframes c p = uframes c (pgtable p) \<union> {trapframe p, p_context p, kstack p}"

definition proc_ok :: "linker \<Rightarrow> kmem \<Rightarrow> (usize \<rightharpoonup> nat) \<Rightarrow> Process \<Rightarrow> bool" where
  "proc_ok l m M p \<longleftrightarrow> uspace (pgtable p) m M \<and>
     M (trapframe p) = Some 1 \<and> M (p_context p) = Some 1 \<and> M (kstack p) = Some 1024 \<and>
     {trapframe p, p_context p, kstack p} \<inter> uframes (mem m) (pgtable p) = {} \<and> trapframe p \<noteq> p_context p \<and>
     lookup (mem m) (pgtable p) (vpath TRAMPOLINE_START) =
       Some (Entry_new (TRAMPOLINE_TEXT_START l) (attr EA_RX OR attr EA_V)) \<and>
     lookup (mem m) (pgtable p) (vpath TRAPFRAME_START) = Some (Entry_new (trapframe p) (attr EA_RW OR attr EA_V)) \<and>
     kstack_sp p = kstack p + 0x400000 \<and> length (files p) = 256 \<and> 0 \<le> sint (pid p)"

section \<open>Blocks\<close>

declare attr.simps [simp del]

lemma allocate_small:
  assumes "0 < unat sz" "unat sz \<le> 4096"
  shows "allocate A sz = allocate A PAGE_SIZE"
proof -
  have "align_val sz PAGE_ORDER = Inr 4096" "align_val PAGE_SIZE PAGE_ORDER = Inr 4096"
  proof -
    obtain r where r: "align_val sz 12 = Inr r" using align_val_ok_iff[of sz 12] assms by auto
    have "(unat sz + 4095) div 4096 = 1" using assms by simp
    then have "unat r = 4096" using align_val_unat[OF r] by simp
    then show "align_val sz PAGE_ORDER = Inr 4096" using r by (simp add: PAGE_ORDER_def word_unat_eq_iff)
    obtain r where r: "align_val PAGE_SIZE 12 = Inr r" using align_val_ok_iff[of PAGE_SIZE 12] by (auto simp: consts_simps)
    then have "unat r = 4096" using align_val_unat[OF r] by (simp add: consts_simps)
    then show "align_val PAGE_SIZE PAGE_ORDER = Inr 4096" using r by (simp add: PAGE_ORDER_def word_unat_eq_iff)
  qed
  then show ?thesis by (simp add: allocate_def)
qed

lemma alloc_touches:
  assumes o: "owns (alc m) M" and a: "allocate (alc m) sz = Inr (al, z)" and n: "0 < unat sz"
  shows "touches {} m M (m\<lparr>alc := al\<rparr>) (M(z \<mapsto> pages_for sz))" "M z = None"
  using fs.alloc_new[OF o a n] allocate_above_base[OF o a n] by (auto simp: touches_def map_le_def)

lemma free_touches:
  assumes t: "touches F m M m1 (M1(z \<mapsto> n))" and z: "M z = None" "M1 z = None"
  obtains m2 where "free_frame z m1 = Inr m2" "touches F m M m2 M1" "mem m2 = mem m1"
proof -
  obtain al where f: "free_frame z m1 = Inr (m1\<lparr>alc := al\<rparr>)" "owns al (M1(z \<mapsto> n, z := None))" "base_addr al = base_addr (alc m1)"
    using free_frame_owned[OF touchesD(1)[OF t], of z n] by auto
  have "M1(z \<mapsto> n, z := None) = M1" using z(2) by auto
  moreover have "M \<subseteq>\<^sub>m M1"
    unfolding map_le_def
  proof
    fix a assume a: "a \<in> dom M"
    then have "a \<noteq> z" using z(1) by auto
    then show "M a = M1 a" using touchesD(2)[OF t] a by (simp add: map_le_def)
  qed
  ultimately have "touches F m M (m1\<lparr>alc := al\<rparr>) M1" using f t by (auto simp: touches_def)
  then show thesis using that f(1) by simp
qed

lemma set_word_touches: "owns (alc m) M \<Longrightarrow> touches {a} m M (set_word a i v m) M"
  by (auto simp: touches_def set_word_def upd_cell_def)

lemma set_word_simps [simp]: "alc (set_word a i v m) = alc m" "mem (set_word a i v m) = (mem m)(a := (mem m a)(i := v))"
  by (auto simp: set_word_def upd_cell_def)

section \<open>Creating a process\<close>

lemma vpath_TRAMP: "vpath TRAMPOLINE_START = [255, 511, 511]" "vpath TRAPFRAME_START = [255, 511, 510]"
  by code_simp+

lemma kernel_attrs: "page_flags (attr EA_RX)" "page_flags (attr EA_RW)" "\<not> is_u (attr EA_RX)" "\<not> is_u (attr EA_RW)"
  "page_aligned TRAMPOLINE_START" "page_aligned TRAPFRAME_START"
  using page_flags_attr
  by (simp_all add: is_bit page_aligned_def consts_simps) (simp_all add: attr.simps bit_simps)

lemma kernel_map_ok:
  assumes u: "uspace r m M" and al: "page_aligned pa" "page_aligned va" and f: "page_flags f" "\<not> is_u f"
    and run: "kernel_map r va pa f m = Inr m'"
  obtains M' where "evolves r m M m' M'" "touches (tables (mem m) r) m M m' M'"
    "lookup (mem m') r = (lookup (mem m) r)(vpath va \<mapsto> Entry_new pa (f OR attr EA_V))"
    "upages (mem m') r = (upages (mem m) r)(vpath va := None)"
proof -
  have r: "map_addr r va pa f 0 m = Inr m'" using run f(2) by (simp add: kernel_map_def user_flag)
  obtain M' where M': "uspace r m' M'" "touches (tables (mem m) r) m M m' M'"
    "lookup (mem m') r = (lookup (mem m) r)(vpath va \<mapsto> Entry_new pa (f OR attr EA_V))"
    "upages (mem m') r = (upages (mem m) r)(vpath va := if is_u f then Some (f OR attr EA_V, mem m pa) else None)"
    "uframes (mem m') r \<subseteq> uframes (mem m) r \<union> (dom M' - dom M) \<union> (if is_u f then {pa} else {})"
    by (rule uspace_map[OF u al f(1) _ _ r]) (use f(2) in auto)
  have "evolves r m M m' M'"
    unfolding evolves_def using M'(1,5) f(2) touches_mono[OF M'(2), of "uframes (mem m) r"] by (auto simp: uframes_def)
  then show thesis using that M' f(2) by simp
qed

lemma map_le_Some: "M \<subseteq>\<^sub>m M' \<Longrightarrow> M x = Some n \<Longrightarrow> M' x = Some n"
  by (metis domI map_le_def)

lemma pages_for_stack: "mul_chk PAGE_SIZE 1024 = Inr 0x400000" "pages_for 0x400000 = 1024"
  by (simp_all add: consts_simps mul_chk_def pages_for_def)

lemma evolves_out:
  assumes e: "evolves r m M m' M'" and x: "M x = Some n" "x \<notin> uframes (mem m) r"
  shows "x \<notin> uframes (mem m') r" "M' x = Some n" "mem m' x = mem m x"
proof -
  have t: "touches (uframes (mem m) r) m M m' M'" and f: "uframes (mem m') r \<subseteq> uframes (mem m) r \<union> (dom M' - dom M)"
    using e by (auto simp: evolves_def)
  show "x \<notin> uframes (mem m') r" using f x by auto
  show "M' x = Some n" by (rule map_le_Some[OF touchesD(2)[OF t] x(1)])
  show "mem m' x = mem m x" using touchesD(5)[OF t _ x(2)] x(1) by (auto simp: safe_def)
qed

lemma new_not_frame:
  assumes "uspace r m M" "touches F m M m' M'" "x \<in> dom M' - dom M"
  shows "x \<notin> uframes (mem m) r"
  using uframes_safe[OF assms(1)] safe_old[OF _ assms(2)] assms(3) by blast

lemma from_exist_ok:
  assumes u: "uspace pt m M" and tf: "M tf = Some 1" "tf \<notin> uframes (mem m) pt"
    and l: "page_aligned (TRAMPOLINE_TEXT_START l)" and run: "from_exist F l pd pt tf m = Inr (m', p)"
  obtains M' where "proc_ok l m' M' p" "touches (uframes (mem m) pt) m M m' M'"
    "upages (mem m') pt = (upages (mem m) pt)(vpath TRAMPOLINE_START := None, vpath TRAPFRAME_START := None)"
    "mem m' tf = mem m tf" "uframes (mem m') pt \<subseteq> uframes (mem m) pt \<union> (dom M' - dom M)"
    "p_context p \<in> dom M' - dom M" "kstack p \<in> dom M' - dom M"
    "mem m' (p_context p) 0 = forkret_fn F" "mem m' (p_context p) 1 = kstack p + PAGE_SIZE"
    "pgtable p = pt" "trapframe p = tf" "pid p = pd" "files p = replicate 256 None" "state p = UNUSED"
    "drop_on_put_back p = False"
proof -
  obtain al ks m2 ctx m3 m4 where
    r: "sint pd \<ge> 0" "allocate (alc m) 0x400000 = Inr (al, ks)" "box_frame Context_zero (m\<lparr>alc := al\<rparr>) = Inr (m2, ctx)"
      "kernel_map pt TRAMPOLINE_START (TRAMPOLINE_TEXT_START l) (attr EA_RX) m2 = Inr m3"
      "kernel_map pt TRAPFRAME_START tf (attr EA_RW) m3 = Inr m4"
      "m' = set_word ctx 1 (ks + PAGE_SIZE) (set_word ctx 0 (forkret_fn F) m4)"
      "p = \<lparr>pgtable = pt, trapframe = tf, p_context = ctx, state = UNUSED, kstack = ks, kstack_sp = ks + 0x400000,
          pid = pd, channel = 0, drop_on_put_back = False, files = replicate 256 None\<rparr>"
    using run by (auto simp: from_exist_def rbind_eq_Inr pages_for_stack dest!: add_chk_InrD(1))
  let ?M1 = "M(ks \<mapsto> 1024)" and ?m1 = "m\<lparr>alc := al\<rparr>"
  have o: "owns (alc m) M" by (rule uspace_owns[OF u])
  have t1: "touches {} m M ?m1 ?M1" and ks: "M ks = None" using alloc_touches[OF o r(2)] by (simp_all add: pages_for_stack)
  note U1 = uspace_touches[OF u t1 Int_empty_left]
  have o1: "owns (alc ?m1) ?M1" by (rule uspace_owns[OF U1(1)])
  note B = box_frame_ok[OF o1 r(3)]
  let ?M2 = "?M1(ctx \<mapsto> 1)"
  have t2: "touches {} ?m1 ?M1 m2 ?M2" by (rule grows_touches[OF grows_box[OF o1 r(3)]])
  note U2 = uspace_touches[OF U1(1) t2 Int_empty_left]
  have ctx: "ctx \<noteq> ks" "M ctx = None" using B(1) by (auto split: if_splits)
  have t02: "touches {} m M m2 ?M2" by (rule touches_trans[OF t1 t2]) simp
  have new: "ks \<in> dom ?M2 - dom M" "ctx \<in> dom ?M2 - dom M" using ks ctx by auto
  have out: "ks \<notin> uframes (mem m2) pt" "ctx \<notin> uframes (mem m2) pt" "tf \<notin> uframes (mem m2) pt"
    using new_not_frame[OF u t02] new tf(2) by (simp_all add: U2(4))
  have tfne: "tf \<noteq> ctx" "tf \<noteq> ks" using tf(1) ks ctx by auto
  have tfal: "page_aligned tf" using fs.owned_aligned[OF o tf(1)] by (simp add: unat_mod_aligned)
  obtain M3 where M3: "evolves pt m2 ?M2 m3 M3" "touches (tables (mem m2) pt) m2 ?M2 m3 M3"
    "lookup (mem m3) pt = (lookup (mem m2) pt)(vpath TRAMPOLINE_START \<mapsto> Entry_new (TRAMPOLINE_TEXT_START l) (attr EA_RX OR attr EA_V))"
    "upages (mem m3) pt = (upages (mem m2) pt)(vpath TRAMPOLINE_START := None)"
    by (rule kernel_map_ok[OF U2(1) l kernel_attrs(5,1,3) r(4)])
  have u3: "uspace pt m3 M3" using M3(1) by (simp add: evolves_def)
  obtain M4 where M4: "evolves pt m3 M3 m4 M4" "touches (tables (mem m3) pt) m3 M3 m4 M4"
    "lookup (mem m4) pt = (lookup (mem m3) pt)(vpath TRAPFRAME_START \<mapsto> Entry_new tf (attr EA_RW OR attr EA_V))"
    "upages (mem m4) pt = (upages (mem m3) pt)(vpath TRAPFRAME_START := None)"
    by (rule kernel_map_ok[OF u3 tfal kernel_attrs(6,2,4) r(5)])
  note ev = evolves_trans[OF M3(1) M4(1)]
  have u4: "uspace pt m4 M4" using M4(1) by (simp add: evolves_def)
  have ks4: "ks \<notin> uframes (mem m4) pt" "M4 ks = Some 1024" using evolves_out[OF ev, of ks 1024] out(1) ctx by auto
  have ctx4: "ctx \<notin> uframes (mem m4) pt" "M4 ctx = Some 1" using evolves_out[OF ev, of ctx 1] out(2) by auto
  have tf4: "tf \<notin> uframes (mem m4) pt" "M4 tf = Some 1" "mem m4 tf = mem m2 tf"
    using evolves_out[OF ev, of tf 1] out(3) tf(1) tfne by auto
  have mtf: "mem m2 tf = mem m tf" using touchesD(5)[OF t02, of tf] tf(1) by (auto simp: safe_def)
  have t5: "touches {ctx} m4 M4 m' M4"
    unfolding r(6) using uspace_owns[OF u4] by (auto simp: touches_def)
  have "{ctx} \<inter> uframes (mem m4) pt = {}" using ctx4(1) by simp
  note U5 = uspace_touches[OF u4 t5 this]
  have t24: "touches (uframes (mem m) pt) m2 ?M2 m4 M4" using ev U2(4) U1(4) by (simp add: evolves_def)
  have d24: "dom ?M2 \<subseteq> dom M4" by (rule touchesD(6)[OF t24])
  have t04: "touches (uframes (mem m) pt) m M m4 M4"
    by (rule touches_trans[OF touches_mono[OF t02 empty_subsetI] t24]) blast
  have T: "touches (uframes (mem m) pt) m M m' M4"
    by (rule touches_trans[OF t04 t5]) (use new(2) d24 in auto)
  have fr: "uframes (mem m') pt \<subseteq> uframes (mem m) pt \<union> (dom M4 - dom M)"
  proof -
    have "uframes (mem m4) pt \<subseteq> uframes (mem m) pt \<union> (dom M4 - dom ?M2)" using ev U2(4) U1(4) by (simp add: evolves_def)
    moreover have "dom M \<subseteq> dom ?M2" by auto
    ultimately show ?thesis unfolding U5(4) by blast
  qed
  have ne: "vpath TRAMPOLINE_START \<noteq> vpath TRAPFRAME_START" by (simp add: vpath_TRAMP)
  have pok: "proc_ok l m' M4 p"
    unfolding proc_ok_def
    using U5(1,2,4) tf4(1,2) ctx4 ks4 tfne ctx(1) M3(3) M4(3) ne r(1) unfolding r(7) by simp
  show thesis
  proof (rule that[OF pok T _ _ fr])
    show "upages (mem m') pt = (upages (mem m) pt)(vpath TRAMPOLINE_START := None, vpath TRAPFRAME_START := None)"
      by (simp only: U5(5) M4(4) M3(4) U2(5) U1(5))
    show "mem m' tf = mem m tf" using tf4(3) mtf tfne unfolding r(6) by simp
    show "p_context p \<in> dom M4 - dom M" "kstack p \<in> dom M4 - dom M" using new d24 unfolding r(7) by auto
    show "mem m' (p_context p) 0 = forkret_fn F" "mem m' (p_context p) 1 = kstack p + PAGE_SIZE"
      unfolding r(6,7) by simp_all
  qed (simp_all add: r(7))
qed

lemma kernel_map_panics:
  assumes u: "uspace r m M" and al: "page_aligned pa" "page_aligned va" and f: "page_flags f" "\<not> is_u f"
    and run: "kernel_map r va pa f m = Inl e"
  shows "e \<in> alloc_panics"
  using map_addr_ok[OF uspace_aspace[OF u] al f(1)] run f(2) by (auto simp: kernel_map_def user_flag)

lemma from_exist_panics:
  assumes u: "uspace pt m M" and tf: "M tf = Some 1"
    and l: "page_aligned (TRAMPOLINE_TEXT_START l)" and pd: "0 \<le> sint pd" and run: "from_exist F l pd pt tf m = Inl e"
  shows "e \<in> alloc_panics"
proof -
  have o: "owns (alc m) M" by (rule uspace_owns[OF u])
  have tfal: "page_aligned tf" using fs.owned_aligned[OF o tf] by (simp add: unat_mod_aligned)
  show ?thesis
  proof (cases "allocate (alc m) 0x400000")
    case (Inl x)
    then have "x \<in> alloc_panics" using allocate_panics[OF o Inl] by simp
    then show ?thesis using run Inl pd by (simp add: from_exist_def pages_for_stack)
  next
    case (Inr y)
    obtain al ks where a: "allocate (alc m) 0x400000 = Inr (al, ks)" using Inr by (cases y) simp
    let ?m1 = "m\<lparr>alc := al\<rparr>" and ?M1 = "M(ks \<mapsto> 1024)"
    have t1: "touches {} m M ?m1 ?M1" using alloc_touches(1)[OF o a] by (simp add: pages_for_stack)
    note u1 = uspace_touches(1)[OF u t1 Int_empty_left]
    have o1: "owns (alc ?m1) ?M1" by (rule uspace_owns[OF u1])
    have "unat ks + 1024 * 4096 < 2 ^ 64" using fs.owned_aligned[OF o1, of ks 1024] by simp
    then have ch: "add_chk ks 0x400000 = Inr (ks + 0x400000)" "add_chk ks PAGE_SIZE = Inr (ks + PAGE_SIZE)"
      by (simp_all add: consts_simps)
    show ?thesis
    proof (cases "box_frame Context_zero ?m1")
      case (Inl x)
      then show ?thesis using run a pd box_frame_panics[OF o1 Inl] by (simp add: from_exist_def pages_for_stack)
    next
      case (Inr z)
      obtain m2 ctx where b: "box_frame Context_zero ?m1 = Inr (m2, ctx)" using Inr by (cases z) simp
      note u2 = uspace_touches(1)[OF u1 grows_touches[OF grows_box[OF o1 b]] Int_empty_left]
      show ?thesis
      proof (cases "kernel_map pt TRAMPOLINE_START (TRAMPOLINE_TEXT_START l) (attr EA_RX) m2")
        case (Inl x)
        then have "e = x" using run a b ch pd by (simp add: from_exist_def pages_for_stack)
        then show ?thesis using kernel_map_panics[OF u2 l kernel_attrs(5,1,3) Inl] by simp
      next
        case (Inr m3)
        obtain M3 where "evolves pt m2 (?M1(ctx \<mapsto> 1)) m3 M3" by (rule kernel_map_ok[OF u2 l kernel_attrs(5,1,3) Inr])
        then have u3: "uspace pt m3 M3" by (simp add: evolves_def)
        have "kernel_map pt TRAPFRAME_START tf (attr EA_RW) m3 = Inl e"
          using run a b ch pd Inr by (auto simp: from_exist_def pages_for_stack rbind_def split: sum.splits)
        from kernel_map_panics[OF u3 tfal kernel_attrs(6,2,4) this] show ?thesis .
      qed
    qed
  qed
qed

section \<open>Forking\<close>

lemma clone_files_ok:
  assumes run: "clone_files fs s = Inr (s', new)" and len: "length fs = 256"
  shows "new = fs" "s' x = map_option (\<lambda>(n, f). (n + count_list fs (Some x), f)) (s x)"
proof -
  let ?P = "\<lambda>i (s1, new). new = take i fs @ replicate (256 - i) None \<and>
    (\<forall>x. s1 x = map_option (\<lambda>(n, f). (n + count_list (take i fs) (Some x), f)) (s x))"
  have "?P (0 + 256) (s', new)"
  proof (rule rfor_preserves[OF run[unfolded clone_files_def]])
    show "?P 0 (s, replicate 256 None)" by (simp add: option.map_id)
    fix j x y
    assume j: "0 \<le> j" "j < 0 + 256" and P: "?P j x"
      and st: "(case x of (s, new) \<Rightarrow> rbind (arr_get fs j) (\<lambda>f. case f of
         Some x \<Rightarrow> rbind (arc_clone x s) (\<lambda>s'. rbind (arr_set new j (Some x)) (\<lambda>new'. Inr (s', new')))
       | None \<Rightarrow> rbind (arr_set new j None) (\<lambda>new'. Inr (s, new')))) = Inr y"
    obtain s1 n1 where x: "x = (s1, n1)" by (cases x)
    have n1: "n1 = take j fs @ replicate (256 - j) None" and s1: "\<And>x. s1 x = map_option (\<lambda>(n, f). (n + count_list (take j fs) (Some x), f)) (s x)"
      using P x by auto
    have t: "take (Suc j) fs = take j fs @ [fs ! j]" using j len by (simp add: take_Suc_conv_app_nth)
    have e: "256 - j = Suc (255 - j)" using j by simp
    have upd: "n1[j := v] = take j fs @ [v] @ replicate (256 - Suc j) None" for v
      using j len unfolding n1 e by (simp add: list_update_append)
    show "?P (Suc j) y"
    proof (cases "fs ! j")
      case None
      then have "y = (s1, n1[j := None])" using st x j len by (auto simp: arr_get_def arr_set_def n1 rif_def split: if_splits)
      then show ?thesis using None s1 t upd[of None] by (simp add: count_list_append)
    next
      case (Some a)
      obtain n f where a: "s1 a = Some (n, f)" and y: "y = (s1(a \<mapsto> (Suc n, f)), n1[j := Some a])"
        using st x j len Some by (auto simp: arr_get_def arr_set_def n1 arc_clone_def rif_def split: if_splits option.splits)
      have "(s1(a \<mapsto> (Suc n, f))) z = map_option (\<lambda>(n, f). (n + count_list (take (Suc j) fs) (Some z), f)) (s z)" for z
        using s1[of z] a by (cases "s z") (auto simp: t Some count_list_append)
      then show ?thesis using y upd[of "Some a"] t Some by simp
    qed
  qed
  then show "new = fs" "s' x = map_option (\<lambda>(n, f). (n + count_list fs (Some x), f)) (s x)" using len by simp_all
qed

lemma pid_index_of_nat: "i < 256 \<Longrightarrow> pid_index (of_nat i) = i"
proof -
  assume i: "i < 256"
  have "signed_take_bit 31 (int i) = int i" using i by (simp add: signed_take_bit_int_eq_self)
  then have "sint (of_nat i :: i32) = int i" using i by (simp add: signed_of_nat)
  then have "(scast (of_nat i :: i32) :: usize) = of_nat i" by (simp add: scast_eq)
  then show "pid_index (of_nat i) = i" using i by (simp add: pid_index_def unat_of_nat)
qed

lemma proc_okD:
  assumes "proc_ok l m M p"
  shows "uspace (pgtable p) m M" "M (trapframe p) = Some 1" "M (p_context p) = Some 1" "M (kstack p) = Some 1024"
    "trapframe p \<notin> uframes (mem m) (pgtable p)" "p_context p \<notin> uframes (mem m) (pgtable p)" "kstack p \<notin> uframes (mem m) (pgtable p)"
    "length (files p) = 256" "trapframe p \<noteq> p_context p"
  using assms by (auto simp: proc_ok_def)

lemma proc_ok_upages:
  assumes p: "proc_ok l m M p" and l: "page_aligned (TRAMPOLINE_TEXT_START l)"
  shows "upages (mem m) (pgtable p) (vpath TRAMPOLINE_START) = None" "upages (mem m) (pgtable p) (vpath TRAPFRAME_START) = None"
proof -
  have "page_aligned (trapframe p)"
    using fs.owned_aligned[OF uspace_owns[OF proc_okD(1)[OF p]] proc_okD(2)[OF p]] by (simp add: unat_mod_aligned)
  then show "upages (mem m) (pgtable p) (vpath TRAMPOLINE_START) = None" "upages (mem m) (pgtable p) (vpath TRAPFRAME_START) = None"
    using p Entry_new_flags(3)[OF kernel_attrs(1) l] Entry_new_flags(3)[OF kernel_attrs(2)] kernel_attrs(3,4)
    by (simp_all add: proc_ok_def upages_def)
qed

lemma proc_ok_touches:
  assumes p: "proc_ok l m M p" and t: "touches F m M m' M'" and F: "F \<inter> uframes (mem m) (pgtable p) = {}"
  shows "proc_ok l m' M' p" "upages (mem m') (pgtable p) = upages (mem m) (pgtable p)" "pframes (mem m') p = pframes (mem m) p"
    "trapframe p \<notin> F \<Longrightarrow> mem m' (trapframe p) = mem m (trapframe p)"
proof -
  note D = proc_okD[OF p] and U = uspace_touches[OF proc_okD(1)[OF p] t F]
  show "proc_ok l m' M' p"
    using p U(1,2,4) map_le_Some[OF touchesD(2)[OF t]] by (simp add: proc_ok_def)
  show "upages (mem m') (pgtable p) = upages (mem m) (pgtable p)" "pframes (mem m') p = pframes (mem m) p"
    using U(4,5) by (simp_all add: pframes_def)
  show "trapframe p \<notin> F \<Longrightarrow> mem m' (trapframe p) = mem m (trapframe p)"
    using touchesD(5)[OF t] D(2) by (auto simp: safe_def)
qed

lemma pframes_safe:
  assumes "proc_ok l m M p" "x \<in> pframes (mem m) p"
  shows "safe (base_addr (alc m)) M x"
  using uframes_safe[OF proc_okD(1)[OF assms(1)]] proc_okD(2-4)[OF assms(1)] assms(2)
  by (auto simp: pframes_def safe_def)

lemma is_NoProc: "(case s of NoProc \<Rightarrow> True | _ \<Rightarrow> False) = (s = NoProc)"
  by (cases s) auto

lemma find_available_pid_Some:
  assumes "find_available_pid ps = Some fp" "length ps = NMAXPROCS"
  obtains i where "i < NMAXPROCS" "ps ! i = NoProc" "\<forall>j<i. ps ! j \<noteq> NoProc" "fp = of_nat i"
proof -
  obtain i where i: "first_slot (\<lambda>s. s = NoProc) 0 ps = Some i" "fp = of_nat i"
    using assms(1) by (auto simp: find_available_pid_def is_NoProc)
  then show thesis using that[of i] assms(2) unfolding first_slot_Some_iff by simp
qed

definition forked :: "Process \<Rightarrow> kmem \<Rightarrow> (usize \<rightharpoonup> nat) \<Rightarrow> kmem \<Rightarrow> usize \<Rightarrow> usize \<Rightarrow> (usize \<rightharpoonup> nat) \<Rightarrow> bool" where
  "forked p m M m' pt tf M' \<longleftrightarrow> uspace pt m' M' \<and> M' tf = Some 1 \<and> tf \<notin> uframes (mem m') pt \<and> touches {} m M m' M' \<and>
     uframes (mem m') pt \<subseteq> dom M' - dom M \<and> tf \<in> dom M' - dom M \<and> mem m' tf = mem m (trapframe p) \<and>
     upages (mem m') pt = upages (mem m) (pgtable p)"

lemma forkedD:
  assumes "forked p m M m' pt tf M'"
  shows "uspace pt m' M'" "M' tf = Some 1" "tf \<notin> uframes (mem m') pt" "touches {} m M m' M'"
    "uframes (mem m') pt \<subseteq> dom M' - dom M" "tf \<in> dom M' - dom M" "mem m' tf = mem m (trapframe p)"
    "upages (mem m') pt = upages (mem m) (pgtable p)"
  using assms unfolding forked_def by blast+

lemma fork_memory_ok:
  assumes p: "proc_ok l m M p"
  shows "case fork_memory p m of Inl e \<Rightarrow> e \<in> alloc_panics
    | Inr (m', pt, tf) \<Rightarrow> \<exists>M'. forked p m M m' pt tf M'"
proof (cases "Table_clone (pgtable p) m")
  case (Inl e)
  then show ?thesis using Table_clone_ok[OF proc_okD(1)[OF p]] by (simp add: fork_memory_def)
next
  case (Inr y)
  note D = proc_okD[OF p]
  obtain m1 pt where c: "Table_clone (pgtable p) m = Inr (m1, pt)" using Inr by (cases y) simp
  obtain M1 where g1: "grows m M m1 M1" and u1: "uspace pt m1 M1" and f1: "uframes (mem m1) pt \<subseteq> dom M1 - dom M"
    and up1: "upages (mem m1) pt = upages (mem m) (pgtable p)"
    using Table_clone_ok[OF D(1)] c by auto
  note t1 = grows_touches[OF g1]
  have o1: "owns (alc m1) M1" by (rule uspace_owns[OF u1])
  show ?thesis
  proof (cases "box_frame TrapFrame_zero m1")
    case (Inl e)
    then show ?thesis using c box_frame_panics[OF o1 Inl] by (simp add: fork_memory_def)
  next
    case (Inr y)
    obtain m2 tf where b: "box_frame TrapFrame_zero m1 = Inr (m2, tf)" using Inr by (cases y) simp
    note B2 = box_frame_ok[OF o1 b]
    have t12: "touches {} m1 M1 m2 (M1(tf \<mapsto> 1))" by (rule grows_touches[OF grows_box[OF o1 b]])
    show ?thesis
    proof (cases "box_frame (mem m2 (trapframe p)) m2")
      case (Inl e)
      then show ?thesis using c b box_frame_panics[OF B2(2) Inl] by (simp add: fork_memory_def)
    next
      case (Inr y)
      obtain m3 tmp where b3: "box_frame (mem m2 (trapframe p)) m2 = Inr (m3, tmp)" using Inr by (cases y) simp
      note B3 = box_frame_ok[OF B2(2) b3]
      let ?M2 = "M1(tf \<mapsto> 1)" and ?M3 = "M1(tf \<mapsto> 1, tmp \<mapsto> 1)" and ?m3 = "m3\<lparr>mem := (mem m3)(tf := mem m3 tmp)\<rparr>"
      have t13: "touches {} m1 M1 m3 ?M3"
        by (rule touches_trans[OF t12 grows_touches[OF grows_box[OF B2(2) b3]]]) simp
      have t3: "touches {tf} m3 ?M3 ?m3 ?M3" using B3(2) by (simp add: touches_def)
      have t13': "touches {} m1 M1 ?m3 ?M3" by (rule touches_trans[OF t13 t3]) (use B2(1) in auto)
      have tmp: "M1 tmp = None" "tmp \<noteq> tf" "?M2 tmp = None" using B3(1) by (auto split: if_splits)
      obtain m4 where m4: "free_frame tmp ?m3 = Inr m4" "touches {} m1 M1 m4 ?M2" "mem m4 = mem ?m3"
        by (rule free_touches[OF t13' tmp(1,3)])
      note U4 = uspace_touches[OF u1 m4(2) Int_empty_left]
      have tf4: "tf \<notin> uframes (mem m4) pt" using f1 B2(1) U4(4) by auto
      have t04: "touches {} m M m4 ?M2" by (rule touches_trans[OF t1 m4(2)]) simp
      have dM: "dom M \<subseteq> dom M1" "dom ?M2 = insert tf (dom M1)" using touchesD(6)[OF t1] by auto
      have tfn: "tf \<in> dom ?M2 - dom M" using B2(1) dM by auto
      have "mem m2 (trapframe p) = mem m (trapframe p)"
        using touchesD(5)[OF touches_trans[OF t1 t12], of "trapframe p"] D(2) by (auto simp: safe_def)
      then have mtf: "mem m4 tf = mem m (trapframe p)" using m4(3) B3(5) tmp(2) by simp
      have fr: "uframes (mem m4) pt \<subseteq> dom ?M2 - dom M" using U4(4) f1 dM by blast
      have "fork_memory p m = Inr (m4, pt, tf)" using c b b3 m4(1) by (simp add: fork_memory_def)
      moreover have "forked p m M m4 pt tf ?M2"
        unfolding forked_def by (intro conjI U4(1) tf4 t04 fr tfn mtf) (simp_all only: fun_upd_same U4(5) up1)
      ultimately show ?thesis by (auto simp only: sum.case prod.case)
    qed
  qed
qed

lemma fork_ok:
  assumes c: "cur k = Some pb" and p: "proc_ok l (km k) M (unbox pb)" and l: "page_aligned (TRAMPOLINE_TEXT_START l)"
    and len: "length (pool k) = NMAXPROCS" and run: "fork F l k = Inr (k', r)"
  obtains i b M' where "i < NMAXPROCS" "pool k ! i = NoProc" "r = of_nat i" "pool k' = (pool k)[i := Pooling b]" "cur k' = Some pb"
    "proc_ok l (km k') M' (unbox b)" "proc_ok l (km k') M' (unbox pb)"
    "pid (unbox b) = r" "state (unbox b) = RUNNABLE" "files (unbox b) = files (unbox pb)"
    "pframes (mem (km k')) (unbox b) \<inter> pframes (mem (km k')) (unbox pb) = {}"
    "upages (mem (km k')) (pgtable (unbox b)) = upages (mem (km k)) (pgtable (unbox pb))"
    "upages (mem (km k')) (pgtable (unbox pb)) = upages (mem (km k)) (pgtable (unbox pb))"
    "mem (km k') (trapframe (unbox b)) = (mem (km k) (trapframe (unbox pb)))(10 := 0)"
    "mem (km k') (trapframe (unbox pb)) = mem (km k) (trapframe (unbox pb))"
    "\<forall>x. arcs k' x = map_option (\<lambda>(n, f). (n + count_list (files (unbox pb)) (Some x), f)) (arcs k x)"
    "touches {} (km k) M (km k') M'"
proof -
  let ?p = "unbox pb"
  obtain fp m4 pt tf m5 q s fs m6 b ps where
    r: "find_available_pid (pool k) = Some fp" "fork_memory ?p (km k) = Inr (m4, pt, tf)"
      "from_exist F l fp pt tf m4 = Inr (m5, q)" "clone_files (files ?p) (arcs k) = Inr (s, fs)"
      "box_frame Context_zero (set_tf tf (TF_regs R_a0) 0 m5) = Inr (m6, b)"
      "put_back_proc \<lparr>box_addr = b, unbox = q\<lparr>files := fs, state := RUNNABLE\<rparr>\<rparr> (pool k) = Inr ps"
      "k' = k\<lparr>km := m6, arcs := s, pool := ps\<rparr>" "r = fp"
    using run c by (auto simp: fork_def my_proc_def Let_def rbind_eq_Inr split: option.splits)
  let ?m0 = "km k" and ?tf0 = "trapframe ?p"
  note D = proc_okD[OF p]
  obtain M2 where fk: "forked ?p ?m0 M m4 pt tf M2" using fork_memory_ok[OF p] r(2) by auto
  note u4 = forkedD(1)[OF fk] and tf4 = forkedD(2,3)[OF fk] and t04 = forkedD(4)[OF fk] and f4 = forkedD(5)[OF fk]
    and tfn = forkedD(6)[OF fk] and mtf = forkedD(7)[OF fk] and up4 = forkedD(8)[OF fk]
  obtain M5 where E: "proc_ok l m5 M5 q" "touches (uframes (mem m4) pt) m4 M2 m5 M5"
    "upages (mem m5) pt = (upages (mem m4) pt)(vpath TRAMPOLINE_START := None, vpath TRAPFRAME_START := None)"
    "mem m5 tf = mem m4 tf" "uframes (mem m5) pt \<subseteq> uframes (mem m4) pt \<union> (dom M5 - dom M2)"
    "p_context q \<in> dom M5 - dom M2" "kstack q \<in> dom M5 - dom M2"
    "mem m5 (p_context q) 0 = forkret_fn F" "mem m5 (p_context q) 1 = kstack q + PAGE_SIZE"
    and q: "pgtable q = pt" "trapframe q = tf" "pid q = fp" "files q = replicate 256 None" "state q = UNUSED"
    "drop_on_put_back q = False"
    by (rule from_exist_ok[OF u4 tf4 l r(3)])
  have dM6: "dom (M5(b \<mapsto> 1)) = insert b (dom M5)" by auto
  have dM: "dom M \<subseteq> dom M2" "dom M2 \<subseteq> dom M5" using touchesD(6)[OF t04] touchesD(6)[OF E(2)] by blast+
  have t05: "touches {} ?m0 M m5 M5"
    by (rule touches_trans[OF t04 E(2)]) (use f4 in blast)
  let ?m5 = "set_tf tf (TF_regs R_a0) 0 m5"
  have o5: "owns (alc ?m5) M5" using uspace_owns[OF proc_okD(1)[OF E(1)]] by (simp add: set_tf_def)
  have t55: "touches {tf} m5 M5 ?m5 M5" using set_word_touches[OF uspace_owns[OF proc_okD(1)[OF E(1)]]] by (simp add: set_tf_def)
  note B6 = box_frame_ok[OF o5 r(5)]
  have t56: "touches {tf} m5 M5 m6 (M5(b \<mapsto> 1))"
    by (rule touches_trans[OF t55 grows_touches[OF grows_box[OF o5 r(5)]]]) simp
  have tfnew: "tf \<in> dom M5 - dom M" using tfn dM by blast
  have T: "touches {} ?m0 M m6 (M5(b \<mapsto> 1))" by (rule touches_trans[OF t05 t56]) (use tfnew in simp)
  have qF: "{tf} \<inter> uframes (mem m5) (pgtable q) = {}" using proc_okD(5)[OF E(1)] q by simp
  note Q = proc_ok_touches[OF E(1) t56 qF] and P = proc_ok_touches[OF p T Int_empty_left]
  have fs: "fs = files ?p" "\<forall>x. s x = map_option (\<lambda>(n, f). (n + count_list (files ?p) (Some x), f)) (arcs k x)"
    using clone_files_ok[OF r(4) D(8)] by simp_all
  let ?q = "q\<lparr>files := fs, state := RUNNABLE, drop_on_put_back := False\<rparr>"
  have q_ok: "proc_ok l m6 (M5(b \<mapsto> 1)) ?q" using Q(1) fs(1) D(8) by (simp add: proc_ok_def)
  have pf: "pframes (mem m6) ?q \<subseteq> dom (M5(b \<mapsto> 1)) - dom M"
  proof -
    have new: "dom M5 - dom M2 \<subseteq> dom M5 - dom M" using dM(1) by blast
    have "uframes (mem m4) pt \<subseteq> dom M5 - dom M" using f4 dM by blast
    then have a: "uframes (mem m5) pt \<subseteq> dom M5 - dom M" by (rule order.trans[OF E(5) Un_least[OF _ new]])
    have "{tf, p_context q, kstack q} \<subseteq> dom M5 - dom M"
      by (intro insert_subsetI empty_subsetI) (rule tfnew subsetD[OF new E(6)] subsetD[OF new E(7)])+
    moreover have "pframes (mem m6) ?q = uframes (mem m5) pt \<union> {tf, p_context q, kstack q}"
      using Q(3) q by (simp add: pframes_def)
    ultimately have "pframes (mem m6) ?q \<subseteq> dom M5 - dom M" using Un_least[OF a] by (simp only:)
    also have "\<dots> \<subseteq> dom (M5(b \<mapsto> 1)) - dom M" unfolding dM6 by blast
    finally show ?thesis .
  qed
  have dis: "pframes (mem m6) ?q \<inter> pframes (mem m6) ?p = {}"
  proof -
    have "x \<notin> dom (M5(b \<mapsto> 1)) - dom M" if "x \<in> pframes (mem ?m0) ?p" for x by (rule safe_old[OF pframes_safe[OF p that] T])
    then show ?thesis using pf unfolding P(3) by blast
  qed
  have up: "upages (mem m6) (pgtable ?q) = upages (mem ?m0) (pgtable ?p)"
    using Q(2) E(3) up4 proc_ok_upages[OF p l] q by (auto simp: fun_upd_idem)
  have "b \<noteq> tf" using B6(1) tfnew by auto
  then have tfc: "mem m6 (trapframe ?q) = (mem ?m0 ?tf0)(10 := 0)"
    using B6(5) E(4) mtf q by (simp add: set_tf_def)
  obtain i where i: "i < NMAXPROCS" "pool k ! i = NoProc" "fp = of_nat i" by (rule find_available_pid_Some[OF r(1) len])
  have pi: "pid_index fp = i" using i by (simp add: pid_index_of_nat consts_simps)
  have ps: "ps = (pool k)[i := Pooling \<lparr>box_addr = b, unbox = ?q\<rparr>]"
    using r(6) i len pi q by (simp add: put_back_proc_def arr_get_def arr_set_def rif_def split: if_splits)
  show thesis
    by (rule that[of i "\<lparr>box_addr = b, unbox = ?q\<rparr>" "M5(b \<mapsto> 1)"])
      (use i r(7,8) c ps q_ok P dis up tfc fs q T in simp_all)
qed

lemma clone_files_total:
  assumes "length fs = 256" "\<forall>x. Some x \<in> set fs \<longrightarrow> s x \<noteq> None"
  shows "\<exists>r. clone_files fs s = Inr r"
proof -
  have "\<exists>y. clone_files fs s = Inr y \<and> (\<lambda>(s1, new). length new = 256 \<and> (\<forall>x. Some x \<in> set fs \<longrightarrow> s1 x \<noteq> None)) y"
    unfolding clone_files_def
  proof (rule rfor_invariant[where P = "\<lambda>i (s1, new). length new = 256 \<and> (\<forall>x. Some x \<in> set fs \<longrightarrow> s1 x \<noteq> None)"])
    fix j :: nat and x :: "(usize \<rightharpoonup> nat \<times> File) \<times> usize option list" assume j: "0 \<le> j" "j < 0 + 256"
      and P: "case x of (s1, new) \<Rightarrow> length new = 256 \<and> (\<forall>x. Some x \<in> set fs \<longrightarrow> s1 x \<noteq> None)"
    obtain s1 n1 where x: "x = (s1, n1)" by (cases x)
    have "fs ! j \<in> set fs" using j assms(1) by simp
    then show "\<exists>y. (case x of (s, new) \<Rightarrow> rbind (arr_get fs j) (\<lambda>f. case f of
         Some x \<Rightarrow> rbind (arc_clone x s) (\<lambda>s'. rbind (arr_set new j (Some x)) (\<lambda>new'. Inr (s', new')))
       | None \<Rightarrow> rbind (arr_set new j None) (\<lambda>new'. Inr (s, new')))) = Inr y \<and>
       (case y of (s1, new) \<Rightarrow> length new = 256 \<and> (\<forall>x. Some x \<in> set fs \<longrightarrow> s1 x \<noteq> None))"
      using j assms(1) P x by (cases "fs ! j") (auto simp: arr_get_def arr_set_def arc_clone_def rif_def split: option.split)
  qed (use assms in simp)
  then show ?thesis by blast
qed

lemma fork_panics:
  assumes c: "cur k = Some pb" and p: "proc_ok l (km k) M (unbox pb)" and l: "page_aligned (TRAMPOLINE_TEXT_START l)"
    and len: "length (pool k) = NMAXPROCS" and fs: "\<forall>x. Some x \<in> set (files (unbox pb)) \<longrightarrow> arcs k x \<noteq> None"
    and run: "fork F l k = Inl e"
  shows "e \<in> alloc_panics \<or> (e = Panic ''pid unavailable'' \<and> NoProc \<notin> set (pool k))"
proof (cases "find_available_pid (pool k)")
  case None
  then have "e = Panic ''pid unavailable''" using run c by (simp add: fork_def my_proc_def Let_def)
  moreover have "NoProc \<notin> set (pool k)" using None by (auto simp: find_available_pid_def first_slot_None_iff is_NoProc)
  ultimately show ?thesis by blast
next
  case (Some fp)
  let ?p = "unbox pb"
  note D = proc_okD[OF p]
  obtain i where i: "i < NMAXPROCS" "pool k ! i = NoProc" "fp = of_nat i" by (rule find_available_pid_Some[OF Some len])
  have pi: "pid_index fp = i" using i by (simp add: pid_index_of_nat consts_simps)
  have "signed_take_bit 31 (int i) = int i" using i by (simp add: signed_take_bit_int_eq_self consts_simps)
  then have pos: "0 \<le> sint fp" using i by (simp add: signed_of_nat)
  show ?thesis
  proof (cases "fork_memory ?p (km k)")
    case (Inl x)
    then show ?thesis using fork_memory_ok[OF p] run c Some by (simp add: fork_def my_proc_def Let_def)
  next
    case (Inr y)
    obtain m4 pt tf where m4: "fork_memory ?p (km k) = Inr (m4, pt, tf)" using Inr by (cases y) auto
    obtain M2 where fk: "forked ?p (km k) M m4 pt tf M2" using fork_memory_ok[OF p] m4 by auto
    note u4 = forkedD(1)[OF fk] and tf4 = forkedD(2,3)[OF fk]
    show ?thesis
    proof (cases "from_exist F l fp pt tf m4")
      case (Inl x)
      then have "x = e" using run c Some m4 by (simp add: fork_def my_proc_def Let_def)
      then show ?thesis using from_exist_panics[OF u4 tf4(1) l pos Inl] by simp
    next
      case (Inr y)
      obtain m5 q where m5: "from_exist F l fp pt tf m4 = Inr (m5, q)" using Inr by (cases y) auto
      obtain M5 where E: "proc_ok l m5 M5 q" using from_exist_ok[OF u4 tf4 l m5] by metis
      have q: "pid q = fp" using m5 by (auto simp: from_exist_def rbind_eq_Inr)
      have o5: "owns (alc (set_tf tf (TF_regs R_a0) 0 m5)) M5" using uspace_owns[OF proc_okD(1)[OF E]] by (simp add: set_tf_def)
      obtain s fs' where cf: "clone_files (files ?p) (arcs k) = Inr (s, fs')" using clone_files_total[OF D(8) fs] by auto
      have "\<exists>x\<in>alloc_panics. box_frame Context_zero (set_tf tf (TF_regs R_a0) 0 m5) = Inl x \<and> e = x"
      proof (cases "box_frame Context_zero (set_tf tf (TF_regs R_a0) 0 m5)")
        case (Inl x)
        then show ?thesis using box_frame_panics[OF o5 Inl] run c Some m4 m5 cf by (simp add: fork_def my_proc_def Let_def)
      next
        case (Inr z)
        then show ?thesis using run c Some m4 m5 cf i len pi q
          by (cases z) (simp add: fork_def my_proc_def Let_def put_back_proc_def arr_get_def arr_set_def rif_def)
      qed
      then show ?thesis by blast
    qed
  qed
qed

section \<open>A process for the witnesses\<close>

lemma kernel_map_runs:
  assumes u: "uspace r m M" and n: "2 \<le> free_pages (alc m)" and al: "page_aligned pa" "page_aligned va" and f: "page_flags f" "\<not> is_u f"
  obtains m' where "kernel_map r va pa f m = Inr m'" "free_pages (alc m) \<le> free_pages (alc m') + 2"
proof -
  obtain m' where m': "map_addr r va pa f 0 m = Inr m'"
    using pt.map_law[OF uspace_aspace[OF u] reserve_two[OF n] order.refl al f(1)] by auto
  show thesis using that[of m'] m' map_addr_free[OF uspace_owns[OF u] m'] f(2) by (simp add: kernel_map_def user_flag)
qed

lemma box_runs:
  assumes o: "owns (alc m) M" and n: "0 < free_pages (alc m)"
  obtains m' z where "box_frame c m = Inr (m', z)" "free_pages (alc m) = free_pages (alc m') + 1"
proof -
  obtain m' z where b: "box_frame c m = Inr (m', z)" using box_frame_panics[OF o] n by (cases "box_frame c m") fastforce+
  then show thesis using that owns_count_upd[OF o box_frame_ok(2,1)[OF o b]] by blast
qed

definition page_of_sevens :: "nat \<Rightarrow> usize" where
  "page_of_sevens = (\<lambda>i. 7)"

lemma frames_new:
  assumes "X \<subseteq> U \<union> (A3 - A1) \<union> (A7 - A5)" "A0 \<subseteq> A1" "A1 \<subseteq> A3" "A3 \<subseteq> A5" "A5 \<subseteq> A7" "S \<subseteq> A5 - A0"
  shows "X \<union> S \<subseteq> U \<union> (A7 - A0)"
  using assms by blast

lemma example_process_at:
  assumes u0: "uspace 0x80000000 m0 M0" "upages (mem m0) 0x80000000 = Map.empty"
    and a: "allocate (alc m0) 0x400000 = Inr (al, ks)" and n0: "2100 \<le> free_pages (alc m0)"
  obtains m M p where "proc_ok example_linker m M p" "files p = replicate 256 None" "pid p = 0"
    "upages (mem m) (pgtable p) = [vpath 0x1000 \<mapsto> (attr EA_URX OR attr EA_V, page_of_sevens)]"
    "M0 \<subseteq>\<^sub>m M" "pframes (mem m) p \<subseteq> uframes (mem m0) 0x80000000 \<union> (dom M - dom M0)" "free_pages (alc m0) \<le> free_pages (alc m) + 1100"
proof -
  let ?m1 = "m0\<lparr>alc := al\<rparr>" and ?M1 = "M0(ks \<mapsto> 1024)" and ?r = "0x80000000 :: usize"
  have o: "owns (alc m0) M0" by (rule uspace_owns[OF u0(1)])
  have t1: "touches {} m0 M0 ?m1 ?M1" and ks0: "M0 ks = None" using alloc_touches[OF o a] by (simp_all add: pages_for_stack)
  note U1 = uspace_touches[OF u0(1) t1 Int_empty_left]
  have n1: "free_pages (alc m0) = free_pages (alc ?m1) + 1024"
    using owns_count_upd[OF o, of al ks 1024] uspace_owns[OF U1(1)] ks0 by simp
  obtain m2 z m3 where b: "box_frame page_of_sevens ?m1 = Inr (m2, z)" "Table_map ?r 0x1000 z (attr EA_URX) m2 = Inr m3"
    "free_pages (alc ?m1) \<le> free_pages (alc m3) + 3"
    by (rule map_new_upage_runs[OF U1(1) _ _ URX_user, of "0x1000"]) (use n1 n0 in \<open>simp_all add: page_aligned_def consts_simps\<close>)
  have "page_aligned 0x1000" by (simp add: page_aligned_def consts_simps)
  then obtain M3 where M3: "uspace ?r m3 M3" "touches (tables (mem ?m1) ?r) ?m1 ?M1 m3 M3"
    "upages (mem m3) ?r = (upages (mem ?m1) ?r)(vpath 0x1000 \<mapsto> (attr EA_URX OR attr EA_V, page_of_sevens))"
    "uframes (mem m3) ?r \<subseteq> uframes (mem ?m1) ?r \<union> (dom M3 - dom ?M1)" "maps_only ?r {vpath 0x1000} ?m1 m3"
    by (rule map_new_upage[OF U1(1) b(1,2) _ URX_user(1)])
  have ks3: "ks \<notin> uframes (mem m3) ?r" "M3 ks = Some 1024"
  proof -
    have "ks \<notin> uframes (mem ?m1) ?r" using new_not_frame[OF u0(1) t1, of ks] U1(4) ks0 by (auto simp: domIff)
    then show "ks \<notin> uframes (mem m3) ?r" using M3(4) by auto
    show "M3 ks = Some 1024" using map_le_Some[OF touchesD(2)[OF M3(2)], of ks] by simp
  qed
  have n3: "free_pages (alc m3) \<ge> 1000" using b(3) n1 n0 by simp
  obtain m4 tf where m4: "box_frame TrapFrame_zero m3 = Inr (m4, tf)" "free_pages (alc m3) = free_pages (alc m4) + 1"
    by (rule box_runs[OF uspace_owns[OF M3(1)]]) (use n3 in simp)
  note o3 = uspace_owns[OF M3(1)]
  note B4 = box_frame_ok[OF o3 m4(1)] and t4 = grows_touches[OF grows_box[OF o3 m4(1)]]
  note U4 = uspace_touches[OF M3(1) t4 Int_empty_left]
  obtain m5 ctx where m5: "box_frame Context_zero m4 = Inr (m5, ctx)" "free_pages (alc m4) = free_pages (alc m5) + 1"
    by (rule box_runs[OF B4(2)]) (use n3 m4(2) in simp)
  note B5 = box_frame_ok[OF B4(2) m5(1)] and t5 = grows_touches[OF grows_box[OF B4(2) m5(1)]]
  note U5 = uspace_touches[OF U4(1) t5 Int_empty_left]
  let ?M5 = "M3(tf \<mapsto> 1, ctx \<mapsto> 1)"
  have ne: "ctx \<noteq> tf" "ctx \<noteq> ks" "tf \<noteq> ks" using B4(1) B5(1) ks3(2) by (auto split: if_splits)
  have out: "ks \<notin> uframes (mem m5) ?r" "tf \<notin> uframes (mem m5) ?r" "ctx \<notin> uframes (mem m5) ?r"
  proof -
    have "tf \<in> dom (M3(tf \<mapsto> 1)) - dom M3" "ctx \<in> dom ?M5 - dom (M3(tf \<mapsto> 1))" using B4(1) B5(1) by (auto simp: domIff split: if_splits)
    then show "ks \<notin> uframes (mem m5) ?r" "tf \<notin> uframes (mem m5) ?r" "ctx \<notin> uframes (mem m5) ?r"
      using ks3(1) new_not_frame[OF M3(1) t4] new_not_frame[OF U4(1) t5] by (simp_all add: U5(4) U4(4))
  qed
  have tfal: "page_aligned tf" by (rule B4(3))
  have l: "page_aligned (TRAMPOLINE_TEXT_START example_linker)" by (simp add: example_linker_def page_aligned_def consts_simps)
  obtain m6 where m6: "kernel_map ?r TRAMPOLINE_START (TRAMPOLINE_TEXT_START example_linker) (attr EA_RX) m5 = Inr m6"
    "free_pages (alc m5) \<le> free_pages (alc m6) + 2"
    by (rule kernel_map_runs[OF U5(1) _ l kernel_attrs(5,1,3)]) (use n3 m4(2) m5(2) in simp)
  obtain M6 where M6: "evolves ?r m5 ?M5 m6 M6" "touches (tables (mem m5) ?r) m5 ?M5 m6 M6"
    "lookup (mem m6) ?r = (lookup (mem m5) ?r)(vpath TRAMPOLINE_START \<mapsto> Entry_new (TRAMPOLINE_TEXT_START example_linker) (attr EA_RX OR attr EA_V))"
    "upages (mem m6) ?r = (upages (mem m5) ?r)(vpath TRAMPOLINE_START := None)"
    by (rule kernel_map_ok[OF U5(1) l kernel_attrs(5,1,3) m6(1)])
  have u6: "uspace ?r m6 M6" using M6(1) by (simp add: evolves_def)
  obtain m7 where m7: "kernel_map ?r TRAPFRAME_START tf (attr EA_RW) m6 = Inr m7" "free_pages (alc m6) \<le> free_pages (alc m7) + 2"
    by (rule kernel_map_runs[OF u6 _ tfal kernel_attrs(6,2,4)]) (use n3 m4(2) m5(2) m6(2) in simp)
  obtain M7 where M7: "evolves ?r m6 M6 m7 M7" "touches (tables (mem m6) ?r) m6 M6 m7 M7"
    "lookup (mem m7) ?r = (lookup (mem m6) ?r)(vpath TRAPFRAME_START \<mapsto> Entry_new tf (attr EA_RW OR attr EA_V))"
    "upages (mem m7) ?r = (upages (mem m6) ?r)(vpath TRAPFRAME_START := None)"
    by (rule kernel_map_ok[OF u6 tfal kernel_attrs(6,2,4) m7(1)])
  note ev = evolves_trans[OF M6(1) M7(1)]
  let ?p = "\<lparr>pgtable = ?r, trapframe = tf, p_context = ctx, state = RUNNING, kstack = ks, kstack_sp = ks + 0x400000,
    pid = 0, channel = 0, drop_on_put_back = False, files = replicate 256 None\<rparr>"
  have v: "vpath 0x1000 \<noteq> vpath TRAMPOLINE_START" "vpath 0x1000 \<noteq> vpath TRAPFRAME_START" "vpath TRAMPOLINE_START \<noteq> vpath TRAPFRAME_START"
    unfolding vpath_TRAMP by code_simp+
  have "proc_ok example_linker m7 M7 ?p"
    unfolding proc_ok_def using ev evolves_out[OF ev, of ks 1024] evolves_out[OF ev, of tf 1] evolves_out[OF ev, of ctx 1]
      ne out ks3(2) M6(3) M7(3) v(3) by (auto simp: evolves_def)
  moreover have "upages (mem m7) ?r = [vpath 0x1000 \<mapsto> (attr EA_URX OR attr EA_V, page_of_sevens)]"
    using v M7(4) M6(4) M3(3) u0(2) by (auto simp: U5(5) U4(5) U1(5))
  moreover have le: "M0 \<subseteq>\<^sub>m M7"
  proof -
    note le = touchesD(2)[OF t1] touchesD(2)[OF M3(2)] touchesD(2)[OF t4] touchesD(2)[OF t5] touchesD(2)[OF M6(2)] touchesD(2)[OF M7(2)]
    show ?thesis by (rule map_le_trans[OF map_le_trans[OF map_le_trans[OF map_le_trans[OF map_le_trans[OF le(1) le(2)] le(3)] le(4)] le(5)] le(6)])
  qed
  moreover have "pframes (mem m7) ?p \<subseteq> uframes (mem m0) ?r \<union> (dom M7 - dom M0)"
  proof -
    have d: "dom M0 \<subseteq> dom ?M1" "dom ?M1 \<subseteq> dom M3" "dom M3 \<subseteq> dom ?M5" "dom ?M5 \<subseteq> dom M7"
      using touchesD(6)[OF t1] touchesD(6)[OF M3(2)] subset_trans[OF touchesD(6)[OF M6(2)] touchesD(6)[OF M7(2)]] by auto
    have "uframes (mem m7) ?r \<subseteq> uframes (mem m0) ?r \<union> (dom M3 - dom ?M1) \<union> (dom M7 - dom ?M5)"
      using ev M3(4) by (auto simp: evolves_def U5(4) U4(4) U1(4))
    moreover have "tf \<notin> dom M3" "ctx \<notin> dom M3" using B4(1) B5(1) ne(1) by (auto split: if_splits)
    then have "{tf, ctx, ks} \<subseteq> dom ?M5 - dom M0" using ks0 ks3(2) d(1,2) by auto
    ultimately have "uframes (mem m7) ?r \<union> {tf, ctx, ks} \<subseteq> uframes (mem m0) ?r \<union> (dom M7 - dom M0)"
      by (rule frames_new[OF _ d])
    then show ?thesis by (simp add: pframes_def)
  qed
  moreover have "free_pages (alc m0) \<le> free_pages (alc m7) + 1100" using n1 b(3) m4(2) m5(2) m6(2) m7(2) by simp
  ultimately show thesis using that[of m7 M7 ?p] by simp
qed

lemma example_process:
  obtains m M p where "proc_ok example_linker m M p" "files p = replicate 256 None" "pid p = 0"
    "upages (mem m) (pgtable p) = [vpath 0x1000 \<mapsto> (attr EA_URX OR attr EA_V, page_of_sevens)]"
proof -
  obtain al ks where a: "allocate (alc mem0) 0x400000 = Inr (al, ks)"
    using allocate_new_example[of "0x400000"] by (auto simp: mem0_def pages_for_stack MAX_PAGE_num)
  show thesis by (rule example_process_at[OF uspace_mem0 a]) (use that in \<open>simp_all add: free_mem0 MAX_PAGE_num\<close>)
qed

section \<open>Properties of fork\<close>

text \<open>C29: \<open>fork\<close> makes a child that is a copy: it goes into the lowest free slot of the pool, runnable, with that slot's
  number as its pid, which the parent gets as the result; the child has the parent's user pages,
  its registers except \<open>a0\<close>, which is zero, and its open files, whose reference counts grow
  accordingly; parent and child share no frame, and the parent's memory is
  unchanged. The invariant of processes holds for both. Otherwise \<open>fork\<close> panics, and only because no slot or no memory is left.
\<close>

theorem fork_copies_process:
  assumes "cur k = Some pb" "proc_ok l (km k) M (unbox pb)" "page_aligned (TRAMPOLINE_TEXT_START l)"
    and "length (pool k) = NMAXPROCS" "\<forall>x. Some x \<in> set (files (unbox pb)) \<longrightarrow> arcs k x \<noteq> None"
  shows "case fork F l k of
      Inl e \<Rightarrow> e \<in> alloc_panics \<or> (e = Panic ''pid unavailable'' \<and> NoProc \<notin> set (pool k))
    | Inr (k', r) \<Rightarrow> \<exists>i b M'. i < NMAXPROCS \<and> pool k ! i = NoProc \<and> r = of_nat i \<and> pool k' = (pool k)[i := Pooling b] \<and> cur k' = Some pb \<and>
        proc_ok l (km k') M' (unbox b) \<and> proc_ok l (km k') M' (unbox pb) \<and>
        pid (unbox b) = r \<and> state (unbox b) = RUNNABLE \<and> files (unbox b) = files (unbox pb) \<and>
        (\<forall>x. arcs k' x = map_option (\<lambda>(n, f). (n + count_list (files (unbox pb)) (Some x), f)) (arcs k x)) \<and>
        pframes (mem (km k')) (unbox b) \<inter> pframes (mem (km k')) (unbox pb) = {} \<and>
        upages (mem (km k')) (pgtable (unbox b)) = upages (mem (km k)) (pgtable (unbox pb)) \<and>
        upages (mem (km k')) (pgtable (unbox pb)) = upages (mem (km k)) (pgtable (unbox pb)) \<and>
        mem (km k') (trapframe (unbox b)) = (mem (km k) (trapframe (unbox pb)))(Register_idx R_a0 := 0) \<and>
        mem (km k') (trapframe (unbox pb)) = mem (km k) (trapframe (unbox pb))"
proof (cases "fork F l k")
  case (Inl e)
  then show ?thesis using fork_panics[OF assms Inl] by simp
next
  case (Inr y)
  obtain k' r where y: "y = (k', r)" by (cases y)
  show ?thesis
    unfolding Inr y sum.case prod.case
    by (rule fork_ok[OF assms(1-4) Inr[unfolded y]])
      (rename_tac i b M', rule_tac x = i in exI, rule_tac x = b in exI, rule_tac x = M' in exI, simp)
qed

definition example_kernel :: "kmem \<Rightarrow> Process \<Rightarrow> unit kernel" where
  "example_kernel m p = \<lparr>km = m, vs = disk_init, dev = (), arcs = Map.empty,
     pool = Scheduled # replicate 255 NoProc, cur = Some \<lparr>box_addr = 0, unbox = p\<rparr>\<rparr>"

definition example_funs :: kfuns where
  "example_funs = \<lparr>forkret_fn = 0x80002000, usertrap_fn = 0x80003000, kernelvec_fn = 0x80004000,
     uservec_fn = 0x80011000, userret_fn = 0x80011090\<rparr>"

lemma example_linker_aligned: "page_aligned (TRAMPOLINE_TEXT_START example_linker)"
  by (simp add: example_linker_def page_aligned_def consts_simps)

theorem fork_copies_process_witness:
  "\<exists>m M p. proc_ok example_linker m M p \<and>
     (case fork example_funs example_linker (example_kernel m p) of
        Inl e \<Rightarrow> e \<in> alloc_panics
      | Inr (k', r) \<Rightarrow> r \<noteq> 0 \<and> (\<exists>b. pool k' ! unat r = Pooling b \<and>
          upages (mem (km k')) (pgtable (unbox b)) (vpath 0x1000) = Some (attr EA_URX OR attr EA_V, page_of_sevens)))"
proof -
  obtain m M p where p: "proc_ok example_linker m M p" "files p = replicate 256 None" "pid p = 0"
    "upages (mem m) (pgtable p) = [vpath 0x1000 \<mapsto> (attr EA_URX OR attr EA_V, page_of_sevens)]"
    by (rule example_process)
  let ?k = "example_kernel m p"
  have h: "cur ?k = Some \<lparr>box_addr = 0, unbox = p\<rparr>" "proc_ok example_linker (km ?k) M (unbox \<lparr>box_addr = 0, unbox = p\<rparr>)"
    "length (pool ?k) = NMAXPROCS" "\<forall>x. Some x \<in> set (files (unbox \<lparr>box_addr = 0, unbox = p\<rparr>)) \<longrightarrow> arcs ?k x \<noteq> None"
    using p by (simp_all add: example_kernel_def consts_simps)
  have np: "NoProc \<in> set (pool ?k)" "pool ?k ! 0 = Scheduled" by (simp_all add: example_kernel_def)
  have up: "upages (mem (km ?k)) (pgtable p) (vpath 0x1000) = Some (attr EA_URX OR attr EA_V, page_of_sevens)"
    using p(4) by (simp add: example_kernel_def)
  note F = fork_copies_process[OF h(1,2) example_linker_aligned h(3,4), of example_funs]
  show ?thesis
  proof (intro exI conjI)
    show "proc_ok example_linker m M p" by (rule p(1))
    show "case fork example_funs example_linker ?k of Inl e \<Rightarrow> e \<in> alloc_panics
      | Inr (k', r) \<Rightarrow> r \<noteq> 0 \<and> (\<exists>b. pool k' ! unat r = Pooling b \<and>
          upages (mem (km k')) (pgtable (unbox b)) (vpath 0x1000) = Some (attr EA_URX OR attr EA_V, page_of_sevens))"
    proof (cases "fork example_funs example_linker ?k")
      case (Inl e)
      then show ?thesis using F np by auto
    next
      case (Inr y)
      obtain k' r where y: "y = (k', r)" by (cases y)
      obtain i b where i: "i < NMAXPROCS" "pool ?k ! i = NoProc" "r = of_nat i" "pool k' = (pool ?k)[i := Pooling b]"
        "upages (mem (km k')) (pgtable (unbox b)) = upages (mem (km ?k)) (pgtable p)"
        using F[unfolded Inr y sum.case prod.case] by auto
      have "i \<noteq> 0" using i(2) np(2) by (cases i) auto
      moreover have "unat r = i" using i(1,3) by (simp add: unat_of_nat consts_simps)
      ultimately show ?thesis using i h(3) up unfolding Inr y by (auto intro!: exI[of _ b])
    qed
  qed
qed

end
