(* ===== verification/Schedule.thy ===== *)
theory Schedule
  imports Process Locks
begin

text \<open>
  Scheduling, sleeping and waking on all harts: \<open>process/schedule.rs\<close>, \<open>process/context.rs\<close>, \<open>sleep\<close> and
  \<open>wakeup\<close> of \<open>process/process.rs\<close>. Each operation is a definition; the step relation interleaves
  them at the places where a lock is taken, a section under \<open>PROCS_POOL\<close> being one step (\<open>Locks\<close>
  shows that sections under a mutex are atomic).
\<close>

section \<open>Definitions\<close>

text \<open>
  A kernel context is the place where it continues; \<open>None\<close> is the zero context, whose return
  address is 0. The places of the kernel between which a hart is interleaved with the others:
  the scheduler loop (with \<open>lst_pid\<close>), a process picked but not switched to, in the middle of the
  switch, a process running (with the mutex it holds), in \<open>sleep\<close> before and after
  taking \<open>PROCS_POOL_SLEEP\<close>, back in the scheduler, back in \<open>sleep\<close>, between the two halves of
  \<open>fork\<close>, and stopped by a panic.
\<close>

datatype pc = PSched nat | PGot | PSwtch | PRun "usize option" | PSleep1 usize | PSleep2 usize | PBack
  | PWoken usize | PFork i32 | PPanic

datatype kpoint = KSched | KForkret | KYield pc | KSleep usize

type_synonym Context = "kpoint option"

record CPU =
  scheduler_context :: Context
  process :: "Process Box option"
  intr_lock :: IntrLock

definition CPU_zero :: CPU where
  "CPU_zero = \<lparr>scheduler_context = None, process = None, intr_lock = IntrLock_new\<rparr>"

abbreviation upd_proc :: "(Process \<Rightarrow> Process) \<Rightarrow> Process Box \<Rightarrow> Process Box" where
  "upd_proc f p \<equiv> p\<lparr>unbox := f (unbox p)\<rparr>"

abbreviation pidx :: "Process Box \<Rightarrow> nat" where
  "pidx p \<equiv> pid_index (pid (unbox p))"

definition runnable :: "ProcInPool \<Rightarrow> bool" where
  "runnable s = (case s of Pooling p \<Rightarrow> state (unbox p) = RUNNABLE | _ \<Rightarrow> False)"

definition find_next_runnable_proc :: "nat \<Rightarrow> ProcInPool list \<Rightarrow> ProcInPool list \<times> Process Box option" where
  "find_next_runnable_proc from_pid ps =
     (case first_slot runnable from_pid (drop from_pid ps) of
        None \<Rightarrow> (ps, None)
      | Some i \<Rightarrow> (case ps ! i of Pooling p \<Rightarrow> (ps[i := Scheduled], Some p) | _ \<Rightarrow> (ps, None)))"

text \<open>
  The scheduler loop: a process is picked and marked, the scheduler's own context is saved, and the
  process's context is loaded; when the process switches back it is put back into the pool.
\<close>

definition scheduler_pick :: "nat \<Rightarrow> CPU \<Rightarrow> ProcInPool list \<Rightarrow> (CPU \<times> ProcInPool list) option" where
  "scheduler_pick lst_pid c ps =
     (case find_next_runnable_proc lst_pid ps of
        (ps', None) \<Rightarrow> None
      | (ps', Some p) \<Rightarrow> Some (c\<lparr>process := Some (upd_proc (\<lambda>q. q\<lparr>state := RUNNING\<rparr>) p)\<rparr>, ps'))"

definition next_lst_pid :: "i32 \<Rightarrow> nat" where
  "next_lst_pid pd = (let n = pid_index pd + 1 in if NMAXPROCS \<le> n then 0 else n)"

definition scheduler_back :: "CPU \<Rightarrow> ProcInPool list \<Rightarrow> (CPU \<times> ProcInPool list \<times> nat) res" where
  "scheduler_back c ps =
     (case process c of
        None \<Rightarrow> Inl Unwrap
      | Some p \<Rightarrow> rbind (put_back_proc p ps) (\<lambda>ps'. Inr (c\<lparr>process := None\<rparr>, ps', next_lst_pid (pid (unbox p)))))"

text \<open>
  The pids that a hart's scheduler picks, turn by turn, when it finds the pool in the given states;
  \<open>None\<close> is a turn in which it finds nothing.
\<close>

primrec scheduler_turns :: "nat \<Rightarrow> ProcInPool list list \<Rightarrow> nat option list" where
  "scheduler_turns lst_pid [] = []"
| "scheduler_turns lst_pid (ps # pss) =
     (case find_next_runnable_proc lst_pid ps of
        (_, Some p) \<Rightarrow> Some (pidx p) # scheduler_turns (next_lst_pid (pid (unbox p))) pss
      | (_, None) \<Rightarrow> None # scheduler_turns 0 pss)"

text \<open>
  \<open>sched\<close> up to the switch gives the context to load; after the switch back it restores
  \<open>is_enabled_before\<close>, in the CPU on which it was called.
\<close>

definition sched :: "riscv \<Rightarrow> hart \<Rightarrow> CPU \<Rightarrow> (CPU \<times> Context) res" where
  "sched R h c =
     (case process c of
        None \<Rightarrow> Inl Unwrap
      | Some p \<Rightarrow>
          rif (state (unbox p) = RUNNING) (Panic ''process running'')
         (rif (intr_get R h) (Panic ''yield interruptable'')
         (Inr (c\<lparr>scheduler_context := None\<rparr>, scheduler_context c))))"

definition sched_return :: "bool \<Rightarrow> CPU \<Rightarrow> CPU" where
  "sched_return intena c = c\<lparr>intr_lock := (intr_lock c)\<lparr>is_enabled_before := intena\<rparr>\<rparr>"

definition set_state :: "ProcessState \<Rightarrow> CPU \<Rightarrow> CPU" where
  "set_state st c = c\<lparr>process := map_option (upd_proc (\<lambda>p. p\<lparr>state := st\<rparr>)) (process c)\<rparr>"

definition yield_cpu :: "riscv \<Rightarrow> hart \<Rightarrow> CPU \<Rightarrow> (CPU \<times> Context) res" where
  "yield_cpu R h c = (if process c = None then Inl Unwrap else sched R h (set_state RUNNABLE c))"

text \<open>The test of \<open>kerneltrap\<close> that decides whether a timer interrupt gives up the CPU.\<close>

definition timer_preempts :: "CPU \<Rightarrow> bool" where
  "timer_preempts c \<longleftrightarrow> scheduler_context c \<noteq> None \<and>
     (case process c of Some p \<Rightarrow> state (unbox p) = RUNNING | None \<Rightarrow> False)"

text \<open>
  \<open>sleep\<close>: mark the process and its slot; take \<open>PROCS_POOL_SLEEP\<close> and leave its guard in the
  process; after the switch back reset the channel.
\<close>

definition sleep_begin :: "usize \<Rightarrow> CPU \<Rightarrow> ProcInPool list \<Rightarrow> (CPU \<times> ProcInPool list) res" where
  "sleep_begin ch c ps =
     (case process c of
        None \<Rightarrow> Inl Unwrap
      | Some p \<Rightarrow>
          rbind (arr_get ps (pidx p)) (\<lambda>slot.
          rif (slot \<noteq> Scheduled) (Panic ''invalid proc pool state'')
         (rbind (arr_set ps (pidx p) BeingSlept) (\<lambda>ps'.
            Inr (c\<lparr>process := Some (upd_proc (\<lambda>q. q\<lparr>channel := ch, state := SLEEPING\<rparr>) p)\<rparr>, ps')))))"

definition sleep_guard :: "CPU \<Rightarrow> CPU" where
  "sleep_guard c = c\<lparr>process := map_option (upd_proc (\<lambda>p. p\<lparr>drop_on_put_back := True\<rparr>)) (process c)\<rparr>"

definition sleep_end :: "CPU \<Rightarrow> CPU" where
  "sleep_end c = c\<lparr>process := map_option (upd_proc (\<lambda>p. p\<lparr>channel := 0\<rparr>)) (process c)\<rparr>"

text \<open>
  \<open>wakeup\<close> from slot to slot, up to the first slot that is being slept, where it lets go of the pool;
  the number of slots it has passed is the second result.
\<close>

definition wake_slot :: "usize \<Rightarrow> ProcInPool \<Rightarrow> ProcInPool" where
  "wake_slot ch s =
     (case s of
        Pooling p \<Rightarrow> if state (unbox p) = SLEEPING \<and> channel (unbox p) = ch
                    then Pooling (upd_proc (\<lambda>q. q\<lparr>state := RUNNABLE\<rparr>) p) else s
      | _ \<Rightarrow> s)"

primrec wakeup_scan :: "usize \<Rightarrow> ProcInPool list \<Rightarrow> ProcInPool list \<times> nat" where
  "wakeup_scan ch [] = ([], 0)"
| "wakeup_scan ch (s # ss) =
     (case s of
        BeingSlept \<Rightarrow> (s # ss, 0)
      | _ \<Rightarrow> (case wakeup_scan ch ss of (ss', k) \<Rightarrow> (wake_slot ch s # ss', Suc k)))"

text \<open>\<open>exit\<close>: the end of a process.\<close>

definition exit_sched :: "riscv \<Rightarrow> hart \<Rightarrow> CPU \<Rightarrow> (CPU \<times> Context) res" where
  "exit_sched R h c =
     (case process c of
        None \<Rightarrow> Inl Unwrap
      | Some p \<Rightarrow> rif (pid (unbox p) = 0) (Panic ''init exiting'') (sched R (intr_off R h) (set_state ZOMBIE c)))"

subsection \<open>The harts together\<close>

text \<open>
  A hart in the middle of \<open>wakeup\<close>, called by its process or by an interrupt handler: scanning from a
  slot, waiting for \<open>PROCS_POOL_SLEEP\<close>, or finished.
\<close>

datatype wk = WScan usize nat | WWait usize nat | WDone usize

primrec wch :: "wk \<Rightarrow> usize" where
  "wch (WScan ch i) = ch"
| "wch (WWait ch i) = ch"
| "wch (WDone ch) = ch"

primrec widx :: "wk \<Rightarrow> nat" where
  "widx (WScan ch i) = i"
| "widx (WWait ch i) = i"
| "widx (WDone ch) = NMAXPROCS"

text \<open>
  \<open>slp\<close> is the hart that holds \<open>PROCS_POOL_SLEEP\<close>, \<open>lks\<close> the holders of the mutexes that are passed to
  \<open>sleep\<close>, \<open>cond\<close> the condition that the sleepers of a channel wait for, \<open>ctx\<close> the contexts of the
  processes by pid, \<open>forking\<close> the process whose fork has chosen a pid and not yet used it.
\<close>

record sys =
  s_pool :: "ProcInPool list"
  slp :: "nat option"
  cpus :: "nat \<Rightarrow> CPU"
  pcs :: "nat \<Rightarrow> pc"
  wks :: "nat \<Rightarrow> wk option"
  lks :: "usize \<Rightarrow> nat option"
  cond :: "usize \<Rightarrow> bool"
  ctx :: "nat \<Rightarrow> Context"
  forking :: "nat option"

definition resume :: "Context \<Rightarrow> pc" where
  "resume k = (case k of Some KForkret \<Rightarrow> PRun None | Some (KYield q) \<Rightarrow> q | Some (KSleep l) \<Rightarrow> PWoken l | _ \<Rightarrow> PPanic)"

text \<open>Where interrupts are on, or the process may call a function that wakes others.\<close>

definition calls :: "pc \<Rightarrow> bool" where
  "calls q = (case q of PSched _ \<Rightarrow> True | PGot \<Rightarrow> True | PSwtch \<Rightarrow> True | PRun _ \<Rightarrow> True | PFork _ \<Rightarrow> True | PWoken _ \<Rightarrow> True | _ \<Rightarrow> False)"

text \<open>The places in a process where a timer interrupt may come: it holds no mutex.\<close>

definition preemptible :: "pc \<Rightarrow> bool" where
  "preemptible q = (case q of PRun None \<Rightarrow> True | PFork _ \<Rightarrow> True | PWoken _ \<Rightarrow> True | _ \<Rightarrow> False)"

text \<open>
  One step of one hart. \<open>lk ch\<close> is the mutex that protects the condition of channel \<open>ch\<close>: a process goes
  to sleep holding it and only when the condition is false, and whoever makes it true holds it until
  \<open>wakeup\<close> has returned. With \<open>excl\<close> a fork begins only when no other one is between its two halves.
\<close>

inductive sched_step :: "riscv \<Rightarrow> (usize \<Rightarrow> usize) \<Rightarrow> bool \<Rightarrow> sys \<Rightarrow> sys \<Rightarrow> bool"
  for R lk excl where
  pick: "h < NCPUS \<Longrightarrow> wks s h = None \<Longrightarrow> pcs s h = PSched lst \<Longrightarrow>
    scheduler_pick lst (cpus s h) (s_pool s) = Some (c', ps') \<Longrightarrow>
    sched_step R lk excl s (s\<lparr>s_pool := ps', cpus := (cpus s)(h := c'), pcs := (pcs s)(h := PGot)\<rparr>)"
| idle: "h < NCPUS \<Longrightarrow> wks s h = None \<Longrightarrow> pcs s h = PSched lst \<Longrightarrow>
    scheduler_pick lst (cpus s h) (s_pool s) = None \<Longrightarrow>
    sched_step R lk excl s (s\<lparr>pcs := (pcs s)(h := PSched 0)\<rparr>)"
| save: "h < NCPUS \<Longrightarrow> wks s h = None \<Longrightarrow> pcs s h = PGot \<Longrightarrow>
    sched_step R lk excl s (s\<lparr>cpus := (cpus s)(h := (cpus s h)\<lparr>scheduler_context := Some KSched\<rparr>), pcs := (pcs s)(h := PSwtch)\<rparr>)"
| load: "h < NCPUS \<Longrightarrow> wks s h = None \<Longrightarrow> pcs s h = PSwtch \<Longrightarrow> process (cpus s h) = Some p \<Longrightarrow>
    sched_step R lk excl s (s\<lparr>ctx := (ctx s)(pidx p := None), pcs := (pcs s)(h := resume (ctx s (pidx p)))\<rparr>)"
| yield: "h < NCPUS \<Longrightarrow> wks s h = None \<Longrightarrow> preemptible (pcs s h) \<Longrightarrow> \<not> intr_get R hr \<Longrightarrow>
    process (cpus s h) = Some p \<Longrightarrow> yield_cpu R hr (cpus s h) = Inr (c', Some KSched) \<Longrightarrow>
    sched_step R lk excl s (s\<lparr>cpus := (cpus s)(h := c'), ctx := (ctx s)(pidx p \<mapsto> KYield (pcs s h)), pcs := (pcs s)(h := PBack)\<rparr>)"
| exits: "h < NCPUS \<Longrightarrow> wks s h = None \<Longrightarrow> pcs s h = PRun None \<Longrightarrow> process (cpus s h) = Some p \<Longrightarrow>
    exit_sched R hr (cpus s h) = Inr (c', Some KSched) \<Longrightarrow>
    sched_step R lk excl s (s\<lparr>cpus := (cpus s)(h := c'), ctx := (ctx s)(pidx p \<mapsto> KYield PPanic), pcs := (pcs s)(h := PBack)\<rparr>)"
| lock: "h < NCPUS \<Longrightarrow> wks s h = None \<Longrightarrow> pcs s h = PRun None \<Longrightarrow> lks s l = None \<Longrightarrow>
    sched_step R lk excl s (s\<lparr>lks := (lks s)(l \<mapsto> h), pcs := (pcs s)(h := PRun (Some l))\<rparr>)"
| unlock: "h < NCPUS \<Longrightarrow> wks s h = None \<Longrightarrow> pcs s h = PRun (Some l) \<Longrightarrow>
    sched_step R lk excl s (s\<lparr>lks := (lks s)(l := None), pcs := (pcs s)(h := PRun None)\<rparr>)"
| clear: "h < NCPUS \<Longrightarrow> wks s h = None \<Longrightarrow> pcs s h = PRun (Some (lk ch)) \<Longrightarrow>
    sched_step R lk excl s (s\<lparr>cond := (cond s)(ch := False)\<rparr>)"
| sleep1: "h < NCPUS \<Longrightarrow> wks s h = None \<Longrightarrow> pcs s h = PRun (Some (lk ch)) \<Longrightarrow> \<not> cond s ch \<Longrightarrow>
    sleep_begin ch (cpus s h) (s_pool s) = Inr (c', ps') \<Longrightarrow>
    sched_step R lk excl s (s\<lparr>s_pool := ps', cpus := (cpus s)(h := c'), pcs := (pcs s)(h := PSleep1 (lk ch))\<rparr>)"
| sleep1_panic: "h < NCPUS \<Longrightarrow> wks s h = None \<Longrightarrow> pcs s h = PRun (Some (lk ch)) \<Longrightarrow> \<not> cond s ch \<Longrightarrow>
    sleep_begin ch (cpus s h) (s_pool s) = Inl e \<Longrightarrow>
    sched_step R lk excl s (s\<lparr>pcs := (pcs s)(h := PPanic)\<rparr>)"
| sleep2: "h < NCPUS \<Longrightarrow> pcs s h = PSleep1 l \<Longrightarrow> slp s = None \<Longrightarrow>
    sched_step R lk excl s (s\<lparr>slp := Some h, cpus := (cpus s)(h := sleep_guard (cpus s h)), pcs := (pcs s)(h := PSleep2 l)\<rparr>)"
| sleep3: "h < NCPUS \<Longrightarrow> pcs s h = PSleep2 l \<Longrightarrow> process (cpus s h) = Some p \<Longrightarrow> \<not> intr_get R hr \<Longrightarrow>
    sched R hr (cpus s h) = Inr (c', Some KSched) \<Longrightarrow>
    sched_step R lk excl s (s\<lparr>lks := (lks s)(l := None), cpus := (cpus s)(h := c'), ctx := (ctx s)(pidx p \<mapsto> KSleep l), pcs := (pcs s)(h := PBack)\<rparr>)"
| put_back: "h < NCPUS \<Longrightarrow> pcs s h = PBack \<Longrightarrow> process (cpus s h) = Some p \<Longrightarrow> scheduler_back (cpus s h) (s_pool s) = Inr (c', ps', lst) \<Longrightarrow>
    sched_step R lk excl s (s\<lparr>s_pool := ps', slp := (if drop_on_put_back (unbox p) then None else slp s), cpus := (cpus s)(h := c'), pcs := (pcs s)(h := PSched lst)\<rparr>)"
| put_back_panic: "h < NCPUS \<Longrightarrow> pcs s h = PBack \<Longrightarrow> scheduler_back (cpus s h) (s_pool s) = Inl e \<Longrightarrow>
    sched_step R lk excl s (s\<lparr>pcs := (pcs s)(h := PPanic)\<rparr>)"
| woken: "h < NCPUS \<Longrightarrow> wks s h = None \<Longrightarrow> pcs s h = PWoken l \<Longrightarrow> lks s l = None \<Longrightarrow>
    sched_step R lk excl s (s\<lparr>lks := (lks s)(l \<mapsto> h), cpus := (cpus s)(h := sleep_end (cpus s h)), pcs := (pcs s)(h := PRun (Some l))\<rparr>)"
| fork1: "h < NCPUS \<Longrightarrow> wks s h = None \<Longrightarrow> pcs s h = PRun None \<Longrightarrow> process (cpus s h) = Some p \<Longrightarrow> \<not> (excl \<and> forking s \<noteq> None) \<Longrightarrow>
    find_available_pid (s_pool s) = Some f \<Longrightarrow>
    sched_step R lk excl s (s\<lparr>forking := Some (pidx p), pcs := (pcs s)(h := PFork f)\<rparr>)"
| fork2: "h < NCPUS \<Longrightarrow> wks s h = None \<Longrightarrow> pcs s h = PFork f \<Longrightarrow> pid (unbox q) = f \<Longrightarrow> state (unbox q) = RUNNABLE \<Longrightarrow>
    \<not> drop_on_put_back (unbox q) \<Longrightarrow> put_back_proc q (s_pool s) = Inr ps' \<Longrightarrow>
    sched_step R lk excl s (s\<lparr>forking := None, s_pool := ps', ctx := (ctx s)(pid_index f \<mapsto> KForkret), pcs := (pcs s)(h := PRun None)\<rparr>)"
| fork2_panic: "h < NCPUS \<Longrightarrow> wks s h = None \<Longrightarrow> pcs s h = PFork f \<Longrightarrow> pid (unbox q) = f \<Longrightarrow> put_back_proc q (s_pool s) = Inl e \<Longrightarrow>
    sched_step R lk excl s (s\<lparr>pcs := (pcs s)(h := PPanic)\<rparr>)"
| wake: "h < NCPUS \<Longrightarrow> wks s h = None \<Longrightarrow> calls (pcs s h) \<Longrightarrow> lks s (lk ch) = None \<Longrightarrow>
    sched_step R lk excl s (s\<lparr>lks := (lks s)(lk ch \<mapsto> h), cond := (cond s)(ch := True), wks := (wks s)(h \<mapsto> WScan ch 0)\<rparr>)"
| wake_scan: "h < NCPUS \<Longrightarrow> wks s h = Some (WScan ch i) \<Longrightarrow> wakeup_scan ch (drop i (s_pool s)) = (ss, k) \<Longrightarrow>
    sched_step R lk excl s (s\<lparr>s_pool := take i (s_pool s) @ ss,
      wks := (wks s)(h \<mapsto> (if i + k < NMAXPROCS then WWait ch (i + k) else WDone ch))\<rparr>)"
| wake_wait: "h < NCPUS \<Longrightarrow> wks s h = Some (WWait ch i) \<Longrightarrow> slp s = None \<Longrightarrow>
    sched_step R lk excl s (s\<lparr>wks := (wks s)(h \<mapsto> WScan ch i)\<rparr>)"
| wake_end: "h < NCPUS \<Longrightarrow> wks s h = Some (WDone ch) \<Longrightarrow>
    sched_step R lk excl s (s\<lparr>lks := (lks s)(lk ch := None), wks := (wks s)(h := None)\<rparr>)"

text \<open>All harts enter the scheduler; the pool holds the first process.\<close>

definition sys_init :: "Process Box \<Rightarrow> sys" where
  "sys_init p = \<lparr>s_pool = (replicate NMAXPROCS NoProc)[0 := Pooling p], slp = None, cpus = (\<lambda>h. CPU_zero),
     pcs = (\<lambda>h. PSched 0), wks = (\<lambda>h. None), lks = (\<lambda>l. None), cond = (\<lambda>ch. False), ctx = [0 \<mapsto> KForkret], forking = None\<rparr>"

definition first_process :: "Process Box \<Rightarrow> bool" where
  "first_process p \<longleftrightarrow> pid (unbox p) = 0 \<and> state (unbox p) = RUNNABLE \<and> \<not> drop_on_put_back (unbox p)"

inductive sched_reach :: "riscv \<Rightarrow> (usize \<Rightarrow> usize) \<Rightarrow> bool \<Rightarrow> sys \<Rightarrow> bool" for R lk excl where
  start: "first_process p \<Longrightarrow> sched_reach R lk excl (sys_init p)"
| step: "sched_reach R lk excl s \<Longrightarrow> sched_step R lk excl s s' \<Longrightarrow> sched_reach R lk excl s'"

text \<open>
  The invariant of a hart: which process it has, in which state, and how its slot in the pool and its
  context are marked.
\<close>

definition good_ctx :: "Context \<Rightarrow> bool" where
  "good_ctx k = (case k of Some KForkret \<Rightarrow> True | Some (KSleep _) \<Rightarrow> True | Some (KYield q) \<Rightarrow> preemptible q | _ \<Rightarrow> False)"

definition ctx_ok :: "(usize \<Rightarrow> usize) \<Rightarrow> Process \<Rightarrow> Context \<Rightarrow> bool" where
  "ctx_ok lk p k = (case state p of SLEEPING \<Rightarrow> k = Some (KSleep (lk (channel p))) | ZOMBIE \<Rightarrow> k = Some (KYield PPanic) | _ \<Rightarrow> good_ctx k)"

definition on_hart :: "(usize \<Rightarrow> usize) \<Rightarrow> pc \<Rightarrow> Context \<Rightarrow> Process \<Rightarrow> Context \<Rightarrow> ProcInPool \<Rightarrow> bool" where
  "on_hart lk q sc p k slot =
     (let st = state p; d = drop_on_put_back p in
      case q of
        PGot \<Rightarrow> sc = None \<and> st = RUNNING \<and> slot = Scheduled \<and> \<not> d \<and> good_ctx k
      | PSwtch \<Rightarrow> sc = Some KSched \<and> st = RUNNING \<and> slot = Scheduled \<and> \<not> d \<and> good_ctx k
      | PRun _ \<Rightarrow> sc = Some KSched \<and> st = RUNNING \<and> slot = Scheduled \<and> \<not> d \<and> k = None
      | PWoken _ \<Rightarrow> sc = Some KSched \<and> st = RUNNING \<and> slot = Scheduled \<and> \<not> d \<and> k = None
      | PFork _ \<Rightarrow> sc = Some KSched \<and> st = RUNNING \<and> slot = Scheduled \<and> \<not> d \<and> k = None
      | PSleep1 l \<Rightarrow> sc = Some KSched \<and> st = SLEEPING \<and> slot = BeingSlept \<and> \<not> d \<and> k = None \<and> l = lk (channel p)
      | PSleep2 l \<Rightarrow> sc = Some KSched \<and> st = SLEEPING \<and> slot = BeingSlept \<and> d \<and> k = None \<and> l = lk (channel p)
      | PBack \<Rightarrow> sc = None \<and> st \<noteq> RUNNING \<and> (if st = SLEEPING then slot = BeingSlept \<and> d else slot = Scheduled \<and> \<not> d) \<and> ctx_ok lk p k
      | _ \<Rightarrow> False)"

definition hart_inv :: "(usize \<Rightarrow> usize) \<Rightarrow> ProcInPool list \<Rightarrow> (nat \<Rightarrow> Context) \<Rightarrow> bool \<Rightarrow> pc \<Rightarrow> CPU \<Rightarrow> bool" where
  "hart_inv lk ps cx b q c =
     (case process c of
        None \<Rightarrow> scheduler_context c = None \<and> (\<exists>lst. q = PSched lst) \<and> \<not> b
      | Some p \<Rightarrow> pidx p < NMAXPROCS \<and> b = drop_on_put_back (unbox p) \<and>
          on_hart lk q (scheduler_context c) (unbox p) (cx (pidx p)) (ps ! pidx p))"

definition slot_inv :: "(usize \<Rightarrow> usize) \<Rightarrow> (nat \<Rightarrow> CPU) \<Rightarrow> Context \<Rightarrow> nat \<Rightarrow> ProcInPool \<Rightarrow> bool" where
  "slot_inv lk cs k i slot =
     (case slot of
        NoProc \<Rightarrow> k = None
      | Pooling p \<Rightarrow> pidx p = i \<and> state (unbox p) \<noteq> RUNNING \<and> \<not> drop_on_put_back (unbox p) \<and> ctx_ok lk (unbox p) k
      | _ \<Rightarrow> \<exists>h p. process (cs h) = Some p \<and> pidx p = i)"

definition pinv :: "(usize \<Rightarrow> usize) \<Rightarrow> sys \<Rightarrow> bool" where
  "pinv lk s \<longleftrightarrow> length (s_pool s) = NMAXPROCS \<and>
     (\<forall>h. hart_inv lk (s_pool s) (ctx s) (slp s = Some h) (pcs s h) (cpus s h)) \<and>
     (\<forall>h h' p p'. process (cpus s h) = Some p \<longrightarrow> process (cpus s h') = Some p' \<longrightarrow> pidx p = pidx p' \<longrightarrow> h = h') \<and>
     (\<forall>i<NMAXPROCS. slot_inv lk (cpus s) (ctx s i) i (s_pool s ! i))"

text \<open>At most one fork is between its halves, and its pid is still free.\<close>

definition fork_inv :: "sys \<Rightarrow> bool" where
  "fork_inv s \<longleftrightarrow>
     (\<forall>h f p. pcs s h = PFork f \<longrightarrow> process (cpus s h) = Some p \<longrightarrow>
        forking s = Some (pidx p) \<and> pid_index f < NMAXPROCS \<and> s_pool s ! pid_index f = NoProc) \<and>
     (\<forall>i f. ctx s i = Some (KYield (PFork f)) \<longrightarrow>
        forking s = Some i \<and> pid_index f < NMAXPROCS \<and> s_pool s ! pid_index f = NoProc)"

primrec pc_lock :: "pc \<Rightarrow> usize option" where
  "pc_lock (PSched lst) = None" | "pc_lock PGot = None" | "pc_lock PSwtch = None" | "pc_lock (PRun l) = l"
| "pc_lock (PSleep1 l) = Some l" | "pc_lock (PSleep2 l) = Some l" | "pc_lock PBack = None" | "pc_lock (PWoken l) = None"
| "pc_lock (PFork f) = None" | "pc_lock PPanic = None"

definition mutex_inv :: "(usize \<Rightarrow> usize) \<Rightarrow> sys \<Rightarrow> bool" where
  "mutex_inv lk s \<longleftrightarrow> (\<forall>h. wks s h \<noteq> None \<longrightarrow> calls (pcs s h)) \<and>
     (\<forall>l h. pc_lock (pcs s h) = Some l \<or> (\<exists>w. wks s h = Some w \<and> lk (wch w) = l) \<longrightarrow> lks s l = Some h) \<and>
     (\<forall>h w. wks s h = Some w \<longrightarrow> pc_lock (pcs s h) \<noteq> Some (lk (wch w)))"

text \<open>A process sleeps on a channel, in the pool or on its way there.\<close>

definition asleep :: "sys \<Rightarrow> usize \<Rightarrow> nat \<Rightarrow> bool" where
  "asleep s ch i \<longleftrightarrow>
     (\<exists>p. i < length (s_pool s) \<and> s_pool s ! i = Pooling p \<and> state (unbox p) = SLEEPING \<and> channel (unbox p) = ch) \<or>
     (\<exists>h p. process (cpus s h) = Some p \<and> pidx p = i \<and> state (unbox p) = SLEEPING \<and> channel (unbox p) = ch)"

text \<open>Who sleeps on a channel whose condition holds is still ahead of a hart that is waking that channel.\<close>

definition wake_inv :: "sys \<Rightarrow> bool" where
  "wake_inv s \<longleftrightarrow>
     (\<forall>ch i. cond s ch \<longrightarrow> asleep s ch i \<longrightarrow> (\<exists>h w. wks s h = Some w \<and> wch w = ch \<and> widx w \<le> i)) \<and>
     (\<forall>h w. wks s h = Some w \<longrightarrow> cond s (wch w) \<and> widx w \<le> NMAXPROCS)"

section \<open>One hart changes its own process\<close>

lemma pinvD:
  assumes "pinv lk s"
  shows "length (s_pool s) = NMAXPROCS"
    "hart_inv lk (s_pool s) (ctx s) (slp s = Some h) (pcs s h) (cpus s h)"
    "process (cpus s h) = Some p \<Longrightarrow> process (cpus s h') = Some p' \<Longrightarrow> pidx p = pidx p' \<Longrightarrow> h = h'"
    "i < NMAXPROCS \<Longrightarrow> slot_inv lk (cpus s) (ctx s i) i (s_pool s ! i)"
  using assms unfolding pinv_def by blast+

lemma pinv_hart:
  assumes "pinv lk s" "process (cpus s h) = Some p"
  shows "pidx p < NMAXPROCS" "(slp s = Some h) = drop_on_put_back (unbox p)"
    "on_hart lk (pcs s h) (scheduler_context (cpus s h)) (unbox p) (ctx s (pidx p)) (s_pool s ! pidx p)"
  using pinvD(2)[OF assms(1), of h] assms(2) by (simp_all add: hart_inv_def)

lemma pinv_sched:
  assumes "pinv lk s" "process (cpus s h) = None"
  shows "scheduler_context (cpus s h) = None" "\<exists>lst. pcs s h = PSched lst" "slp s \<noteq> Some h"
  using pinvD(2)[OF assms(1), of h] assms(2) by (simp_all add: hart_inv_def)

lemma pinv_proc:
  assumes "pinv lk s" "\<And>lst. pcs s h \<noteq> PSched lst"
  obtains p where "process (cpus s h) = Some p"
  using pinv_sched(2)[OF assms(1), of h] assms(2) by (cases "process (cpus s h)") auto

lemma pinv_local:
  assumes I: "pinv lk s" and i: "i < NMAXPROCS"
    and old: "\<And>p. process (cpus s h) = Some p \<Longrightarrow> pidx p = i"
    and own: "\<And>h' p. h' \<noteq> h \<Longrightarrow> process (cpus s h') = Some p \<Longrightarrow> pidx p \<noteq> i"
    and new: "\<And>p. process c' = Some p \<Longrightarrow> pidx p = i"
    and s': "cpus s' = (cpus s)(h := c')" "pcs s' = (pcs s)(h := q')"
      "length (s_pool s') = length (s_pool s)" "\<And>j. j \<noteq> i \<Longrightarrow> s_pool s' ! j = s_pool s ! j" "\<And>j. j \<noteq> i \<Longrightarrow> ctx s' j = ctx s j"
      "\<And>h'. h' \<noteq> h \<Longrightarrow> (slp s' = Some h') = (slp s = Some h')"
    and hi: "hart_inv lk (s_pool s') (ctx s') (slp s' = Some h) q' c'"
    and si: "slot_inv lk (cpus s') (ctx s' i) i (s_pool s' ! i)"
  shows "pinv lk s'"
  unfolding pinv_def
proof (intro conjI allI impI)
  show "length (s_pool s') = NMAXPROCS" using pinvD(1)[OF I] s'(3) by simp
  show "hart_inv lk (s_pool s') (ctx s') (slp s' = Some h1) (pcs s' h1) (cpus s' h1)" for h1
  proof (cases "h1 = h")
    case True
    then show ?thesis using hi s' by simp
  next
    case False
    have e: "cpus s' h1 = cpus s h1" "pcs s' h1 = pcs s h1" "(slp s' = Some h1) = (slp s = Some h1)"
      using False s'(1,2) s'(6)[OF False] by simp_all
    show ?thesis
    proof (cases "process (cpus s h1)")
      case None
      then show ?thesis using pinvD(2)[OF I, of h1] e by (simp add: hart_inv_def)
    next
      case (Some p)
      note j = own[OF False Some]
      show ?thesis using pinvD(2)[OF I, of h1] Some e s'(4,5)[OF j] by (simp add: hart_inv_def)
    qed
  qed
  show "h1 = h2" if p: "process (cpus s' h1) = Some p1" "process (cpus s' h2) = Some p2" "pidx p1 = pidx p2" for h1 h2 p1 p2
  proof -
    consider "h1 \<noteq> h" "h2 \<noteq> h" | "h1 = h" "h2 = h" | "h1 = h" "h2 \<noteq> h" | "h1 \<noteq> h" "h2 = h" by blast
    then show ?thesis
    proof cases
      case 1
      then show ?thesis using pinvD(3)[OF I, of h1 p1 h2 p2] p s'(1) by simp
    next
      case 3
      then show ?thesis using new[of p1] own[of h2 p2] p s'(1) by simp
    next
      case 4
      then show ?thesis using new[of p2] own[of h1 p1] p s'(1) by simp
    qed simp
  qed
  show "slot_inv lk (cpus s') (ctx s' j) j (s_pool s' ! j)" if j: "j < NMAXPROCS" for j
  proof (cases "j = i")
    case True
    then show ?thesis using si by simp
  next
    case False
    have "\<exists>h1 p. process (cpus s' h1) = Some p \<and> pidx p = j" if "process (cpus s h1) = Some p" "pidx p = j" for h1 p
    proof -
      have "h1 \<noteq> h" using old[of p] that False by auto
      then show ?thesis using that s'(1) by (intro exI[of _ h1] exI[of _ p]) simp
    qed
    note ex = this
    show ?thesis
    proof (cases "s_pool s ! j = Scheduled \<or> s_pool s ! j = BeingSlept")
      case True
      then obtain h1 p where "process (cpus s h1) = Some p" "pidx p = j" using pinvD(4)[OF I j] by (auto simp: slot_inv_def)
      then show ?thesis using True ex s'(4)[OF False] by (auto simp: slot_inv_def)
    next
      case F: False
      then show ?thesis using pinvD(4)[OF I j] s'(4,5)[OF False] by (cases "s_pool s ! j") (simp_all add: slot_inv_def)
    qed
  qed
qed

text \<open>Most steps: the hart has a process before and after.\<close>

lemma pinv_same:
  assumes I: "pinv lk s" and p: "process (cpus s h) = Some p" "process c' = Some p'" "pidx p' = pidx p"
    and s': "cpus s' = (cpus s)(h := c')" "pcs s' = (pcs s)(h := q')"
      "length (s_pool s') = length (s_pool s)" "\<And>j. j \<noteq> pidx p \<Longrightarrow> s_pool s' ! j = s_pool s ! j" "\<And>j. j \<noteq> pidx p \<Longrightarrow> ctx s' j = ctx s j"
      "\<And>h'. h' \<noteq> h \<Longrightarrow> (slp s' = Some h') = (slp s = Some h')"
    and d: "(slp s' = Some h) = drop_on_put_back (unbox p')"
    and o: "on_hart lk q' (scheduler_context c') (unbox p') (ctx s' (pidx p)) (s_pool s' ! pidx p)"
  shows "pinv lk s'"
proof -
  have j: "pidx p < NMAXPROCS" by (rule pinv_hart(1)[OF I p(1)])
  have sl: "s_pool s' ! pidx p = Scheduled \<or> s_pool s' ! pidx p = BeingSlept"
    using o by (cases q') (auto simp: on_hart_def Let_def split: if_splits)
  have hi: "hart_inv lk (s_pool s') (ctx s') (slp s' = Some h) q' c'" using p d o j by (simp add: hart_inv_def)
  have si: "slot_inv lk (cpus s') (ctx s' (pidx p)) (pidx p) (s_pool s' ! pidx p)"
    using p(2,3) s'(1) sl by (auto simp: slot_inv_def)
  have own: "pidx p2 \<noteq> pidx p" if "h2 \<noteq> h" "process (cpus s h2) = Some p2" for h2 p2
    using pinvD(3)[OF I p(1) that(2)] that(1) by auto
  show ?thesis
    by (rule pinv_local[OF I j _ own _ s'(1,2,3,4,5,6) hi si]) (use p in simp_all)
qed

lemma first_slot_offset: "first_slot p i xs = map_option (\<lambda>k. i + k) (first_slot p 0 xs)"
  by (induction i) (simp_all add: first_slot_shift option.map_comp comp_def option.map_id0[unfolded id_def])

lemma find_next_Some:
  assumes "find_next_runnable_proc lst ps = (ps', Some p)"
  obtains i where "lst \<le> i" "i < length ps" "ps ! i = Pooling p" "state (unbox p) = RUNNABLE" "ps' = ps[i := Scheduled]"
    "\<forall>j. lst \<le> j \<longrightarrow> j < i \<longrightarrow> \<not> runnable (ps ! j)"
proof -
  obtain k where k: "first_slot runnable 0 (drop lst ps) = Some k" "ps ! (lst + k) = Pooling p" "ps' = ps[lst + k := Scheduled]"
    using assms unfolding find_next_runnable_proc_def first_slot_offset[of runnable lst]
    by (auto split: option.splits ProcInPool.splits)
  have k': "k < length ps - lst" "runnable (drop lst ps ! k)" "\<forall>j<k. \<not> runnable (drop lst ps ! j)"
    using k(1) unfolding first_slot_Some_iff by auto
  have "\<not> runnable (ps ! j)" if "lst \<le> j" "j < lst + k" for j
    using k'(3)[rule_format, of "j - lst"] that k'(1) by (auto simp: nth_drop)
  then show thesis using that[of "lst + k"] k k' by (auto simp: runnable_def)
qed

lemma find_next_None:
  assumes "find_next_runnable_proc lst ps = (ps', None)"
  shows "\<forall>j. lst \<le> j \<longrightarrow> j < length ps \<longrightarrow> \<not> runnable (ps ! j)"
proof -
  have *: "first_slot runnable 0 (drop lst ps) = None"
  proof (rule ccontr)
    assume "first_slot runnable 0 (drop lst ps) \<noteq> None"
    then obtain k where k: "first_slot runnable 0 (drop lst ps) = Some k" by blast
    then have "runnable (ps ! (lst + k))" unfolding first_slot_Some_iff by (auto simp: nth_drop)
    then show False
      using assms k unfolding find_next_runnable_proc_def first_slot_offset[of runnable lst]
      by (auto simp: runnable_def split: ProcInPool.splits)
  qed
  show ?thesis
  proof (intro allI impI)
    fix j assume "lst \<le> j" "j < length ps"
    then have "ps ! j = drop lst ps ! (j - lst)" "j - lst < length (drop lst ps)" by simp_all
    then show "\<not> runnable (ps ! j)" using * unfolding first_slot_None_iff by (metis nth_mem)
  qed
qed

section \<open>Every step keeps the invariant\<close>

lemma pick_pinv:
  assumes I: "pinv lk s" and pc: "pcs s h = PSched lst" and r: "scheduler_pick lst (cpus s h) (s_pool s) = Some (c', ps')"
  shows "pinv lk (s\<lparr>s_pool := ps', cpus := (cpus s)(h := c'), pcs := (pcs s)(h := PGot)\<rparr>)"
proof -
  have no: "process (cpus s h) = None"
    using pinv_hart(3)[OF I, of h] pc by (cases "process (cpus s h)") (auto simp: on_hart_def)
  obtain p where p: "find_next_runnable_proc lst (s_pool s) = (ps', Some p)" "c' = (cpus s h)\<lparr>process := Some (upd_proc (\<lambda>q. q\<lparr>state := RUNNING\<rparr>) p)\<rparr>"
    using r by (auto simp: scheduler_pick_def split: prod.splits option.splits)
  obtain i where i: "i < length (s_pool s)" "s_pool s ! i = Pooling p" "state (unbox p) = RUNNABLE" "ps' = (s_pool s)[i := Scheduled]"
    using p(1) by (rule find_next_Some)
  have i': "i < NMAXPROCS" using i(1) pinvD(1)[OF I] by simp
  have sl: "pidx p = i" "\<not> drop_on_put_back (unbox p)" "good_ctx (ctx s i)"
    using pinvD(4)[OF I i'] i(2,3) by (simp_all add: slot_inv_def ctx_ok_def)
  have own: "pidx p2 \<noteq> i" if "process (cpus s h2) = Some p2" for h2 p2
    using pinv_hart(3)[OF I that] i(2) by (cases "pcs s h2") (auto simp: on_hart_def Let_def split: if_splits)
  show ?thesis
    by (rule pinv_local[OF I i', where h = h and c' = c' and q' = PGot])
      (use no p(2) own sl i i' pinv_sched[OF I no] in \<open>simp_all add: hart_inv_def slot_inv_def on_hart_def Let_def\<close>, blast)
qed

lemma sched_Inr:
  assumes "sched R h c = Inr (c', k)"
  obtains p where "process c = Some p" "state (unbox p) \<noteq> RUNNING" "\<not> intr_get R h" "c' = c\<lparr>scheduler_context := None\<rparr>" "k = scheduler_context c"
  using assms by (auto simp: sched_def rif_def split: option.splits if_splits)

lemma put_back_Inr:
  assumes "put_back_proc p ps = Inr ps'"
  shows "pidx p < length ps" "\<forall>q. ps ! pidx p \<noteq> Pooling q"
    "ps' = ps[pidx p := Pooling (upd_proc (\<lambda>q. q\<lparr>drop_on_put_back := False\<rparr>) p)]"
  using assms by (auto simp: put_back_proc_def arr_get_def arr_set_def rif_def Let_def split: ProcInPool.splits if_splits)

lemma load_pinv:
  assumes I: "pinv lk s" and pc: "pcs s h = PSwtch" and p: "process (cpus s h) = Some p"
  shows "pinv lk (s\<lparr>ctx := (ctx s)(pidx p := None), pcs := (pcs s)(h := resume (ctx s (pidx p)))\<rparr>)"
proof -
  have o: "scheduler_context (cpus s h) = Some KSched" "state (unbox p) = RUNNING" "s_pool s ! pidx p = Scheduled"
      "\<not> drop_on_put_back (unbox p)" "good_ctx (ctx s (pidx p))"
    using pinv_hart(3)[OF I p] pc by (simp_all add: on_hart_def Let_def)
  have "on_hart lk (resume (ctx s (pidx p))) (Some KSched) (unbox p) None Scheduled"
    using o by (auto simp: on_hart_def good_ctx_def resume_def preemptible_def Let_def split: option.splits kpoint.splits pc.splits)
  then show ?thesis
    by (intro pinv_same[OF I p p refl]) (use o pinv_hart(2)[OF I p] in simp_all)
qed

lemma to_back_pinv:
  assumes I: "pinv lk s" and p: "process (cpus s h) = Some p" "process c' = Some p'" "pidx p' = pidx p"
    and c: "scheduler_context c' = None" "state (unbox p') \<noteq> RUNNING" "drop_on_put_back (unbox p') = drop_on_put_back (unbox p)"
    and sl: "if state (unbox p') = SLEEPING then s_pool s ! pidx p = BeingSlept \<and> drop_on_put_back (unbox p)
      else s_pool s ! pidx p = Scheduled \<and> \<not> drop_on_put_back (unbox p)"
    and k: "ctx_ok lk (unbox p') k"
    and s': "s_pool s' = s_pool s" "slp s' = slp s" "cpus s' = (cpus s)(h := c')" "ctx s' = (ctx s)(pidx p := k)" "pcs s' = (pcs s)(h := PBack)"
  shows "pinv lk s'"
  by (rule pinv_same[OF I p s'(3,5)])
    (use s' c sl k pinv_hart(2)[OF I p(1)] in \<open>simp_all add: on_hart_def Let_def\<close>)

lemma put_back_pinv:
  assumes I: "pinv lk s" and pc: "pcs s h = PBack" and p: "process (cpus s h) = Some p"
    and r: "scheduler_back (cpus s h) (s_pool s) = Inr (c', ps', lst)"
  shows "pinv lk (s\<lparr>s_pool := ps', slp := (if drop_on_put_back (unbox p) then None else slp s), cpus := (cpus s)(h := c'), pcs := (pcs s)(h := PSched lst)\<rparr>)"
proof -
  note h = pinv_hart[OF I p]
  have pb: "put_back_proc p (s_pool s) = Inr ps'" "c' = (cpus s h)\<lparr>process := None\<rparr>"
    using r p by (auto simp: scheduler_back_def)
  note q = put_back_Inr[OF pb(1)]
  have o: "scheduler_context (cpus s h) = None" "state (unbox p) \<noteq> RUNNING" "ctx_ok lk (unbox p) (ctx s (pidx p))"
    using h(3) pc by (simp_all add: on_hart_def Let_def)
  have own: "pidx p2 \<noteq> pidx p" if "h2 \<noteq> h" "process (cpus s h2) = Some p2" for h2 p2
    using pinvD(3)[OF I p that(2)] that(1) by auto
  show ?thesis
    by (rule pinv_local[OF I h(1) _ own, where h = h and c' = c' and q' = "PSched lst"])
      (use p pb(2) q o h(2) in \<open>auto simp: hart_inv_def slot_inv_def ctx_ok_def split: ProcessState.splits\<close>)
qed

lemma put_back_runs:
  assumes I: "pinv lk s" and pc: "pcs s h = PBack"
  shows "scheduler_back (cpus s h) (s_pool s) \<noteq> Inl e"
proof -
  obtain p where p: "process (cpus s h) = Some p" by (rule pinv_proc[OF I, of h]) (use pc in auto)
  have "s_pool s ! pidx p = BeingSlept \<or> s_pool s ! pidx p = Scheduled"
    using pinv_hart(3)[OF I p] pc by (auto simp: on_hart_def Let_def split: if_splits)
  then show ?thesis using p pinv_hart(1)[OF I p] pinvD(1)[OF I]
    by (auto simp: scheduler_back_def put_back_proc_def arr_get_def arr_set_def rif_def Let_def)
qed

lemma sleep_begin_cases:
  assumes I: "pinv lk s" and pc: "pcs s h = PRun l"
  obtains p where "process (cpus s h) = Some p"
    "sleep_begin ch (cpus s h) (s_pool s) =
       Inr ((cpus s h)\<lparr>process := Some (upd_proc (\<lambda>q. q\<lparr>channel := ch, state := SLEEPING\<rparr>) p)\<rparr>, (s_pool s)[pidx p := BeingSlept])"
proof -
  obtain p where p: "process (cpus s h) = Some p" by (rule pinv_proc[OF I, of h]) (use pc in auto)
  have "s_pool s ! pidx p = Scheduled" using pinv_hart(3)[OF I p] pc by (simp add: on_hart_def Let_def)
  then show thesis using that[of p] p pinv_hart(1)[OF I p] pinvD(1)[OF I]
    by (simp add: sleep_begin_def arr_get_def arr_set_def rif_def)
qed

lemma fork2_pinv:
  assumes I: "pinv lk s" and F: "fork_inv s" and pc: "pcs s h = PFork f" and q: "pid (unbox q) = f" "state (unbox q) = RUNNABLE"
    "\<not> drop_on_put_back (unbox q)" and r: "put_back_proc q (s_pool s) = Inr ps'"
  shows "pinv lk (s\<lparr>forking := None, s_pool := ps', ctx := (ctx s)(pid_index f \<mapsto> KForkret), pcs := (pcs s)(h := PRun None)\<rparr>)"
proof -
  obtain p where p: "process (cpus s h) = Some p" by (rule pinv_proc[OF I, of h]) (use pc in auto)
  have f: "pid_index f < NMAXPROCS" "s_pool s ! pid_index f = NoProc" using F pc p unfolding fork_inv_def by blast+
  note r' = put_back_Inr[OF r]
  have own: "pidx p2 \<noteq> pid_index f" if "process (cpus s h2) = Some p2" for h2 p2
    using pinv_hart(3)[OF I that] f(2) by (cases "pcs s h2") (auto simp: on_hart_def Let_def split: if_splits)
  have up: "on_hart lk (PRun None) sc pr k slot" if "on_hart lk (PFork f) sc pr k slot" for sc pr k slot
    using that by (simp add: on_hart_def Let_def)
  let ?s = "s\<lparr>forking := None, s_pool := ps', ctx := (ctx s)(pid_index f \<mapsto> KForkret), pcs := (pcs s)(h := PRun None)\<rparr>"
  have hi: "hart_inv lk (s_pool ?s) (ctx ?s) (slp ?s = Some h1) (pcs ?s h1) (cpus ?s h1)" for h1
  proof (cases "process (cpus s h1)")
    case None
    then show ?thesis using pinvD(2)[OF I, of h1] p by (auto simp: hart_inv_def)
  next
    case (Some p1)
    then show ?thesis using pinv_hart[OF I Some] own[OF Some] r'(3) q(1) pc up by (auto simp: hart_inv_def)
  qed
  have si: "slot_inv lk (cpus ?s) (ctx ?s i) i (s_pool ?s ! i)" if i: "i < NMAXPROCS" for i
    using pinvD(4)[OF I i] pinvD(1)[OF I] f r'(3) q by (cases "i = pid_index f") (simp_all add: slot_inv_def ctx_ok_def good_ctx_def)
  show ?thesis
    unfolding pinv_def using hi si pinvD(1)[OF I] r'(3) pinvD(3)[OF I] by simp
qed

lemma wakeup_scan_spec:
  assumes "wakeup_scan ch ss = (ss', k)"
  shows "length ss' = length ss \<and> k \<le> length ss \<and> (\<forall>j<length ss. ss' ! j = (if j < k then wake_slot ch (ss ! j) else ss ! j)) \<and>
    (\<forall>j<k. ss ! j \<noteq> BeingSlept) \<and> (k < length ss \<longrightarrow> ss ! k = BeingSlept)"
  using assms
proof (induction ss arbitrary: ss' k)
  case Nil
  then show ?case by simp
next
  case (Cons x ss)
  show ?case
  proof (cases "x = BeingSlept")
    case True
    then show ?thesis using Cons.prems by auto
  next
    case False
    obtain ss1 k1 where r: "wakeup_scan ch ss = (ss1, k1)" by fastforce
    have e: "ss' = wake_slot ch x # ss1" "k = Suc k1" using Cons.prems False r by (auto split: ProcInPool.splits)
    note IH = Cons.IH[OF r]
    have "(x # ss) ! j \<noteq> BeingSlept" if "j < k" for j using that IH False e(2) by (cases j) auto
    moreover have "ss' ! j = (if j < k then wake_slot ch ((x # ss) ! j) else (x # ss) ! j)" if "j < length (x # ss)" for j
      using that IH e by (cases j) auto
    ultimately show ?thesis using IH e by simp
  qed
qed

lemma scan_pool:
  assumes r: "wakeup_scan ch (drop i ps) = (ss, k)" and i: "i \<le> length ps"
  shows "length (take i ps @ ss) = length ps" "i + k \<le> length ps"
    "j < length ps \<Longrightarrow> (take i ps @ ss) ! j = (if i \<le> j \<and> j < i + k then wake_slot ch (ps ! j) else ps ! j)"
    "i \<le> j \<Longrightarrow> j < i + k \<Longrightarrow> ps ! j \<noteq> BeingSlept" "i + k < length ps \<Longrightarrow> ps ! (i + k) = BeingSlept"
proof -
  note S = wakeup_scan_spec[OF r]
  show "length (take i ps @ ss) = length ps" "i + k \<le> length ps" using S i by auto
  show "(take i ps @ ss) ! j = (if i \<le> j \<and> j < i + k then wake_slot ch (ps ! j) else ps ! j)" if "j < length ps"
  proof (cases "j < i")
    case True
    then show ?thesis using that by (simp add: nth_append)
  next
    case False
    then have "ss ! (j - i) = (if j - i < k then wake_slot ch (drop i ps ! (j - i)) else drop i ps ! (j - i))"
      using S that by simp
    then show ?thesis using False that by (auto simp: nth_append)
  qed
  show "ps ! j \<noteq> BeingSlept" if "i \<le> j" "j < i + k"
  proof -
    have "drop i ps ! (j - i) \<noteq> BeingSlept" using S that by auto
    then show ?thesis using that i by (simp add: nth_drop)
  qed
  show "i + k < length ps \<Longrightarrow> ps ! (i + k) = BeingSlept" using S by (simp add: nth_drop)
qed

lemma wake_slot_simps [simp]:
  "wake_slot ch NoProc = NoProc" "wake_slot ch Scheduled = Scheduled" "wake_slot ch BeingSlept = BeingSlept"
  "wake_slot ch s = NoProc \<longleftrightarrow> s = NoProc" "wake_slot ch s = Scheduled \<longleftrightarrow> s = Scheduled" "wake_slot ch s = BeingSlept \<longleftrightarrow> s = BeingSlept"
  by (auto simp: wake_slot_def split: ProcInPool.splits)

lemma wake_pinv:
  assumes I: "pinv lk s" and ps: "length ps' = length (s_pool s)" "\<And>j. j < length (s_pool s) \<Longrightarrow> ps' ! j = s_pool s ! j \<or> ps' ! j = wake_slot ch (s_pool s ! j)"
  shows "pinv lk (s\<lparr>s_pool := ps', wks := w\<rparr>)"
proof -
  have len: "length (s_pool s) = NMAXPROCS" by (rule pinvD(1)[OF I])
  have hi: "hart_inv lk ps' (ctx s) (slp s = Some h) (pcs s h) (cpus s h)" for h
  proof (cases "process (cpus s h)")
    case None
    then show ?thesis using pinvD(2)[OF I, of h] by (simp add: hart_inv_def)
  next
    case (Some p)
    have "s_pool s ! pidx p = Scheduled \<or> s_pool s ! pidx p = BeingSlept"
      using pinv_hart(3)[OF I Some] by (cases "pcs s h") (auto simp: on_hart_def Let_def split: if_splits)
    then have "ps' ! pidx p = s_pool s ! pidx p" using ps(2)[of "pidx p"] pinv_hart(1)[OF I Some] len by auto
    then show ?thesis using pinv_hart[OF I Some] Some by (simp add: hart_inv_def)
  qed
  have "slot_inv lk (cpus s) (ctx s i) i (wake_slot ch sl)" if "slot_inv lk (cpus s) (ctx s i) i sl" for i sl
    using that by (cases sl) (auto simp: slot_inv_def wake_slot_def ctx_ok_def good_ctx_def)
  then have si: "slot_inv lk (cpus s) (ctx s i) i (ps' ! i)" if "i < NMAXPROCS" for i
    using pinvD(4)[OF I that] ps(2)[of i] that len by auto
  show ?thesis
    unfolding pinv_def using hi si len ps(1) pinvD(3)[OF I] by simp
qed

lemma pinv_pcs:
  assumes I: "pinv lk s" and p: "process (cpus s h) = Some p"
    and o: "on_hart lk q' (scheduler_context (cpus s h)) (unbox p) (ctx s (pidx p)) (s_pool s ! pidx p)"
    and s': "cpus s' = cpus s" "pcs s' = (pcs s)(h := q')" "s_pool s' = s_pool s" "ctx s' = ctx s" "slp s' = slp s"
  shows "pinv lk s'"
  by (rule pinv_same[OF I p p refl, where q' = q']) (use s' o pinv_hart(2)[OF I p] in simp_all)

lemma pinv_cong:
  assumes "pinv lk s" "cpus s' = cpus s" "pcs s' = pcs s" "s_pool s' = s_pool s" "ctx s' = ctx s" "slp s' = slp s"
  shows "pinv lk s'"
  using assms unfolding pinv_def by simp

lemma sched_step_pinv:
  assumes st: "sched_step R lk True s s'" and I: "pinv lk s" and F: "fork_inv s" and W: "wake_inv s"
  shows "pinv lk s'"
  using st
proof cases
  case (pick h lst c' ps')
  show ?thesis unfolding pick(1) by (rule pick_pinv[OF I pick(4,5)])
next
  case (idle h lst)
  have no: "process (cpus s h) = None"
    using pinv_hart(3)[OF I, of h] idle(4) by (cases "process (cpus s h)") (auto simp: on_hart_def)
  have "hart_inv lk (s_pool s) (ctx s) (slp s = Some h1) (((pcs s)(h := PSched 0)) h1) (cpus s h1)" for h1
    using pinvD(2)[OF I, of h1] no by (auto simp: hart_inv_def)
  then show ?thesis unfolding idle(1) pinv_def using pinvD(1,3,4)[OF I] by simp
next
  case (save h)
  obtain p where p: "process (cpus s h) = Some p" by (rule pinv_proc[OF I, of h]) (use save in auto)
  show ?thesis unfolding save(1)
    by (rule pinv_same[OF I p, where p' = p and q' = PSwtch and c' = "(cpus s h)\<lparr>scheduler_context := Some KSched\<rparr>"])
      (use p pinv_hart[OF I p] save(4) in \<open>simp_all add: on_hart_def Let_def\<close>)
next
  case (load h p)
  show ?thesis unfolding load(1) by (rule load_pinv[OF I load(4,5)])
next
  case (yield h hr p c')
  have o: "scheduler_context (cpus s h) = Some KSched" "s_pool s ! pidx p = Scheduled" "\<not> drop_on_put_back (unbox p)"
    using pinv_hart(3)[OF I yield(6)] yield(4) by (auto simp: on_hart_def Let_def preemptible_def split: pc.splits option.splits)
  have c: "c' = (cpus s h)\<lparr>process := Some (upd_proc (\<lambda>q. q\<lparr>state := RUNNABLE\<rparr>) p), scheduler_context := None\<rparr>"
    using yield(6,7) by (auto simp: yield_cpu_def sched_def set_state_def rif_def split: if_splits)
  show ?thesis unfolding yield(1)
    by (rule to_back_pinv[OF I yield(6), where c' = c' and p' = "upd_proc (\<lambda>q. q\<lparr>state := RUNNABLE\<rparr>) p" and k = "Some (KYield (pcs s h))"])
      (use c o yield(4) in \<open>simp_all add: ctx_ok_def good_ctx_def\<close>)
next
  case (exits h p hr c')
  have o: "scheduler_context (cpus s h) = Some KSched" "s_pool s ! pidx p = Scheduled" "\<not> drop_on_put_back (unbox p)"
    using pinv_hart(3)[OF I exits(5)] exits(4) by (simp_all add: on_hart_def Let_def)
  have c: "c' = (cpus s h)\<lparr>process := Some (upd_proc (\<lambda>q. q\<lparr>state := ZOMBIE\<rparr>) p), scheduler_context := None\<rparr>"
    using exits(5,6) by (auto simp: exit_sched_def sched_def set_state_def rif_def split: if_splits)
  show ?thesis unfolding exits(1)
    by (rule to_back_pinv[OF I exits(5), where c' = c' and p' = "upd_proc (\<lambda>q. q\<lparr>state := ZOMBIE\<rparr>) p" and k = "Some (KYield PPanic)"])
      (use c o in \<open>simp_all add: ctx_ok_def\<close>)
next
  case (lock h l)
  obtain p where p: "process (cpus s h) = Some p" by (rule pinv_proc[OF I, of h]) (use lock in auto)
  show ?thesis unfolding lock(1)
    by (rule pinv_pcs[OF I p, where q' = "PRun (Some l)"]) (use pinv_hart(3)[OF I p] lock(4) in \<open>simp_all add: on_hart_def\<close>)
next
  case (unlock h l)
  obtain p where p: "process (cpus s h) = Some p" by (rule pinv_proc[OF I, of h]) (use unlock in auto)
  show ?thesis unfolding unlock(1)
    by (rule pinv_pcs[OF I p, where q' = "PRun None"]) (use pinv_hart(3)[OF I p] unlock(4) in \<open>simp_all add: on_hart_def\<close>)
next
  case (clear h ch)
  show ?thesis unfolding clear(1) by (rule pinv_cong[OF I]) simp_all
next
  case (sleep1 h ch c' ps')
  obtain p where p: "process (cpus s h) = Some p" "sleep_begin ch (cpus s h) (s_pool s) =
      Inr ((cpus s h)\<lparr>process := Some (upd_proc (\<lambda>q. q\<lparr>channel := ch, state := SLEEPING\<rparr>) p)\<rparr>, (s_pool s)[pidx p := BeingSlept])"
    by (rule sleep_begin_cases[OF I sleep1(4)])
  show ?thesis unfolding sleep1(1)
    by (rule pinv_same[OF I p(1), where q' = "PSleep1 (lk ch)" and c' = c' and p' = "upd_proc (\<lambda>q. q\<lparr>channel := ch, state := SLEEPING\<rparr>) p"])
      (use p(2) sleep1(4,6) pinv_hart[OF I p(1)] pinvD(1)[OF I] in \<open>auto simp: on_hart_def Let_def\<close>)
next
  case (sleep1_panic h ch e)
  show ?thesis by (rule sleep_begin_cases[OF I sleep1_panic(4), of ch]) (use sleep1_panic(6) in simp)
next
  case (sleep2 h l)
  obtain p where p: "process (cpus s h) = Some p" by (rule pinv_proc[OF I, of h]) (use sleep2 in auto)
  show ?thesis unfolding sleep2(1)
    by (rule pinv_same[OF I p, where q' = "PSleep2 l" and c' = "sleep_guard (cpus s h)" and p' = "upd_proc (\<lambda>q. q\<lparr>drop_on_put_back := True\<rparr>) p"])
      (use sleep2(3,4) pinv_hart[OF I p] p in \<open>auto simp: on_hart_def Let_def sleep_guard_def\<close>)
next
  case (sleep3 h l p hr c')
  have o: "s_pool s ! pidx p = BeingSlept" "drop_on_put_back (unbox p)" "state (unbox p) = SLEEPING" "l = lk (channel (unbox p))"
    using pinv_hart(3)[OF I sleep3(4)] sleep3(3) by (simp_all add: on_hart_def Let_def)
  have c: "c' = (cpus s h)\<lparr>scheduler_context := None\<rparr>" using sleep3(6) by (rule sched_Inr)
  show ?thesis unfolding sleep3(1)
    by (rule to_back_pinv[OF I sleep3(4), where c' = c' and p' = p and k = "Some (KSleep l)"])
      (use c o sleep3(4) in \<open>simp_all add: ctx_ok_def\<close>)
next
  case (put_back h p c' ps' lst)
  show ?thesis unfolding put_back(1) by (rule put_back_pinv[OF I put_back(3,4,5)])
next
  case (put_back_panic h e)
  then show ?thesis using put_back_runs[OF I] by blast
next
  case (woken h l)
  obtain p where p: "process (cpus s h) = Some p" by (rule pinv_proc[OF I, of h]) (use woken in auto)
  show ?thesis unfolding woken(1)
    by (rule pinv_same[OF I p, where q' = "PRun (Some l)" and c' = "sleep_end (cpus s h)" and p' = "upd_proc (\<lambda>q. q\<lparr>channel := 0\<rparr>) p"])
      (use woken(4) pinv_hart[OF I p] p in \<open>auto simp: on_hart_def Let_def sleep_end_def\<close>)
next
  case (fork1 h p f)
  show ?thesis unfolding fork1(1)
    by (rule pinv_pcs[OF I fork1(5), where q' = "PFork f"]) (use pinv_hart(3)[OF I fork1(5)] fork1(4) in \<open>simp_all add: on_hart_def\<close>)
next
  case (fork2 h f q ps')
  show ?thesis unfolding fork2(1) by (rule fork2_pinv[OF I F fork2(4-8)])
next
  case (fork2_panic h f q e)
  obtain p where p: "process (cpus s h) = Some p" by (rule pinv_proc[OF I, of h]) (use fork2_panic in auto)
  then have "pid_index f < NMAXPROCS" "s_pool s ! pid_index f = NoProc" using F fork2_panic(4) unfolding fork_inv_def by blast+
  then show ?thesis using fork2_panic(5,6) pinvD(1)[OF I]
    by (auto simp: put_back_proc_def arr_get_def arr_set_def rif_def Let_def)
next
  case (wake h ch)
  show ?thesis unfolding wake(1) by (rule pinv_cong[OF I]) simp_all
next
  case (wake_scan h ch i ss k)
  have "i \<le> length (s_pool s)" using W wake_scan(3) pinvD(1)[OF I] unfolding wake_inv_def by fastforce
  note S = scan_pool[OF wake_scan(4) this]
  show ?thesis unfolding wake_scan(1)
    by (rule wake_pinv[OF I S(1), where ch = ch]) (use S(3) in auto)
next
  case (wake_wait h ch i)
  show ?thesis unfolding wake_wait(1) by (rule pinv_cong[OF I]) simp_all
next
  case (wake_end h ch)
  show ?thesis unfolding wake_end(1) by (rule pinv_cong[OF I]) simp_all
qed

lemma fork_invD:
  assumes "fork_inv s"
  shows "pcs s h = PFork f \<Longrightarrow> process (cpus s h) = Some p \<Longrightarrow>
      forking s = Some (pidx p) \<and> pid_index f < NMAXPROCS \<and> s_pool s ! pid_index f = NoProc"
    "ctx s i = Some (KYield (PFork f)) \<Longrightarrow> forking s = Some i \<and> pid_index f < NMAXPROCS \<and> s_pool s ! pid_index f = NoProc"
  using assms unfolding fork_inv_def by blast+

lemma fork_frame:
  assumes F: "fork_inv s" and fk: "forking s' = forking s"
    and pc: "\<And>h f p. pcs s' h = PFork f \<Longrightarrow> process (cpus s' h) = Some p \<Longrightarrow>
      pcs s h = PFork f \<and> process (cpus s h) = Some p \<or> ctx s (pidx p) = Some (KYield (PFork f))"
    and cx: "\<And>i f. ctx s' i = Some (KYield (PFork f)) \<Longrightarrow>
      ctx s i = Some (KYield (PFork f)) \<or> (\<exists>h p. pcs s h = PFork f \<and> process (cpus s h) = Some p \<and> pidx p = i)"
    and np: "\<And>j. j < NMAXPROCS \<Longrightarrow> s_pool s ! j = NoProc \<Longrightarrow> s_pool s' ! j = NoProc"
  shows "fork_inv s'"
  unfolding fork_inv_def
proof (intro conjI allI impI)
  fix h f p assume a: "pcs s' h = PFork f" "process (cpus s' h) = Some p"
  have "forking s = Some (pidx p) \<and> pid_index f < NMAXPROCS \<and> s_pool s ! pid_index f = NoProc"
    using pc[OF a] fork_invD[OF F] by blast
  then show "forking s' = Some (pidx p)" "pid_index f < NMAXPROCS" "s_pool s' ! pid_index f = NoProc" using fk np by simp_all
next
  fix i f assume a: "ctx s' i = Some (KYield (PFork f))"
  have "forking s = Some i \<and> pid_index f < NMAXPROCS \<and> s_pool s ! pid_index f = NoProc"
    using cx[OF a] fork_invD[OF F] by blast
  then show "forking s' = Some i" "pid_index f < NMAXPROCS" "s_pool s' ! pid_index f = NoProc" using fk np by simp_all
qed

lemma on_hart_slot: "on_hart lk q sc p k slot \<Longrightarrow> slot = Scheduled \<or> slot = BeingSlept"
  by (cases q) (auto simp: on_hart_def Let_def split: if_splits)

lemma pinv_slot: "pinv lk s \<Longrightarrow> process (cpus s h) = Some p \<Longrightarrow> s_pool s ! pidx p \<noteq> NoProc"
  using on_hart_slot[OF pinv_hart(3)] by fastforce

lemma upd_NoProc: "ps ! i \<noteq> NoProc \<Longrightarrow> ps ! j = NoProc \<Longrightarrow> ps[i := x] ! j = NoProc"
  by (cases "i = j") auto

lemma sched_step_fork:
  assumes st: "sched_step R lk True s s'" and I: "pinv lk s" and F: "fork_inv s" and W: "wake_inv s"
  shows "fork_inv s'"
  using st
proof cases
  case (pick h lst c' ps')
  obtain p where p: "find_next_runnable_proc lst (s_pool s) = (ps', Some p)"
    using pick(5) by (auto simp: scheduler_pick_def split: prod.splits option.splits)
  obtain i where i: "i < length (s_pool s)" "s_pool s ! i = Pooling p" "ps' = (s_pool s)[i := Scheduled]"
    using p by (rule find_next_Some)
  show ?thesis unfolding pick(1) by (rule fork_frame[OF F]) (use i in \<open>auto simp: upd_NoProc split: if_splits\<close>)
next
  case (load h p)
  have "good_ctx (ctx s (pidx p))" using pinv_hart(3)[OF I load(5)] load(4) by (simp add: on_hart_def Let_def)
  then have "ctx s (pidx p) = Some (KYield (PFork f))" if "resume (ctx s (pidx p)) = PFork f" for f
    using that by (auto simp: resume_def good_ctx_def split: option.splits kpoint.splits)
  then show ?thesis unfolding load(1) by (intro fork_frame[OF F]) (use load(5) in \<open>auto split: if_splits\<close>)
next
  case (yield h hr p c')
  have "process c' \<noteq> None" using yield(6,7) by (auto simp: yield_cpu_def sched_def set_state_def rif_def split: if_splits)
  then show ?thesis unfolding yield(1) by (intro fork_frame[OF F]) (use yield(6) in \<open>auto split: if_splits\<close>)
next
  case (put_back h p c' ps' lst)
  then have "put_back_proc p (s_pool s) = Inr ps'" by (auto simp: scheduler_back_def)
  note q = put_back_Inr[OF this]
  show ?thesis unfolding put_back(1)
    by (rule fork_frame[OF F]) (use q pinv_slot[OF I put_back(4)] in \<open>auto simp: upd_NoProc split: if_splits\<close>)
next
  case (sleep1 h ch c' ps')
  obtain p where p: "process (cpus s h) = Some p" "sleep_begin ch (cpus s h) (s_pool s) =
      Inr ((cpus s h)\<lparr>process := Some (upd_proc (\<lambda>q. q\<lparr>channel := ch, state := SLEEPING\<rparr>) p)\<rparr>, (s_pool s)[pidx p := BeingSlept])"
    by (rule sleep_begin_cases[OF I sleep1(4)])
  show ?thesis unfolding sleep1(1)
    by (rule fork_frame[OF F]) (use p(2) sleep1(6) pinv_slot[OF I p(1)] in \<open>auto simp: upd_NoProc split: if_splits\<close>)
next
  case (fork1 h p f)
  obtain i where i: "i < NMAXPROCS" "s_pool s ! i = NoProc" "f = of_nat i" by (rule find_available_pid_Some[OF fork1(7) pinvD(1)[OF I]])
  then have "pid_index f = i" by (simp add: pid_index_of_nat consts_simps)
  moreover have "pcs s h1 \<noteq> PFork f1" "ctx s i1 \<noteq> Some (KYield (PFork f1))" for h1 f1 i1
    using F fork1(6) pinv_proc[OF I, of h1] unfolding fork_inv_def by fastforce+
  ultimately show ?thesis unfolding fork1(1) fork_inv_def using fork1(5) i by auto
next
  case (fork2 h f q ps')
  obtain p where p: "process (cpus s h) = Some p" by (rule pinv_proc[OF I, of h]) (use fork2 in auto)
  have fk: "forking s = Some (pidx p)" using F fork2(4) p unfolding fork_inv_def by blast
  have "ctx s (pidx p) = None" using pinv_hart(3)[OF I p] fork2(4) by (simp add: on_hart_def Let_def)
  then have "ctx s i1 \<noteq> Some (KYield (PFork f1))" for i1 f1 using F fk unfolding fork_inv_def by fastforce
  moreover have "pcs s h1 \<noteq> PFork f1" if "h1 \<noteq> h" for h1 f1
  proof
    assume a: "pcs s h1 = PFork f1"
    obtain p1 where p1: "process (cpus s h1) = Some p1" by (rule pinv_proc[OF I, of h1]) (use a in auto)
    then have "pidx p1 = pidx p" using F a fk unfolding fork_inv_def by fastforce
    then show False using pinvD(3)[OF I p1 p] that by simp
  qed
  ultimately show ?thesis unfolding fork2(1) fork_inv_def by auto
next
  case (wake_scan h ch i ss k)
  have "i \<le> length (s_pool s)" using W wake_scan(3) pinvD(1)[OF I] unfolding wake_inv_def by fastforce
  note S = scan_pool[OF wake_scan(4) this]
  show ?thesis unfolding wake_scan(1)
    by (rule fork_frame[OF F]) (use S(3) pinvD(1)[OF I] in auto)
qed (auto intro!: fork_frame[OF F] split: if_splits)

lemma mutex_invD:
  assumes "mutex_inv lk s"
  shows "wks s h \<noteq> None \<Longrightarrow> calls (pcs s h)" "pc_lock (pcs s h) = Some l \<Longrightarrow> lks s l = Some h"
    "wks s h = Some w \<Longrightarrow> lks s (lk (wch w)) = Some h" "wks s h = Some w \<Longrightarrow> pc_lock (pcs s h) \<noteq> Some (lk (wch w))"
  using assms unfolding mutex_inv_def by blast+

lemma mutex_invI:
  assumes "\<And>h. wks s h \<noteq> None \<Longrightarrow> calls (pcs s h)" "\<And>h l. pc_lock (pcs s h) = Some l \<Longrightarrow> lks s l = Some h"
    "\<And>h w. wks s h = Some w \<Longrightarrow> lks s (lk (wch w)) = Some h \<and> pc_lock (pcs s h) \<noteq> Some (lk (wch w))"
  shows "mutex_inv lk s"
  unfolding mutex_inv_def using assms by blast

lemma lock_same:
  assumes L: "mutex_inv lk s" and s': "lks s' = lks s" "wks s' = wks s" "pcs s' = (pcs s)(h := q')"
    and q: "pc_lock q' = pc_lock (pcs s h)" "wks s h = None \<or> calls q'"
  shows "mutex_inv lk s'"
proof (rule mutex_invI)
  show "calls (pcs s' h1)" if "wks s' h1 \<noteq> None" for h1 using that mutex_invD(1)[OF L, of h1] s' q(2) by auto
  show "lks s' l = Some h1" if "pc_lock (pcs s' h1) = Some l" for h1 l
    using that mutex_invD(2)[OF L, of h1 l] s' q(1) by (cases "h1 = h") auto
  show "lks s' (lk (wch w)) = Some h1 \<and> pc_lock (pcs s' h1) \<noteq> Some (lk (wch w))" if "wks s' h1 = Some w" for h1 w
    using that mutex_invD(3,4)[OF L, of h1 w] s' q(1) by (cases "h1 = h") auto
qed

lemma lock_acquire:
  assumes L: "mutex_inv lk s" and l: "lks s l = None" and s': "lks s' = (lks s)(l \<mapsto> h)" "wks s' = wks s" "pcs s' = (pcs s)(h := q')"
    and q: "pc_lock q' = Some l" "wks s h = None"
  shows "mutex_inv lk s'"
proof (rule mutex_invI)
  show "calls (pcs s' h1)" if "wks s' h1 \<noteq> None" for h1 using that mutex_invD(1)[OF L, of h1] s' q(2) by auto
  show "lks s' l1 = Some h1" if "pc_lock (pcs s' h1) = Some l1" for h1 l1
    using that mutex_invD(2)[OF L, of h1 l1] s' q(1) l by (cases "h1 = h") auto
  show "lks s' (lk (wch w)) = Some h1 \<and> pc_lock (pcs s' h1) \<noteq> Some (lk (wch w))" if "wks s' h1 = Some w" for h1 w
    using that mutex_invD(3,4)[OF L, of h1 w] s' q l by (cases "h1 = h") auto
qed

lemma lock_release:
  assumes L: "mutex_inv lk s" and l: "pc_lock (pcs s h) = Some l" and s': "lks s' = (lks s)(l := None)" "wks s' = wks s" "pcs s' = (pcs s)(h := q')"
    and q: "pc_lock q' = None" "wks s h = None"
  shows "mutex_inv lk s'"
proof (rule mutex_invI)
  have lh: "lks s l = Some h" by (rule mutex_invD(2)[OF L l])
  show "calls (pcs s' h1)" if "wks s' h1 \<noteq> None" for h1 using that mutex_invD(1)[OF L, of h1] s' q(2) by auto
  show "lks s' l1 = Some h1" if "pc_lock (pcs s' h1) = Some l1" for h1 l1
    using that mutex_invD(2)[OF L, of h1 l1] s' q(1) lh by (cases "h1 = h") auto
  show "lks s' (lk (wch w)) = Some h1 \<and> pc_lock (pcs s' h1) \<noteq> Some (lk (wch w))" if "wks s' h1 = Some w" for h1 w
    using that mutex_invD(3,4)[OF L, of h1 w] s' q lh by (cases "h1 = h") auto
qed

lemma no_wks: "mutex_inv lk s \<Longrightarrow> \<not> calls (pcs s h) \<Longrightarrow> wks s h = None"
  using mutex_invD(1)[of lk s h] by blast

lemma sched_step_lock:
  assumes st: "sched_step R lk True s s'" and I: "pinv lk s" and F: "fork_inv s" and L: "mutex_inv lk s"
  shows "mutex_inv lk s'"
  using st
proof cases
  case (load h p)
  have "good_ctx (ctx s (pidx p))" using pinv_hart(3)[OF I load(5)] load(4) by (simp add: on_hart_def Let_def)
  then have "pc_lock (resume (ctx s (pidx p))) = None"
    by (auto simp: resume_def good_ctx_def preemptible_def split: option.splits kpoint.splits pc.splits)
  then show ?thesis unfolding load(1) by (intro lock_same[OF L, where h = h and q' = "resume (ctx s (pidx p))"]) (use load in simp_all)
next
  case (yield h hr p c')
  then have "pc_lock (pcs s h) = None" by (auto simp: preemptible_def split: pc.splits option.splits)
  then show ?thesis unfolding yield(1) by (intro lock_same[OF L, where h = h and q' = PBack]) (use yield(3) in simp_all)
next
  case (lock h l)
  show ?thesis unfolding lock(1) by (rule lock_acquire[OF L lock(5), where h = h and q' = "PRun (Some l)"]) (use lock(3) in simp_all)
next
  case (unlock h l)
  show ?thesis unfolding unlock(1) by (rule lock_release[OF L, where h = h and l = l and q' = "PRun None"]) (use unlock(3,4) in simp_all)
next
  case (sleep1 h ch c' ps')
  show ?thesis unfolding sleep1(1) by (rule lock_same[OF L, where h = h and q' = "PSleep1 (lk ch)"]) (use sleep1(3,4) in simp_all)
next
  case (sleep1_panic h ch e)
  show ?thesis by (rule sleep_begin_cases[OF I sleep1_panic(4), of ch]) (use sleep1_panic(6) in simp)
next
  case (sleep2 h l)
  have "wks s h = None" by (rule no_wks[OF L]) (use sleep2(3) in \<open>simp add: calls_def\<close>)
  then show ?thesis unfolding sleep2(1) by (intro lock_same[OF L, where h = h and q' = "PSleep2 l"]) (use sleep2(3) in simp_all)
next
  case (sleep3 h l p hr c')
  have "wks s h = None" by (rule no_wks[OF L]) (use sleep3(3) in \<open>simp add: calls_def\<close>)
  then show ?thesis unfolding sleep3(1) by (intro lock_release[OF L, where h = h and l = l and q' = PBack]) (use sleep3(3) in simp_all)
next
  case (put_back h p c' ps' lst)
  have "wks s h = None" by (rule no_wks[OF L]) (use put_back(3) in \<open>simp add: calls_def\<close>)
  then show ?thesis unfolding put_back(1) by (intro lock_same[OF L, where h = h and q' = "PSched lst"]) (use put_back(3) in simp_all)
next
  case (put_back_panic h e)
  then show ?thesis using put_back_runs[OF I] by blast
next
  case (woken h l)
  show ?thesis unfolding woken(1) by (rule lock_acquire[OF L woken(5), where h = h and q' = "PRun (Some l)"]) (use woken(3) in simp_all)
next
  case (wake h ch)
  have "wks s h1 = Some w \<Longrightarrow> lk (wch w) \<noteq> lk ch" "pc_lock (pcs s h1) \<noteq> Some (lk ch)" for h1 w
    using mutex_invD(3)[OF L, of h1 w] mutex_invD(2)[OF L, of h1 "lk ch"] wake(5) by auto
  then show ?thesis unfolding wake(1)
    by (intro mutex_invI) (use mutex_invD[OF L] wake(3-5) in \<open>auto split: if_splits\<close>)
next
  case (wake_end h ch)
  have "wks s h1 = Some w \<Longrightarrow> h1 \<noteq> h \<Longrightarrow> lk (wch w) \<noteq> lk ch" "pc_lock (pcs s h1) \<noteq> Some (lk ch)" for h1 w
    using mutex_invD(3)[OF L wake_end(3)] mutex_invD(3)[OF L, of h1 w] mutex_invD(2)[OF L, of h1 "lk ch"] mutex_invD(4)[OF L wake_end(3)]
    by (cases "h1 = h"; auto)+
  then show ?thesis unfolding wake_end(1)
    by (intro mutex_invI) (use mutex_invD[OF L] in \<open>auto split: if_splits\<close>)
next
  case (wake_scan h ch i ss k)
  show ?thesis unfolding wake_scan(1)
    by (rule mutex_invI) (use mutex_invD[OF L] mutex_invD(3,4)[OF L wake_scan(3)] wake_scan(3) in \<open>auto split: if_splits\<close>)
next
  case (wake_wait h ch i)
  show ?thesis unfolding wake_wait(1)
    by (rule mutex_invI) (use mutex_invD[OF L] mutex_invD(3,4)[OF L wake_wait(3)] wake_wait(3) in \<open>auto split: if_splits\<close>)
next
  case (clear h ch)
  show ?thesis unfolding clear(1) by (rule mutex_invI) (use mutex_invD[OF L] in auto)
next
  case (pick h lst c' ps')
  then show ?thesis unfolding pick(1) by (intro lock_same[OF L, where h = h and q' = PGot]) simp_all
next
  case (idle h lst)
  then show ?thesis unfolding idle(1) by (intro lock_same[OF L, where h = h and q' = "PSched 0"]) simp_all
next
  case (save h)
  then show ?thesis unfolding save(1) by (intro lock_same[OF L, where h = h and q' = PSwtch]) simp_all
next
  case (exits h p hr c')
  then show ?thesis unfolding exits(1) by (intro lock_same[OF L, where h = h and q' = PBack]) simp_all
next
  case (fork1 h p f)
  then show ?thesis unfolding fork1(1) by (intro lock_same[OF L, where h = h and q' = "PFork f"]) simp_all
next
  case (fork2 h f q ps')
  then show ?thesis unfolding fork2(1) by (intro lock_same[OF L, where h = h and q' = "PRun None"]) simp_all
next
  case (fork2_panic h f q e)
  then show ?thesis unfolding fork2_panic(1) by (intro lock_same[OF L, where h = h and q' = PPanic]) simp_all
qed

lemma wake_invD:
  assumes "wake_inv s"
  shows "cond s ch \<Longrightarrow> asleep s ch i \<Longrightarrow> \<exists>h w. wks s h = Some w \<and> wch w = ch \<and> widx w \<le> i"
    "wks s h = Some w \<Longrightarrow> cond s (wch w)" "wks s h = Some w \<Longrightarrow> widx w \<le> NMAXPROCS"
  using assms unfolding wake_inv_def by blast+

lemma wake_frame:
  assumes W: "wake_inv s" and s': "cond s' = cond s" "wks s' = wks s"
    and a: "\<And>ch i. cond s ch \<Longrightarrow> asleep s' ch i \<Longrightarrow> asleep s ch i"
  shows "wake_inv s'"
  using W a unfolding wake_inv_def s' by blast

text \<open>A hart other than \<open>h\<close> and a slot other than \<open>j\<close> keep their sleeper.\<close>

lemma asleep_local:
  assumes a: "asleep s' ch i" and c: "cpus s' = (cpus s)(h := c')" and ps: "s_pool s' = (s_pool s)[j := slot]"
    and new: "\<And>p. slot = Pooling p \<Longrightarrow> j = i \<Longrightarrow> state (unbox p) = SLEEPING \<Longrightarrow> channel (unbox p) = ch \<Longrightarrow> asleep s ch i"
      "\<And>p. process c' = Some p \<Longrightarrow> pidx p = i \<Longrightarrow> state (unbox p) = SLEEPING \<Longrightarrow> channel (unbox p) = ch \<Longrightarrow> asleep s ch i"
  shows "asleep s ch i"
proof -
  from a consider (pool) p where "i < length (s_pool s)" "s_pool s' ! i = Pooling p" "state (unbox p) = SLEEPING" "channel (unbox p) = ch"
    | (hart) h1 p where "process (cpus s' h1) = Some p" "pidx p = i" "state (unbox p) = SLEEPING" "channel (unbox p) = ch"
    unfolding asleep_def ps by auto
  then show ?thesis
  proof cases
    case pool
    then show ?thesis
      using new(1)[of p] ps by (cases "j = i") (auto simp: asleep_def)
  next
    case hart
    then show ?thesis using new(2)[of p] c by (cases "h1 = h") (auto simp: asleep_def)
  qed
qed

lemma asleep_cong: "s_pool s' = s_pool s \<Longrightarrow> cpus s' = cpus s \<Longrightarrow> asleep s' ch i = asleep s ch i"
  unfolding asleep_def by simp

lemma wake_local:
  assumes W: "wake_inv s" and s': "cond s' = cond s" "wks s' = wks s" "cpus s' = (cpus s)(h := c')" "s_pool s' = (s_pool s)[j := slot]"
    and new: "\<And>p. slot = Pooling p \<Longrightarrow> state (unbox p) = SLEEPING \<Longrightarrow>
        \<exists>q. process (cpus s h) = Some q \<and> pidx q = j \<and> state (unbox q) = SLEEPING \<and> channel (unbox q) = channel (unbox p)"
      "\<And>p. process c' = Some p \<Longrightarrow> state (unbox p) = SLEEPING \<Longrightarrow> cond s (channel (unbox p)) \<Longrightarrow>
        \<exists>q. process (cpus s h) = Some q \<and> pidx q = pidx p \<and> state (unbox q) = SLEEPING \<and> channel (unbox q) = channel (unbox p)"
  shows "wake_inv s'"
proof (rule wake_frame[OF W s'(1,2)])
  fix ch i assume c: "cond s ch" and a: "asleep s' ch i"
  show "asleep s ch i"
  proof (rule asleep_local[OF a s'(3,4)])
    fix p assume "slot = Pooling p" "j = i" "state (unbox p) = SLEEPING" "channel (unbox p) = ch"
    then show "asleep s ch i" using new(1)[of p] unfolding asleep_def by blast
  next
    fix p assume "process c' = Some p" "pidx p = i" "state (unbox p) = SLEEPING" "channel (unbox p) = ch"
    then show "asleep s ch i" using new(2)[of p] c unfolding asleep_def by blast
  qed
qed

lemma wake_hart:
  assumes W: "wake_inv s" and s': "cond s' = cond s" "wks s' = wks s" "cpus s' = (cpus s)(h := c')" "s_pool s' = s_pool s"
    and new: "\<And>p. process c' = Some p \<Longrightarrow> state (unbox p) = SLEEPING \<Longrightarrow>
        \<exists>q. process (cpus s h) = Some q \<and> pidx q = pidx p \<and> state (unbox q) = SLEEPING \<and> channel (unbox q) = channel (unbox p)"
  shows "wake_inv s'"
  by (rule wake_local[OF W s'(1-3), where j = "length (s_pool s)" and slot = NoProc]) (use s' new in \<open>simp_all add: list_update_beyond\<close>)

lemma asleep_lt: "pinv lk s \<Longrightarrow> asleep s ch i \<Longrightarrow> i < NMAXPROCS"
  using pinv_hart(1)[of lk s] pinvD(1)[of lk s] unfolding asleep_def by auto

lemma wake_scan_inv:
  assumes I: "pinv lk s" and L: "mutex_inv lk s" and W: "wake_inv s"
    and w: "wks s h = Some (WScan ch i)" and r: "wakeup_scan ch (drop i (s_pool s)) = (ss, k)"
  shows "wake_inv (s\<lparr>s_pool := take i (s_pool s) @ ss, wks := (wks s)(h \<mapsto> (if i + k < NMAXPROCS then WWait ch (i + k) else WDone ch))\<rparr>)"
    (is "wake_inv ?s")
proof -
  have len: "length (s_pool s) = NMAXPROCS" by (rule pinvD(1)[OF I])
  have "i \<le> length (s_pool s)" using wake_invD(3)[OF W w] len by simp
  note S = scan_pool[OF r this]
  let ?w = "if i + k < NMAXPROCS then WWait ch (i + k) else WDone ch"
  have w': "wch ?w = ch" "widx ?w = i + k" using S(2) len by auto
  have old: "asleep s c j" if "asleep ?s c j" for c j
  proof -
    from that consider (pool) p where "j < NMAXPROCS" "(take i (s_pool s) @ ss) ! j = Pooling p" "state (unbox p) = SLEEPING" "channel (unbox p) = c"
      | (hart) h1 p where "process (cpus s h1) = Some p" "pidx p = j" "state (unbox p) = SLEEPING" "channel (unbox p) = c"
      unfolding asleep_def using S(1) len by auto
    then show ?thesis
    proof cases
      case pool
      then have "s_pool s ! j = Pooling p"
        using S(3)[of j] len by (auto simp: wake_slot_def split: if_splits ProcInPool.splits)
      then show ?thesis using pool len unfolding asleep_def by auto
    next
      case hart
      then show ?thesis unfolding asleep_def by auto
    qed
  qed
  have passed: "\<not> asleep ?s ch j" if j: "i \<le> j" "j < i + k" for j
  proof
    assume "asleep ?s ch j"
    then consider (pool) p where "(take i (s_pool s) @ ss) ! j = Pooling p" "state (unbox p) = SLEEPING" "channel (unbox p) = ch"
      | (hart) h1 p where "process (cpus s h1) = Some p" "pidx p = j" "state (unbox p) = SLEEPING"
      unfolding asleep_def by auto
    then show False
    proof cases
      case pool
      have "(take i (s_pool s) @ ss) ! j = wake_slot ch (s_pool s ! j)" using S(3)[of j] j S(2) by simp
      then show False using pool by (auto simp: wake_slot_def split: ProcInPool.splits if_splits)
    next
      case hart
      then have "s_pool s ! j = BeingSlept"
        using pinv_hart(3)[OF I hart(1)] by (cases "pcs s h1") (auto simp: on_hart_def Let_def)
      then show False using S(4)[OF j] by simp
    qed
  qed
  have one: "h1 = h" if "wks s h1 = Some w1" "wch w1 = ch" for h1 w1
    using mutex_invD(3)[OF L that(1)] mutex_invD(3)[OF L w] that(2) by simp
  show ?thesis
    unfolding wake_inv_def
  proof (intro conjI allI impI)
    fix c j assume a: "cond ?s c" "asleep ?s c j"
    obtain h1 w1 where h1: "wks s h1 = Some w1" "wch w1 = c" "widx w1 \<le> j"
      using wake_invD(1)[OF W _ old[OF a(2)]] a(1) by auto
    show "\<exists>h1 w1. wks ?s h1 = Some w1 \<and> wch w1 = c \<and> widx w1 \<le> j"
    proof (cases "h1 = h")
      case True
      then have c: "c = ch" "i \<le> j" using h1 w by auto
      then have "i + k \<le> j" using passed[of j] a(2) by (cases "j < i + k") auto
      then show ?thesis using w' c by (intro exI[of _ h] exI[of _ ?w]) simp
    next
      case False
      then show ?thesis using h1 by (intro exI[of _ h1] exI[of _ w1]) simp
    qed
  next
    fix h1 w1 assume a: "wks ?s h1 = Some w1"
    have "wks s h1 = Some w1 \<or> h1 = h \<and> w1 = ?w" using a by (cases "h1 = h") simp_all
    then show "cond ?s (wch w1)" "widx w1 \<le> NMAXPROCS"
      using wake_invD(2,3)[OF W, of h1 w1] wake_invD(2)[OF W w] w' S(2) len by auto
  qed
qed

lemma sched_step_wake:
  assumes st: "sched_step R lk True s s'" and I: "pinv lk s" and F: "fork_inv s" and L: "mutex_inv lk s" and W: "wake_inv s"
  shows "wake_inv s'"
  using st
proof cases
  case (pick h lst c' ps')
  obtain p where p: "find_next_runnable_proc lst (s_pool s) = (ps', Some p)" "c' = (cpus s h)\<lparr>process := Some (upd_proc (\<lambda>q. q\<lparr>state := RUNNING\<rparr>) p)\<rparr>"
    using pick(5) by (auto simp: scheduler_pick_def split: prod.splits option.splits)
  obtain i where i: "ps' = (s_pool s)[i := Scheduled]" using p(1) by (rule find_next_Some)
  show ?thesis unfolding pick(1)
    by (rule wake_local[OF W, where h = h and c' = c' and j = i and slot = Scheduled]) (use p(2) i in auto)
next
  case (save h)
  show ?thesis unfolding save(1)
    by (rule wake_hart[OF W, where h = h and c' = "(cpus s h)\<lparr>scheduler_context := Some KSched\<rparr>"]) auto
next
  case (yield h hr p c')
  have "c' = (cpus s h)\<lparr>process := Some (upd_proc (\<lambda>q. q\<lparr>state := RUNNABLE\<rparr>) p), scheduler_context := None\<rparr>"
    using yield(6,7) by (auto simp: yield_cpu_def sched_def set_state_def rif_def split: if_splits)
  then show ?thesis unfolding yield(1) by (intro wake_hart[OF W, where h = h and c' = c']) auto
next
  case (exits h p hr c')
  have "c' = (cpus s h)\<lparr>process := Some (upd_proc (\<lambda>q. q\<lparr>state := ZOMBIE\<rparr>) p), scheduler_context := None\<rparr>"
    using exits(5,6) by (auto simp: exit_sched_def sched_def set_state_def rif_def split: if_splits)
  then show ?thesis unfolding exits(1) by (intro wake_hart[OF W, where h = h and c' = c']) auto
next
  case (clear h ch)
  have "wch w \<noteq> ch" if "wks s h1 = Some w" for h1 w
    using mutex_invD(3)[OF L that] mutex_invD(2)[OF L, of h "lk ch"] clear(3,4) that by auto
  then show ?thesis using wake_invD[OF W] asleep_cong[of "s\<lparr>cond := (cond s)(ch := False)\<rparr>" s]
    unfolding clear(1) wake_inv_def by auto
next
  case (sleep1 h ch c' ps')
  obtain p where p: "process (cpus s h) = Some p" "sleep_begin ch (cpus s h) (s_pool s) =
      Inr ((cpus s h)\<lparr>process := Some (upd_proc (\<lambda>q. q\<lparr>channel := ch, state := SLEEPING\<rparr>) p)\<rparr>, (s_pool s)[pidx p := BeingSlept])"
    by (rule sleep_begin_cases[OF I sleep1(4)])
  show ?thesis unfolding sleep1(1)
    by (rule wake_local[OF W, where h = h and c' = c' and j = "pidx p" and slot = BeingSlept]) (use p(2) sleep1(5,6) in auto)
next
  case (sleep2 h l)
  show ?thesis unfolding sleep2(1)
    by (rule wake_hart[OF W, where h = h and c' = "sleep_guard (cpus s h)"]) (auto simp: sleep_guard_def)
next
  case (sleep3 h l p hr c')
  have "c' = (cpus s h)\<lparr>scheduler_context := None\<rparr>" using sleep3(6) by (rule sched_Inr)
  then show ?thesis unfolding sleep3(1)
    by (intro wake_hart[OF W, where h = h and c' = c']) auto
next
  case (put_back h p c' ps' lst)
  then have pb: "put_back_proc p (s_pool s) = Inr ps'" "process c' = None" by (auto simp: scheduler_back_def)
  show ?thesis unfolding put_back(1)
    by (rule wake_local[OF W, where h = h and c' = c' and j = "pidx p" and slot = "Pooling (upd_proc (\<lambda>q. q\<lparr>drop_on_put_back := False\<rparr>) p)"])
      (use put_back_Inr(3)[OF pb(1)] pb(2) put_back(4) in auto)
next
  case (woken h l)
  obtain p where p: "process (cpus s h) = Some p" by (rule pinv_proc[OF I, of h]) (use woken in auto)
  have "state (unbox p) = RUNNING" using pinv_hart(3)[OF I p] woken(4) by (simp add: on_hart_def Let_def)
  then show ?thesis unfolding woken(1)
    by (intro wake_hart[OF W, where h = h and c' = "sleep_end (cpus s h)"]) (use p in \<open>auto simp: sleep_end_def\<close>)
next
  case (fork2 h f q ps')
  show ?thesis unfolding fork2(1)
    by (rule wake_local[OF W, where h = h and c' = "cpus s h" and j = "pidx q" and slot = "Pooling (upd_proc (\<lambda>q. q\<lparr>drop_on_put_back := False\<rparr>) q)"])
      (use put_back_Inr(3)[OF fork2(8)] fork2(6) in auto)
next
  case (wake h ch)
  let ?s = "s\<lparr>lks := (lks s)(lk ch \<mapsto> h), cond := (cond s)(ch := True), wks := (wks s)(h \<mapsto> WScan ch 0)\<rparr>"
  have "\<exists>h1 w. wks ?s h1 = Some w \<and> wch w = c \<and> widx w \<le> i" if a: "cond ?s c" "asleep ?s c i" for c i
  proof (cases "c = ch")
    case True
    then show ?thesis by (intro exI[of _ h] exI[of _ "WScan ch 0"]) simp
  next
    case False
    then obtain h1 w where "wks s h1 = Some w" "wch w = c" "widx w \<le> i"
      using wake_invD(1)[OF W, of c i] a asleep_cong[of ?s s] by auto
    then show ?thesis using wake(3) by (intro exI[of _ h1] exI[of _ w]) auto
  qed
  then show ?thesis unfolding wake(1) wake_inv_def using wake_invD(2,3)[OF W] by auto
next
  case (wake_scan h ch i ss k)
  show ?thesis unfolding wake_scan(1) by (rule wake_scan_inv[OF I L W wake_scan(3,4)])
next
  case (wake_wait h ch i)
  let ?s = "s\<lparr>wks := (wks s)(h \<mapsto> WScan ch i)\<rparr>"
  have "\<exists>h1 w. wks ?s h1 = Some w \<and> wch w = c \<and> widx w \<le> j" if a: "cond ?s c" "asleep ?s c j" for c j
  proof -
    obtain h1 w where h1: "wks s h1 = Some w" "wch w = c" "widx w \<le> j"
      using wake_invD(1)[OF W, of c j] a asleep_cong[of ?s s] by auto
    show ?thesis
    proof (cases "h1 = h")
      case True
      then show ?thesis using h1 wake_wait(3) by (intro exI[of _ h] exI[of _ "WScan ch i"]) auto
    next
      case False
      then show ?thesis using h1 by (intro exI[of _ h1] exI[of _ w]) simp
    qed
  qed
  then show ?thesis unfolding wake_wait(1) wake_inv_def using wake_invD(2,3)[OF W] wake_invD(2,3)[OF W wake_wait(3)] by auto
next
  case (wake_end h ch)
  let ?s = "s\<lparr>lks := (lks s)(lk ch := None), wks := (wks s)(h := None)\<rparr>"
  have "\<exists>h1 w. wks ?s h1 = Some w \<and> wch w = c \<and> widx w \<le> j" if a: "cond ?s c" "asleep ?s c j" for c j
  proof -
    have as: "asleep s c j" using a(2) asleep_cong[of ?s s] by auto
    then obtain h1 w where h1: "wks s h1 = Some w" "wch w = c" "widx w \<le> j"
      using wake_invD(1)[OF W, of c j] a by auto
    moreover have "h1 \<noteq> h" using h1 wake_end(3) asleep_lt[OF I as] by auto
    ultimately show ?thesis by (intro exI[of _ h1] exI[of _ w]) simp
  qed
  then show ?thesis unfolding wake_end(1) wake_inv_def using wake_invD(2,3)[OF W] by auto
qed (auto intro!: wake_frame[OF W] simp: asleep_def)

section \<open>Reachable states\<close>

lemma pid_index_0: "pid_index 0 = 0"
  by (simp add: pid_index_def)

lemma sys_init_inv:
  assumes "first_process p"
  shows "pinv lk (sys_init p)" "fork_inv (sys_init p)" "mutex_inv lk (sys_init p)" "wake_inv (sys_init p)"
proof -
  have p: "pid (unbox p) = 0" "state (unbox p) = RUNNABLE" "\<not> drop_on_put_back (unbox p)" using assms by (auto simp: first_process_def)
  have n: "s_pool (sys_init p) ! i = (if i = 0 then Pooling p else NoProc)" if "i < NMAXPROCS" for i
    using that by (simp add: sys_init_def nth_list_update)
  show "pinv lk (sys_init p)"
    unfolding pinv_def
  proof (intro conjI allI impI)
    show "slot_inv lk (cpus (sys_init p)) (ctx (sys_init p) i) i (s_pool (sys_init p) ! i)" if "i < NMAXPROCS" for i
      using n[OF that] p by (auto simp: slot_inv_def sys_init_def pid_index_0 ctx_ok_def good_ctx_def)
  qed (auto simp: sys_init_def hart_inv_def CPU_zero_def)
  show "fork_inv (sys_init p)" by (simp add: fork_inv_def sys_init_def)
  show "mutex_inv lk (sys_init p)" by (simp add: mutex_inv_def sys_init_def)
  show "wake_inv (sys_init p)" by (simp add: wake_inv_def sys_init_def)
qed

lemma sched_reach_inv:
  assumes "sched_reach R lk True s"
  shows "pinv lk s" "fork_inv s" "mutex_inv lk s" "wake_inv s"
proof -
  have "pinv lk s \<and> fork_inv s \<and> mutex_inv lk s \<and> wake_inv s"
    using assms
  proof induction
    case (start p)
    then show ?case using sys_init_inv by blast
  next
    case (step s s')
    then show ?case using sched_step_pinv sched_step_fork sched_step_lock sched_step_wake by blast
  qed
  then show "pinv lk s" "fork_inv s" "mutex_inv lk s" "wake_inv s" by blast+
qed



section \<open>Waking ends\<close>

lemma idle_harts:
  assumes "sched_reach R lk e s" "NCPUS \<le> h"
  shows "process (cpus s h) = None"
  using assms(1)
proof induction
  case (start p)
  then show ?case by (simp add: sys_init_def CPU_zero_def)
next
  case (step s s')
  from step(2) show ?case by cases (use step.IH assms(2) in auto)
qed

abbreviation sched_steps :: "riscv \<Rightarrow> (usize \<Rightarrow> usize) \<Rightarrow> bool \<Rightarrow> sys \<Rightarrow> sys \<Rightarrow> bool" where
  "sched_steps R lk e \<equiv> (sched_step R lk e)\<^sup>*\<^sup>*"

lemma sched_reach_steps: "sched_steps R lk e s s' \<Longrightarrow> sched_reach R lk e s \<Longrightarrow> sched_reach R lk e s'"
  by (induction rule: rtranclp_induct) (auto intro: sched_reach.step)

definition slept :: "sys \<Rightarrow> nat set" where
  "slept s = {i. i < NMAXPROCS \<and> s_pool s ! i = BeingSlept}"

lemma finish_back:
  assumes r: "sched_reach R lk True s" and pc: "pcs s h = PBack" and p: "process (cpus s h) = Some p" and b: "s_pool s ! pidx p = BeingSlept"
  shows "\<exists>s'. sched_step R lk True s s' \<and> slept s' = slept s - {pidx p} \<and> wks s' = wks s"
proof -
  note I = sched_reach_inv(1)[OF r]
  have h: "h < NCPUS" using idle_harts[OF r, of h] p by (cases "h < NCPUS") auto
  obtain c' ps' lst where sb: "scheduler_back (cpus s h) (s_pool s) = Inr (c', ps', lst)"
    using put_back_runs[OF I pc] by (cases "scheduler_back (cpus s h) (s_pool s)") auto
  then have "put_back_proc p (s_pool s) = Inr ps'" using p by (auto simp: scheduler_back_def)
  note q = put_back_Inr[OF this]
  show ?thesis
    by (intro exI conjI, rule sched_step.put_back[OF h pc p sb])
      (use q pinvD(1)[OF I] in \<open>auto simp: slept_def nth_list_update split: if_splits\<close>)
qed

lemma finish_sleep2:
  assumes r: "sched_reach R lk True s" and pc: "pcs s h = PSleep2 l" and p: "process (cpus s h) = Some p" and R: "\<not> intr_get R hr"
  shows "\<exists>s'. sched_steps R lk True s s' \<and> slept s' = slept s - {pidx p} \<and> wks s' = wks s"
proof -
  note I = sched_reach_inv(1)[OF r]
  have h: "h < NCPUS" using idle_harts[OF r, of h] p by (cases "h < NCPUS") auto
  have o: "scheduler_context (cpus s h) = Some KSched" "state (unbox p) = SLEEPING" "s_pool s ! pidx p = BeingSlept"
    using pinv_hart(3)[OF I p] pc by (simp_all add: on_hart_def Let_def)
  let ?c = "(cpus s h)\<lparr>scheduler_context := None\<rparr>"
  let ?s = "s\<lparr>lks := (lks s)(l := None), cpus := (cpus s)(h := ?c), ctx := (ctx s)(pidx p \<mapsto> KSleep l), pcs := (pcs s)(h := PBack)\<rparr>"
  have "sched R hr (cpus s h) = Inr (?c, Some KSched)" using p o R by (simp add: sched_def)
  then have st: "sched_step R lk True s ?s" by (rule sched_step.sleep3[OF h pc p R])
  obtain s' where "sched_step R lk True ?s s'" "slept s' = slept ?s - {pidx p}" "wks s' = wks ?s"
    using finish_back[OF sched_reach.step[OF r st], of h p] p o(3) by auto
  then show ?thesis using st by (intro exI[of _ s']) (auto simp: slept_def)
qed

lemma drain_one:
  assumes r: "sched_reach R lk True s" and i: "i \<in> slept s" and R: "\<not> intr_get R hr"
  shows "\<exists>s'. sched_steps R lk True s s' \<and> slept s' \<subset> slept s \<and> wks s' = wks s"
proof -
  note I = sched_reach_inv(1)[OF r]
  have mem: "pidx p \<in> slept s" if "process (cpus s h) = Some p" "s_pool s ! pidx p = BeingSlept" for h p
    using that pinv_hart(1)[OF I that(1)] by (simp add: slept_def)
  show ?thesis
  proof (cases "slp s")
    case (Some h)
    then obtain p where p: "process (cpus s h) = Some p" using pinv_sched(3)[OF I, of h] by (cases "process (cpus s h)") auto
    have d: "drop_on_put_back (unbox p)" using pinv_hart(2)[OF I p] Some by simp
    then consider l where "pcs s h = PSleep2 l" "s_pool s ! pidx p = BeingSlept" | "pcs s h = PBack" "s_pool s ! pidx p = BeingSlept"
      using pinv_hart(3)[OF I p] by (cases "pcs s h") (auto simp: on_hart_def Let_def split: if_splits)
    then show ?thesis
    proof cases
      case 1
      then show ?thesis using finish_sleep2[OF r 1(1) p R] mem[OF p] by blast
    next
      case 2
      then show ?thesis using finish_back[OF r 2(1) p 2(2)] mem[OF p] by blast
    qed
  next
    case None
    obtain h p where p: "process (cpus s h) = Some p" "pidx p = i"
      using pinvD(4)[OF I, of i] i by (auto simp: slot_inv_def slept_def)
    have b: "s_pool s ! pidx p = BeingSlept" using i p(2) by (simp add: slept_def)
    obtain l where pc: "pcs s h = PSleep1 l"
      using pinv_hart(2,3)[OF I p(1)] b None by (cases "pcs s h") (auto simp: on_hart_def Let_def split: if_splits)
    have h: "h < NCPUS" using idle_harts[OF r, of h] p by (cases "h < NCPUS") auto
    note st = sched_step.sleep2[OF h pc None, of R lk True]
    let ?s = "s\<lparr>slp := Some h, cpus := (cpus s)(h := sleep_guard (cpus s h)), pcs := (pcs s)(h := PSleep2 l)\<rparr>"
    obtain s' where "sched_steps R lk True ?s s'" "slept s' = slept ?s - {i}" "wks s' = wks ?s"
      using finish_sleep2[OF sched_reach.step[OF r st], of h l "upd_proc (\<lambda>p. p\<lparr>drop_on_put_back := True\<rparr>) p", OF _ _ R] p
      by (auto simp: sleep_guard_def)
    then show ?thesis using st i by (intro exI[of _ s']) (auto simp: slept_def intro: converse_rtranclp_into_rtranclp)
  qed
qed

lemma drain:
  assumes r: "sched_reach R lk True s" and R: "\<not> intr_get R hr"
  shows "\<exists>s'. sched_steps R lk True s s' \<and> slept s' = {} \<and> wks s' = wks s"
  using r
proof (induction "card (slept s)" arbitrary: s rule: less_induct)
  case less
  show ?case
  proof (cases "slept s = {}")
    case True
    then show ?thesis by blast
  next
    case False
    then obtain i where i: "i \<in> slept s" by blast
    obtain s1 where s1: "sched_steps R lk True s s1" "slept s1 \<subset> slept s" "wks s1 = wks s" using drain_one[OF less.prems i R] by blast
    have "card (slept s1) < card (slept s)" by (rule psubset_card_mono[OF _ s1(2)]) (simp add: slept_def)
    from less.hyps[OF this sched_reach_steps[OF s1(1) less.prems]] obtain s2 where
      "sched_steps R lk True s1 s2" "slept s2 = {}" "wks s2 = wks s1" by blast
    then show ?thesis using s1 by (intro exI[of _ s2]) auto
  qed
qed


section \<open>Fairness\<close>

definition pool_labelled :: "ProcInPool list \<Rightarrow> bool" where
  "pool_labelled ps \<longleftrightarrow> length ps = NMAXPROCS \<and> (\<forall>i<NMAXPROCS. \<forall>p. ps ! i = Pooling p \<longrightarrow> pidx p = i)"

lemma turns_reach:
  assumes "\<forall>ps\<in>set pss. pool_labelled ps \<and> runnable (ps ! j)" "j < NMAXPROCS" "lst < NMAXPROCS"
    and "(if lst \<le> j then j - lst else NMAXPROCS - lst + 1 + j) < length pss"
  shows "Some j \<in> set (scheduler_turns lst pss)"
  using assms
proof (induction pss arbitrary: lst)
  case Nil
  then show ?case by simp
next
  case (Cons ps pss)
  have ps: "length ps = NMAXPROCS" "runnable (ps ! j)" "\<And>i p. i < NMAXPROCS \<Longrightarrow> ps ! i = Pooling p \<Longrightarrow> pidx p = i"
    using Cons.prems(1) by (auto simp: pool_labelled_def)
  note IH = Cons.IH[OF _ Cons.prems(2)]
  obtain ps' r where f: "find_next_runnable_proc lst ps = (ps', r)" by fastforce
  show ?case
  proof (cases r)
    case None
    then have "\<not> lst \<le> j" using find_next_None[of lst ps ps'] f ps Cons.prems(2) by auto
    then have "Some j \<in> set (scheduler_turns 0 pss)" using Cons.prems by (intro IH) (auto simp: consts_simps)
    then show ?thesis using f None by simp
  next
    case (Some p)
    obtain i where i: "lst \<le> i" "i < NMAXPROCS" "ps ! i = Pooling p" "\<forall>k. lst \<le> k \<longrightarrow> k < i \<longrightarrow> \<not> runnable (ps ! k)"
      using find_next_Some[of lst ps ps' p] f Some ps(1) by metis
    have pi: "pidx p = i" by (rule ps(3)[OF i(2,3)])
    have ij: "i \<le> j" if "lst \<le> j" using i(4) ps(2) that by (cases "j < i") auto
    show ?thesis
    proof (cases "i = j")
      case True
      then show ?thesis using f Some pi by simp
    next
      case False
      define n where "n = next_lst_pid (pid (unbox p))"
      have n: "n = (if NMAXPROCS \<le> i + 1 then 0 else i + 1)" using pi by (simp add: n_def next_lst_pid_def)
      have "n < NMAXPROCS" using n by (simp add: consts_simps)
      then have "Some j \<in> set (scheduler_turns n pss)"
        using Cons.prems i(1,2) False ij n by (intro IH) (auto split: if_splits)
      then show ?thesis using f Some by (simp add: n_def)
    qed
  qed
qed

text \<open>C33: The scheduler of a hart starves nobody: a process that is runnable in the pool during more than
  \<open>NMAXPROCS\<close> turns of one hart, however the pool changes in between, is picked in one of them.\<close>

theorem scheduler_fair:
  assumes "\<forall>ps\<in>set pss. pool_labelled ps \<and> runnable (ps ! j)" "j < NMAXPROCS" "lst < NMAXPROCS" "NMAXPROCS < length pss"
  shows "Some j \<in> set (scheduler_turns lst pss)"
  by (rule turns_reach[OF assms(1-3)]) (use assms(2-4) in auto)

section \<open>Pids are never reused\<close>

lemma upd_NoProcD: "ps[j := x] ! i = NoProc \<Longrightarrow> i < length ps \<Longrightarrow> x \<noteq> NoProc \<Longrightarrow> ps ! i = NoProc"
  by (cases "i = j") auto

lemma sched_step_NoProc:
  assumes st: "sched_step R lk e s s'" and w: "\<And>h w. wks s h = Some w \<Longrightarrow> widx w \<le> length (s_pool s)"
    and n: "s_pool s' ! i = NoProc" "i < length (s_pool s)"
  shows "s_pool s ! i = NoProc"
  using st
proof cases
  case (pick h lst c' ps')
  then obtain p where "find_next_runnable_proc lst (s_pool s) = (ps', Some p)"
    by (auto simp: scheduler_pick_def split: prod.splits option.splits)
  then obtain j where "ps' = (s_pool s)[j := Scheduled]" by (rule find_next_Some)
  then show ?thesis using n pick(1) by (auto dest: upd_NoProcD)
next
  case (sleep1 h ch c' ps')
  then show ?thesis
    using n by (auto simp: sleep_begin_def arr_set_def rif_def rbind_eq_Inr split: option.splits if_splits dest: upd_NoProcD)
next
  case (put_back h p c' ps' lst)
  then have "put_back_proc p (s_pool s) = Inr ps'" by (auto simp: scheduler_back_def)
  then show ?thesis using n put_back(1) put_back_Inr(3) by (auto dest: upd_NoProcD)
next
  case (fork2 h f q ps')
  then show ?thesis using n put_back_Inr(3)[OF fork2(8)] by (auto dest: upd_NoProcD)
next
  case (wake_scan h ch j ss k)
  have "j \<le> length (s_pool s)" using w[OF wake_scan(3)] by simp
  then show ?thesis using scan_pool(3)[OF wake_scan(4) _ n(2)] n(1) wake_scan(1) by (auto split: if_splits)
qed (use n in auto)

text \<open>C34: A process that has ended is never taken out of the pool: once every pid is in use it stays so,
  whatever the processes do, and every later \<open>fork\<close> panics.\<close>

theorem pids_run_out:
  assumes "sched_reach R lk True s" "sched_steps R lk True s s'" "\<forall>i<NMAXPROCS. s_pool s ! i \<noteq> NoProc"
    and "cur k \<noteq> None" "pool k = s_pool s'"
  shows "fork F l k = Inl (Panic ''pid unavailable'')"
proof -
  have "sched_reach R lk True s' \<and> (\<forall>i<NMAXPROCS. s_pool s' ! i \<noteq> NoProc)"
    using assms(2)
  proof (induction rule: rtranclp_induct)
    case base
    then show ?case using assms(1,3) by simp
  next
    case (step s1 s2)
    have r: "sched_reach R lk True s1" using step.IH by blast
    have len: "length (s_pool s1) = NMAXPROCS" by (rule pinvD(1)[OF sched_reach_inv(1)[OF r]])
    have "s_pool s2 ! i \<noteq> NoProc" if "i < NMAXPROCS" for i
      using sched_step_NoProc[OF step.hyps(2), of i] wake_invD(3)[OF sched_reach_inv(4)[OF r]] that len step.IH by auto
    then show ?case using sched_reach.step[OF r step.hyps(2)] by blast
  qed
  then have s': "length (s_pool s') = NMAXPROCS" "\<forall>i<NMAXPROCS. s_pool s' ! i \<noteq> NoProc"
    using pinvD(1)[OF sched_reach_inv(1)] by blast+
  then have "find_available_pid (s_pool s') = None"
    by (auto simp: find_available_pid_def is_NoProc first_slot_None_iff in_set_conv_nth)
  then show ?thesis using assms(4,5) by (auto simp: fork_def my_proc_def Let_def)
qed

section \<open>Two forks at once\<close>

lemma sched_step_mono:
  assumes "sched_step R lk True s s'"
  shows "sched_step R lk False s s'"
  using assms
proof (induction rule: sched_step.induct)
  case (fork1 h s p f)
  then show ?case by (intro sched_step.fork1) simp_all
qed (rule sched_step.intros; assumption)+

lemma find_nextI:
  assumes "lst \<le> i" "i < length ps" "ps ! i = Pooling p" "state (unbox p) = RUNNABLE" "\<forall>j. lst \<le> j \<longrightarrow> j < i \<longrightarrow> \<not> runnable (ps ! j)"
  shows "find_next_runnable_proc lst ps = (ps[i := Scheduled], Some p)"
proof -
  have ri: "runnable (ps ! i)" using assms(3,4) by (simp add: runnable_def)
  obtain ps' r where f: "find_next_runnable_proc lst ps = (ps', r)" by fastforce
  show ?thesis
  proof (cases r)
    case None
    then show ?thesis using find_next_None[of lst ps ps'] f assms(1,2) ri by blast
  next
    case (Some q)
    obtain k where k: "lst \<le> k" "k < length ps" "ps ! k = Pooling q" "state (unbox q) = RUNNABLE" "ps' = ps[k := Scheduled]"
        "\<forall>j. lst \<le> j \<longrightarrow> j < k \<longrightarrow> \<not> runnable (ps ! j)"
      using f Some by (metis find_next_Some)
    have "runnable (ps ! k)" using k(3,4) by (simp add: runnable_def)
    then have "k = i" using assms(1,5) k(1,6) ri by (metis linorder_neqE_nat)
    then show ?thesis using f Some k assms(3) by simp
  qed
qed

text \<open>C35: The pid that \<open>fork\<close> chooses is not reserved: when two processes fork at the same time both may choose the
  same pid, and if another hart picks up the first child before the second one is put into the pool, there are
  two processes with one pid, one running and one in the pool.\<close>

theorem fork_pid_race:
  assumes r: "sched_reach R lk True s" and h: "a < NCPUS" "b < NCPUS" "c < NCPUS" "a \<noteq> b"
    and w: "wks s a = None" "wks s b = None" "wks s c = None"
    and pc: "pcs s a = PRun None" "pcs s b = PRun None" "pcs s c = PSched lst"
    and pool: "find_available_pid (s_pool s) = Some f" "scheduler_pick lst (cpus s c) (s_pool s) = None" "lst \<le> pid_index f"
  shows "\<exists>s' p q. sched_steps R lk False s s' \<and> process (cpus s' c) = Some p \<and> s_pool s' ! pid_index f = Pooling q \<and>
    pid (unbox p) = f \<and> pid (unbox q) = f"
proof -
  note I = sched_reach_inv(1)[OF r]
  obtain pa pb where p: "process (cpus s a) = Some pa" "process (cpus s b) = Some pb"
    using pinv_sched(2)[OF I, of a] pinv_sched(2)[OF I, of b] pc by (cases "process (cpus s a)"; cases "process (cpus s b)") auto
  obtain i where i: "i < NMAXPROCS" "s_pool s ! i = NoProc" "f = of_nat i" by (rule find_available_pid_Some[OF pool(1) pinvD(1)[OF I]])
  have fi: "pid_index f = i" using i by (simp add: pid_index_of_nat consts_simps)
  have ac: "c \<noteq> a" "c \<noteq> b" using pc by auto
  define q where "q = upd_proc (\<lambda>p. p\<lparr>pid := f, state := RUNNABLE, drop_on_put_back := False\<rparr>) pa"
  have q: "pid (unbox q) = f" "state (unbox q) = RUNNABLE" "\<not> drop_on_put_back (unbox q)" by (simp_all add: q_def)
  have len: "length (s_pool s) = NMAXPROCS" by (rule pinvD(1)[OF I])
  let ?q = "upd_proc (\<lambda>q. q\<lparr>drop_on_put_back := False\<rparr>) q"
  let ?ps = "(s_pool s)[i := Pooling ?q]"
  define s1 where "s1 = s\<lparr>forking := Some (pidx pa), pcs := (pcs s)(a := PFork f)\<rparr>"
  define s2 where "s2 = s1\<lparr>forking := Some (pidx pb), pcs := (pcs s1)(b := PFork f)\<rparr>"
  define s3 where "s3 = s2\<lparr>forking := None, s_pool := ?ps, ctx := (ctx s2)(pid_index f \<mapsto> KForkret), pcs := (pcs s2)(a := PRun None)\<rparr>"
  define c4 where "c4 = (cpus s c)\<lparr>process := Some (upd_proc (\<lambda>q. q\<lparr>state := RUNNING\<rparr>) ?q)\<rparr>"
  define s4 where "s4 = s3\<lparr>s_pool := ?ps[i := Scheduled], cpus := (cpus s3)(c := c4), pcs := (pcs s3)(c := PGot)\<rparr>"
  define s5 where "s5 = s4\<lparr>forking := None, s_pool := ?ps[i := Scheduled, i := Pooling ?q], ctx := (ctx s4)(pid_index f \<mapsto> KForkret), pcs := (pcs s4)(b := PRun None)\<rparr>"
  have t1: "sched_step R lk False s s1" unfolding s1_def by (rule sched_step.fork1[OF h(1) w(1) pc(1) p(1) _ pool(1)]) simp
  have t2: "sched_step R lk False s1 s2" unfolding s2_def
    by (rule sched_step.fork1[OF h(2), where f = f]) (use w p pc pool h(4) in \<open>simp_all add: s1_def\<close>)
  have t3: "sched_step R lk False s2 s3" unfolding s3_def
    by (rule sched_step.fork2[OF h(1), where q = q and f = f])
      (use w q i fi len h(4) in \<open>simp_all add: s2_def s1_def put_back_proc_def arr_get_def arr_set_def Let_def\<close>)
  have "find_next_runnable_proc lst (s_pool s) = (s_pool s, None)"
    using pool(2) by (auto simp: scheduler_pick_def find_next_runnable_proc_def split: option.splits ProcInPool.splits)
  then have "\<forall>j. lst \<le> j \<longrightarrow> j < NMAXPROCS \<longrightarrow> \<not> runnable (s_pool s ! j)" using find_next_None len by metis
  then have "find_next_runnable_proc lst ?ps = (?ps[i := Scheduled], Some ?q)"
    by (intro find_nextI) (use i pool(3) fi len q in auto)
  then have t4: "sched_step R lk False s3 s4" unfolding s4_def
    by (intro sched_step.pick[OF h(3), where lst = lst])
      (use w pc ac in \<open>simp_all add: s3_def s2_def s1_def c4_def scheduler_pick_def\<close>)
  have t5: "sched_step R lk False s4 s5" unfolding s5_def
    by (rule sched_step.fork2[OF h(2), where q = q and f = f])
      (use w q i fi len h(4) ac in \<open>simp_all add: s4_def s3_def s2_def s1_def put_back_proc_def arr_get_def arr_set_def Let_def\<close>)
  have "sched_steps R lk False s s5" using t1 t2 t3 t4 t5 by (auto intro: rtranclp.rtrancl_into_rtrancl)
  then show ?thesis
    using i len q fi ac by (intro exI[of _ s5]) (auto simp: s5_def s4_def s3_def s2_def s1_def c4_def)
qed

section \<open>The timer\<close>

text \<open>A hart in the scheduler picks a process and starts to switch to it.\<close>

lemma dispatch:
  assumes r: "sched_reach R lk e s" and h: "h < NCPUS" "wks s h = None" "pcs s h = PSched lst"
    and f: "find_next_runnable_proc lst (s_pool s) = (ps', Some p)"
  defines "c \<equiv> (cpus s h)\<lparr>process := Some (upd_proc (\<lambda>q. q\<lparr>state := RUNNING\<rparr>) p), scheduler_context := Some KSched\<rparr>"
  shows "sched_reach R lk e (s\<lparr>s_pool := ps', cpus := (cpus s)(h := c), pcs := (pcs s)(h := PSwtch)\<rparr>)"
    "sched_reach R lk e (s\<lparr>s_pool := ps', cpus := (cpus s)(h := c), ctx := (ctx s)(pidx p := None), pcs := (pcs s)(h := resume (ctx s (pidx p)))\<rparr>)"
proof -
  let ?c = "(cpus s h)\<lparr>process := Some (upd_proc (\<lambda>q. q\<lparr>state := RUNNING\<rparr>) p)\<rparr>"
  have "scheduler_pick lst (cpus s h) (s_pool s) = Some (?c, ps')" using f by (simp add: scheduler_pick_def)
  note r1 = sched_reach.step[OF r sched_step.pick[OF h this]]
  let ?s = "s\<lparr>s_pool := ps', cpus := (cpus s)(h := ?c), pcs := (pcs s)(h := PGot)\<rparr>"
  have "sched_step R lk e ?s (?s\<lparr>cpus := (cpus ?s)(h := (cpus ?s h)\<lparr>scheduler_context := Some KSched\<rparr>), pcs := (pcs ?s)(h := PSwtch)\<rparr>)"
    by (rule sched_step.save[OF h(1)]) (use h(2) in simp_all)
  note r2 = sched_reach.step[OF r1 this]
  show 1: "sched_reach R lk e (s\<lparr>s_pool := ps', cpus := (cpus s)(h := c), pcs := (pcs s)(h := PSwtch)\<rparr>)"
    using r2 by (simp add: c_def)
  let ?t = "s\<lparr>s_pool := ps', cpus := (cpus s)(h := c), pcs := (pcs s)(h := PSwtch)\<rparr>"
  have "sched_step R lk e ?t (?t\<lparr>ctx := (ctx ?t)(pidx (upd_proc (\<lambda>q. q\<lparr>state := RUNNING\<rparr>) p) := None),
      pcs := (pcs ?t)(h := resume (ctx ?t (pidx (upd_proc (\<lambda>q. q\<lparr>state := RUNNING\<rparr>) p))))\<rparr>)"
    by (rule sched_step.load[OF h(1)]) (use h(2) in \<open>simp_all add: c_def\<close>)
  from sched_reach.step[OF 1 this]
  show "sched_reach R lk e (s\<lparr>s_pool := ps', cpus := (cpus s)(h := c), ctx := (ctx s)(pidx p := None), pcs := (pcs s)(h := resume (ctx s (pidx p)))\<rparr>)"
    by simp
qed

definition example_proc :: "i32 \<Rightarrow> Process Box" where
  "example_proc i = \<lparr>box_addr = 0, unbox = \<lparr>pgtable = 0, trapframe = 0, p_context = 0, state = RUNNABLE, kstack = 0, kstack_sp = 0,
     pid = i, channel = 0, drop_on_put_back = False, files = []\<rparr>\<rparr>"

lemma example_first: "first_process (example_proc 0)"
  by (simp add: first_process_def example_proc_def)

lemma init_find:
  assumes "first_process p"
  shows "find_next_runnable_proc 0 (s_pool (sys_init p)) = ((replicate NMAXPROCS NoProc)[0 := Scheduled], Some p)"
  using find_nextI[of 0 0 "s_pool (sys_init p)" p] assms by (simp add: sys_init_def first_process_def consts_simps)

text \<open>C36: A timer interrupt in the kernel gives up the CPU only while a process runs, with one exception: in the
  middle of the scheduler's own switch to a process, where interrupts are enabled, the scheduler's context is already
  saved and the process already marked running, so the handler yields from inside the scheduler. That state
  is reached by the first switch after boot.\<close>

theorem timer_preempts_in_switch:
  assumes "\<not> intr_get R hr"
  shows "(\<forall>s h. sched_reach R lk True s \<longrightarrow> timer_preempts (cpus s h) \<longrightarrow>
      pcs s h = PSwtch \<or> (\<exists>l. pcs s h = PRun l) \<or> (\<exists>l. pcs s h = PWoken l) \<or> (\<exists>f. pcs s h = PFork f)) \<and>
    (\<exists>s c. sched_reach R lk True s \<and> pcs s 0 = PSwtch \<and> timer_preempts (cpus s 0) \<and> yield_cpu R hr (cpus s 0) = Inr (c, Some KSched))"
proof (intro conjI allI impI)
  fix s h assume r: "sched_reach R lk True s" and t: "timer_preempts (cpus s h)"
  obtain p where p: "process (cpus s h) = Some p" using t by (auto simp: timer_preempts_def split: option.splits)
  show "pcs s h = PSwtch \<or> (\<exists>l. pcs s h = PRun l) \<or> (\<exists>l. pcs s h = PWoken l) \<or> (\<exists>f. pcs s h = PFork f)"
    using pinv_hart(3)[OF sched_reach_inv(1)[OF r] p] t p
    by (cases "pcs s h") (auto simp: on_hart_def timer_preempts_def Let_def)
next
  have r: "sched_reach R lk True (sys_init (example_proc 0))" by (rule sched_reach.start[OF example_first])
  note d = dispatch(1)[OF r _ _ _ init_find[OF example_first], of 0]
  show "\<exists>s c. sched_reach R lk True s \<and> pcs s 0 = PSwtch \<and> timer_preempts (cpus s 0) \<and> yield_cpu R hr (cpus s 0) = Inr (c, Some KSched)"
    by (rule exI, rule exI, rule conjI, rule d)
      (use assms in \<open>simp_all add: sys_init_def consts_simps timer_preempts_def yield_cpu_def sched_def set_state_def\<close>)
qed

section \<open>Examples\<close>

lemma intr_off_example: "\<not> intr_get riscv_documented \<lparr>tp = 0, satp = 0, sip = 0, sie_reg = 0, sstatus = 0, sepc = 0, scause = 0, stval = 0, stvec = 0\<rparr>"
  by (simp add: intr_get_def riscv_documented_def)

lemma find_available_pidI:
  assumes "length ps = NMAXPROCS" "i < NMAXPROCS" "ps ! i = NoProc" "\<forall>j<i. ps ! j \<noteq> NoProc"
  shows "find_available_pid ps = Some (of_nat i)"
proof -
  have "first_slot (\<lambda>s. s = NoProc) 0 ps = Some i" using assms by (simp add: first_slot_Some_iff)
  then show ?thesis by (simp add: find_available_pid_def is_NoProc)
qed

lemma example_running:
  "\<exists>s. sched_reach R lk True s \<and> pcs s = (\<lambda>h. PSched 0)(0 := PRun None) \<and> wks s = (\<lambda>h. None) \<and>
    s_pool s = (replicate NMAXPROCS NoProc)[0 := Scheduled] \<and> ctx s = Map.empty \<and> forking s = None \<and> lks s = Map.empty"
proof -
  have r: "sched_reach R lk True (sys_init (example_proc 0))" by (rule sched_reach.start[OF example_first])
  have x: "pidx (example_proc 0) = 0" by (simp add: example_proc_def pid_index_0)
  show ?thesis
    by (rule exI, rule conjI, rule dispatch(2)[OF r _ _ _ init_find[OF example_first], of 0])
      (auto simp: sys_init_def consts_simps resume_def x)
qed

lemma example_two_running:
  "\<exists>s. sched_reach R lk True s \<and> pcs s = (\<lambda>h. PSched 0)(0 := PRun None, 1 := PRun None) \<and> wks s = (\<lambda>h. None) \<and>
    s_pool s = (replicate NMAXPROCS NoProc)[0 := Scheduled, 1 := Scheduled]"
proof -
  obtain s where s: "sched_reach R lk True s" "pcs s = (\<lambda>h. PSched 0)(0 := PRun None)" "wks s = (\<lambda>h. None)"
      "s_pool s = (replicate NMAXPROCS NoProc)[0 := Scheduled]" "ctx s = Map.empty" "forking s = None"
    using example_running by blast
  obtain p where p: "process (cpus s 0) = Some p" by (rule pinv_proc[OF sched_reach_inv(1)[OF s(1)], of 0]) (use s(2) in auto)
  have f: "find_available_pid (s_pool s) = Some 1"
    using find_available_pidI[of "s_pool s" 1] by (simp add: s(4) consts_simps)
  have pi: "pid_index 1 = 1" using pid_index_of_nat[of 1] by simp
  have "sched_step R lk True s (s\<lparr>forking := Some (pidx p), pcs := (pcs s)(0 := PFork 1)\<rparr>)"
    by (rule sched_step.fork1[OF _ _ _ p _ f]) (use s in \<open>simp_all add: consts_simps\<close>)
  note r1 = sched_reach.step[OF s(1) this]
  let ?s1 = "s\<lparr>forking := Some (pidx p), pcs := (pcs s)(0 := PFork 1)\<rparr>"
  let ?ps = "(replicate NMAXPROCS NoProc)[0 := Scheduled, 1 := Pooling (example_proc 1)]"
  have "sched_step R lk True ?s1 (?s1\<lparr>forking := None, s_pool := ?ps, ctx := (ctx ?s1)(pid_index 1 \<mapsto> KForkret), pcs := (pcs ?s1)(0 := PRun None)\<rparr>)"
    by (rule sched_step.fork2[where q = "example_proc 1"])
      (use s in \<open>simp_all add: consts_simps example_proc_def put_back_proc_def arr_get_def arr_set_def pi Let_def\<close>)
  note r2 = sched_reach.step[OF r1 this]
  have x: "pidx (example_proc 1) = 1" "state (unbox (example_proc 1)) = RUNNABLE" by (simp_all add: example_proc_def pi)
  have f: "find_next_runnable_proc 0 ?ps = (?ps[1 := Scheduled], Some (example_proc 1))"
    by (rule find_nextI) (use x in \<open>auto simp: consts_simps runnable_def less_Suc_eq\<close>)
  show ?thesis
    by (rule exI, rule conjI, rule dispatch(2)[OF r2, where h = 1 and lst = 0 and ps' = "?ps[1 := Scheduled]" and p = "example_proc 1"])
      (use s x pi f in \<open>auto simp: consts_simps resume_def\<close>)
qed

text \<open>The first process forks again and again.\<close>

lemma example_full:
  assumes "0 < n" "n \<le> NMAXPROCS"
  shows "\<exists>s. sched_reach R lk True s \<and> pcs s 0 = PRun None \<and> wks s 0 = None \<and> forking s = None \<and>
    (\<forall>i<NMAXPROCS. s_pool s ! i = NoProc \<longleftrightarrow> n \<le> i)"
  using assms
proof (induction n)
  case 0
  then show ?case by simp
next
  case (Suc n)
  show ?case
  proof (cases "n = 0")
    case True
    obtain s where "sched_reach R lk True s" "pcs s 0 = PRun None" "wks s 0 = None" "forking s = None"
        "s_pool s = (replicate NMAXPROCS NoProc)[0 := Scheduled]"
      using example_running[of R lk] by auto
    moreover from this(5) have "\<forall>i<NMAXPROCS. s_pool s ! i = NoProc \<longleftrightarrow> Suc n \<le> i" using True by (auto simp: nth_list_update)
    ultimately show ?thesis by blast
  next
    case False
    then obtain s where s: "sched_reach R lk True s" "pcs s 0 = PRun None" "wks s 0 = None" "forking s = None"
        "\<forall>i<NMAXPROCS. s_pool s ! i = NoProc \<longleftrightarrow> n \<le> i"
      using Suc by auto
    note I = sched_reach_inv(1)[OF s(1)]
    obtain p where p: "process (cpus s 0) = Some p" by (rule pinv_proc[OF I, of 0]) (use s(2) in auto)
    have len: "length (s_pool s) = NMAXPROCS" by (rule pinvD(1)[OF I])
    have f: "find_available_pid (s_pool s) = Some (of_nat n)" by (rule find_available_pidI[OF len]) (use s(5) Suc.prems in auto)
    have pi: "pid_index (of_nat n) = n" using Suc.prems by (simp add: pid_index_of_nat consts_simps)
    have "sched_step R lk True s (s\<lparr>forking := Some (pidx p), pcs := (pcs s)(0 := PFork (of_nat n))\<rparr>)"
      by (rule sched_step.fork1[OF _ s(3,2) p _ f]) (use s(4) in \<open>simp_all add: consts_simps\<close>)
    note r1 = sched_reach.step[OF s(1) this]
    let ?s1 = "s\<lparr>forking := Some (pidx p), pcs := (pcs s)(0 := PFork (of_nat n))\<rparr>"
    let ?ps = "(s_pool s)[n := Pooling (example_proc (of_nat n))]"
    let ?s2 = "?s1\<lparr>forking := None, s_pool := ?ps, ctx := (ctx ?s1)(pid_index (of_nat n) \<mapsto> KForkret), pcs := (pcs ?s1)(0 := PRun None)\<rparr>"
    have np: "s_pool s ! n = NoProc" using s(5) Suc.prems by simp
    have "put_back_proc (example_proc (of_nat n)) (s_pool s) = Inr ?ps"
      using len Suc.prems pi np by (simp add: example_proc_def put_back_proc_def arr_get_def arr_set_def Let_def)
    then have "sched_step R lk True ?s1 ?s2"
      by (intro sched_step.fork2[where q = "example_proc (of_nat n)" and f = "of_nat n"])
        (use s(3) in \<open>simp_all add: consts_simps example_proc_def\<close>)
    note r2 = sched_reach.step[OF r1 this]
    have "?ps ! i = NoProc \<longleftrightarrow> Suc n \<le> i" if "i < NMAXPROCS" for i
      using s(5) len that by (cases "i = n") auto
    then show ?thesis using r2 s(3) by (intro exI[of _ ?s2]) simp
  qed
qed

theorem pids_run_out_witness:
  "\<exists>k :: unit kernel. cur k \<noteq> None \<and> fork example_funs example_linker k = Inl (Panic ''pid unavailable'')"
proof -
  obtain s where s: "sched_reach riscv_documented id True s" "\<forall>i<NMAXPROCS. s_pool s ! i = NoProc \<longleftrightarrow> NMAXPROCS \<le> i"
    using example_full[of NMAXPROCS riscv_documented id] by (auto simp: consts_simps)
  obtain k :: "unit kernel" where k: "cur k \<noteq> None" "pool k = s_pool s"
    using that[of "(example_kernel \<lparr>alc = Allocator_new, mem = \<lambda>_ _. 0\<rparr> (unbox (example_proc 0)))\<lparr>pool := s_pool s\<rparr>"] by (simp add: example_kernel_def)
  have "fork example_funs example_linker k = Inl (Panic ''pid unavailable'')"
    by (rule pids_run_out[OF s(1) rtranclp.rtrancl_refl]) (use s(2) k in auto)
  then show ?thesis using k(1) by blast
qed


lemma example_waking:
  "\<exists>s. sched_reach R lk True s \<and> wks s 1 = Some (WScan 7 0) \<and> cond s 7 \<and> lks s = [lk 7 \<mapsto> 1] \<and>
    s_pool s = (replicate NMAXPROCS NoProc)[0 := Scheduled]"
proof -
  obtain s where s: "sched_reach R lk True s" "pcs s = (\<lambda>h. PSched 0)(0 := PRun None)" "wks s = (\<lambda>h. None)"
      "s_pool s = (replicate NMAXPROCS NoProc)[0 := Scheduled]" "lks s = Map.empty"
    using example_running by blast
  have "sched_step R lk True s (s\<lparr>lks := (lks s)(lk 7 \<mapsto> 1), cond := (cond s)(7 := True), wks := (wks s)(1 \<mapsto> WScan 7 0)\<rparr>)"
    by (rule sched_step.wake) (use s in \<open>simp_all add: consts_simps calls_def\<close>)
  from sched_reach.step[OF s(1) this] show ?thesis
    by (intro exI conjI, assumption) (use s in simp_all)
qed



theorem scheduler_fair_witness:
  "Some 0 \<in> set (scheduler_turns 5 (replicate 257 (s_pool (sys_init (example_proc 0)))))"
proof (rule scheduler_fair)
  have "pidx (example_proc 0) = 0" by (simp add: example_proc_def pid_index_0)
  then show "\<forall>ps\<in>set (replicate 257 (s_pool (sys_init (example_proc 0)))). pool_labelled ps \<and> runnable (ps ! 0)"
    by (auto simp: pool_labelled_def sys_init_def nth_list_update consts_simps runnable_def example_proc_def split: if_splits)
qed (simp_all add: consts_simps)

theorem fork_pid_race_witness:
  "\<exists>s s' p q. sched_reach riscv_documented id True s \<and> sched_steps riscv_documented id False s s' \<and>
    process (cpus s' 2) = Some p \<and> s_pool s' ! 2 = Pooling q \<and> pid (unbox p) = 2 \<and> pid (unbox q) = 2"
proof -
  obtain s where s: "sched_reach riscv_documented id True s" "pcs s = (\<lambda>h. PSched 0)(0 := PRun None, 1 := PRun None)" "wks s = (\<lambda>h. None)"
      "s_pool s = (replicate NMAXPROCS NoProc)[0 := Scheduled, 1 := Scheduled]"
    using example_two_running by blast
  have f: "find_available_pid (s_pool s) = Some 2"
    using find_available_pidI[of "s_pool s" 2] by (simp add: s(4) consts_simps nth_list_update less_2_cases_iff all_conj_distrib less_Suc_eq numeral_2_eq_2)
  have pi: "pid_index 2 = 2" using pid_index_of_nat[of 2] by simp
  have "\<not> runnable x" if "x \<in> set (s_pool s)" for x
    using that unfolding s(4) by (auto simp: runnable_def dest!: set_update_subset_insert[THEN subsetD])
  then have "first_slot runnable 0 (s_pool s) = None" unfolding first_slot_None_iff by blast
  then have "find_next_runnable_proc 0 (s_pool s) = (s_pool s, None)" by (simp add: find_next_runnable_proc_def)
  then have "scheduler_pick 0 (cpus s 2) (s_pool s) = None" by (simp add: scheduler_pick_def)
  from fork_pid_race[OF s(1), of 0 1 2 0 2, OF _ _ _ _ _ _ _ _ _ _ f this] s(1,2,3) pi show ?thesis
    by (simp add: consts_simps) blast
qed

theorem timer_preempts_in_switch_witness:
  "\<exists>(s :: sys) c. pcs s 0 = PSwtch \<and> timer_preempts (cpus s 0) \<and>
    yield_cpu riscv_documented \<lparr>tp = 0, satp = 0, sip = 0, sie_reg = 0, sstatus = 0, sepc = 0, scause = 0, stval = 0, stvec = 0\<rparr> (cpus s 0) = Inr (c, Some KSched)"
  using timer_preempts_in_switch[OF intr_off_example, of id] by blast

end
