(* ===== verification/Exec.thy ===== *)
theory Exec
  imports Process
begin

text \<open>
  Replacing a program: \<open>exec\<close> of \<open>process/process.rs\<close> end to end, from the bytes of the disk image through
  driver, file system and loader to the memory and registers of the process; and the
  first process, made by \<open>init_proc\<close>.
\<close>

section \<open>Definitions\<close>

text \<open>The disk of the kernel: the driver works on the kernel's memory and on the device.\<close>

definition kdisk :: "vaddrs \<Rightarrow> image \<Rightarrow> usize \<Rightarrow> 'd kernel disk" where
  "kdisk A D ha = \<lparr>
     disk_read = (\<lambda>dev bno k. rbind (sync_read A D ha dev bno (km k, vs k)) (\<lambda>((m, y), b). Inr (k\<lparr>km := m, vs := y\<rparr>, b))),
     drop_buf = (\<lambda>b k. rbind (free_frame (box_addr b) (km k)) (\<lambda>m. Inr (k\<lparr>km := m\<rparr>)))\<rparr>"

text \<open>The driver can serve \<open>n\<close> more reads, and since the state \<open>k0\<close> only free memory has been written.\<close>

definition kready :: "vaddrs \<Rightarrow> image \<Rightarrow> (usize \<rightharpoonup> nat) \<Rightarrow> 'd kernel \<Rightarrow> nat \<Rightarrow> 'd kernel \<Rightarrow> bool" where
  "kready A D M k0 n k \<longleftrightarrow> virtio_ready A D n (km k, vs k) \<and> touches {} (km k0) M (km k) M \<and>
     pool k = pool k0 \<and> cur k = cur k0 \<and> arcs k = arcs k0 \<and> dev k = dev k0"

text \<open>The pages of the user stack, and the bytes that \<open>exec\<close> hands to the loader: the whole blocks of the file.\<close>

definition stack_page :: "usize \<Rightarrow> nat \<Rightarrow> (nat list \<rightharpoonup> usize \<times> (nat \<Rightarrow> usize)) \<Rightarrow> (nat list \<rightharpoonup> usize \<times> (nat \<Rightarrow> usize))" where
  "stack_page sb i U = U(vpath (sb + of_nat i * 4096) \<mapsto> (attr EA_URW OR attr EA_V, \<lambda>_. 0))"

definition exec_bytes :: "u8 list \<Rightarrow> (usize \<Rightarrow> u8) \<Rightarrow> usize \<Rightarrow> u8" where
  "exec_bytes c beyond = (let q = length c div 1024 in buffer_bytes (take (1024 * q) c @ replicate (EXEC_BUF - 1024 * q) 0) beyond)"

section \<open>The user stack\<close>

declare attr.simps [simp del]

lemma URW_user: "page_flags (attr EA_URW)" "is_u (attr EA_URW)"
  using page_flags_attr by (simp_all add: is_bit) (simp add: attr.simps bit_simps)

lemma map_stack_ok:
  assumes u: "uspace r m M" and al: "page_aligned sb" and b: "unat sb + 16384 < 2 ^ 64"
  shows "case map_stack r sb m of
      Inl e \<Rightarrow> e \<in> alloc_panics \<and> free_pages (alc m) < 12
    | Inr (m', sp) \<Rightarrow> sp = sb + 0x4000 \<and> (\<exists>M'. evolves r m M m' M' \<and> upages (mem m') r = fold (stack_page sb) [0..<4] (upages (mem m) r)) \<and>
        maps_only r ((\<lambda>i. vpath (sb + of_nat i * 4096)) ` {..<4}) m m'"
proof -
  let ?f = "\<lambda>i m. rbind (Page_new m) (\<lambda>(m, stack). rbind (mul_chk (of_nat i) PAGE_SIZE) (\<lambda>k.
       rbind (add_chk sb k) (\<lambda>va. Table_map r va stack (attr EA_URW) m)))"
  let ?I = "\<lambda>i m'. (\<exists>M'. evolves r m M m' M' \<and> upages (mem m') r = fold (stack_page sb) [0..<i] (upages (mem m) r)) \<and>
        free_pages (alc m) \<le> free_pages (alc m') + 3 * i \<and> maps_only r ((\<lambda>i. vpath (sb + of_nat i * 4096)) ` {..<i}) m m'"
  let ?E = "{e. e \<in> alloc_panics \<and> free_pages (alc m) < 12}"
  have step: "case ?f i x of Inl e \<Rightarrow> e \<in> ?E | Inr y \<Rightarrow> ?I (Suc i) y" if i: "i < 4" and I: "?I i x" for i x
  proof -
    obtain Mx where ev: "evolves r m M x Mx" and up: "upages (mem x) r = fold (stack_page sb) [0..<i] (upages (mem m) r)"
      and fr: "free_pages (alc m) \<le> free_pages (alc x) + 3 * i" and mp: "maps_only r ((\<lambda>i. vpath (sb + of_nat i * 4096)) ` {..<i}) m x"
      using I by auto
    have ux: "uspace r x Mx" using ev by (simp add: evolves_def)
    have ui: "unat (of_nat i :: usize) = i" using i by (simp add: unat_of_nat)
    have k: "mul_chk (of_nat i :: usize) 4096 = Inr (of_nat i * 4096)" "unat (of_nat i * 4096 :: usize) = i * 4096"
      using i ui by (simp_all add: unat_word_ariths)
    have c: "add_chk sb (of_nat i * 4096) = Inr (sb + of_nat i * 4096)" using k(2) b i by simp
    have pa: "page_aligned (sb + of_nat i * 4096)"
      using page_aligned_offset[of sb i] al b i by (simp add: consts_simps)
    have run: "?f i x = rbind (box_frame (\<lambda>_. 0) x) (\<lambda>(m1, z). Table_map r (sb + of_nat i * 4096) z (attr EA_URW) m1)"
      unfolding Page_new_def consts_simps k c rbind_simps ..
    show ?thesis
    proof (cases "?f i x")
      case (Inl e)
      then show ?thesis using new_upage[OF ux pa URW_user, of "\<lambda>_. 0"] run fr i by (auto split: sum.splits)
    next
      case (Inr y)
      then obtain My where y: "evolves r x Mx y My" "upages (mem y) r = (upages (mem x) r)(vpath (sb + of_nat i * 4096) \<mapsto> (attr EA_URW OR attr EA_V, \<lambda>_. 0))"
          "free_pages (alc x) \<le> free_pages (alc y) + 3" "maps_only r {vpath (sb + of_nat i * 4096)} x y"
        using new_upage[OF ux pa URW_user, of "\<lambda>_. 0"] run by (auto split: sum.splits)
      have "maps_only r ((\<lambda>i. vpath (sb + of_nat i * 4096)) ` {..<Suc i}) m y" by (rule maps_only_trans[OF mp y(4)]) auto
      moreover have "upages (mem y) r = fold (stack_page sb) [0..<Suc i] (upages (mem m) r)" using y(2) up by (simp add: stack_page_def)
      ultimately show ?thesis unfolding Inr sum.case using evolves_trans[OF ev y(1)] y(3) fr by auto
    qed
  qed
  have "?I 0 m" using evolves_refl[OF u] by auto
  then have R: "case rfor 0 4 ?f m of Inl e \<Rightarrow> e \<in> ?E | Inr y \<Rightarrow> ?I (0 + 4) y"
    by (rule rfor_result[where P = ?I]) (use step in simp)
  have "mul_chk PAGE_SIZE (of_nat USER_STACK_PAGE) = Inr 0x4000" "add_chk sb 0x4000 = Inr (sb + 0x4000)"
    using b by (simp_all add: USER_STACK_PAGE_def consts_simps mul_chk_def)
  then have run: "map_stack r sb m = rbind (rfor 0 4 ?f m) (\<lambda>m'. Inr (m', sb + 0x4000))"
    unfolding map_stack_def USER_STACK_PAGE_def by (simp add: USER_STACK_PAGE_def)
  show ?thesis
  proof (cases "rfor 0 4 ?f m")
    case (Inl e)
    then show ?thesis using R run by simp
  next
    case (Inr y)
    show ?thesis using R unfolding run Inr rbind_simps sum.case prod.case by auto
  qed
qed

section \<open>Reading the program\<close>

lemma copy_block:
  assumes "length blk = 1024" "i + 1024 \<le> length content"
  shows "rfor 0 1024 (\<lambda>j c. rbind (arr_get blk j) (arr_set c (i + j))) content = Inr (take i content @ blk @ drop (i + 1024) content)"
proof -
  have "rfor j n (\<lambda>j c. rbind (arr_get blk j) (arr_set c (i + j))) c = Inr (take (i + j) c @ slice j n blk @ drop (i + j + n) c)"
    if "j + n \<le> length blk" "i + j + n \<le> length c" for j n c
    using that
  proof (induction n arbitrary: j c)
    case 0
    then show ?case by (simp add: slice_def)
  next
    case (Suc n)
    have "rfor (Suc j) n (\<lambda>j c. rbind (arr_get blk j) (arr_set c (i + j))) (c[i + j := blk ! j]) =
      Inr (take (i + Suc j) (c[i + j := blk ! j]) @ slice (Suc j) n blk @ drop (i + Suc j + n) (c[i + j := blk ! j]))"
      by (rule Suc.IH) (use Suc.prems in simp_all)
    moreover have "slice j (Suc n) blk = blk ! j # slice (Suc j) n blk"
      using Suc.prems(1) by (simp add: slice_def Cons_nth_drop_Suc[symmetric])
    ultimately show ?case using Suc.prems by (simp add: take_Suc_conv_app_nth)
  qed
  from this[of 0 1024 content] show ?thesis using assms by (simp add: slice_def)
qed

text \<open>Where the loop is after \<open>j\<close> whole blocks of the file \<open>c\<close>.\<close>

definition exec_at :: "image \<Rightarrow> u8 list \<Rightarrow> nat \<Rightarrow> nat \<Rightarrow> FsFile \<Rightarrow> u8 list \<Rightarrow> bool" where
  "exec_at D c o0 j f blk \<longleftrightarrow> readable f \<and> f_offset f = of_nat o0 \<and> f_sz f = of_nat (length c) \<and> fst (rw_offset f) = of_nat (1024 * j) \<and>
     o0 mod 1024 = 0 \<and> o0 + length c < 2 ^ 32 \<and> (\<forall>x<length c. D (o0 + x) = c ! x) \<and> length blk = 1024"

context block_device
begin

lemma exec_read:
  assumes a: "exec_at D c o0 j f blk" and j: "1024 * j \<le> length c" and r: "ready (Suc r) w"
  defines "n \<equiv> min (length c - 1024 * j) 1024"
  shows "\<exists>w' f' blk'. FsFile_read K f blk w = Inr (w', f', blk', of_nat n) \<and> ready r w' \<and>
    (n = 1024 \<longrightarrow> blk' = slice (1024 * j) 1024 c \<and> exec_at D c o0 (Suc j) f' blk')"
proof -
  have A: "readable f" "f_offset f = of_nat o0" "f_sz f = of_nat (length c)" "fst (rw_offset f) = of_nat (1024 * j)"
    "o0 mod 1024 = 0" "o0 + length c < 2 ^ 32" "\<And>x. x < length c \<Longrightarrow> D (o0 + x) = c ! x" "length blk = 1024"
    using a by (auto simp: exec_at_def)
  obtain w' where w': "FsFile_read K f blk w = Inr (w', f\<lparr>rw_offset := (of_nat (1024 * j + n), snd (rw_offset f))\<rparr>,
      map (\<lambda>x. D (1024 * ((o0 + 1024 * j) div 1024) + x)) [0..<n] @ drop n blk, of_nat n)" "ready r w'"
    using FsFile_read_block[OF A(1-4) j A(6) _ _ _ r, of n blk] A(8) unfolding n_def by auto
  obtain k where "o0 = 1024 * k" using A(5) by blast
  then have o: "1024 * ((o0 + 1024 * j) div 1024) = o0 + 1024 * j" by simp
  have "map (\<lambda>x. D (o0 + 1024 * j + x)) [0..<1024] @ drop 1024 blk = slice (1024 * j) 1024 c" if n: "n = 1024"
  proof (rule nth_equalityI)
    have l: "1024 * j + 1024 \<le> length c" using n unfolding n_def by auto
    then show "length (map (\<lambda>x. D (o0 + 1024 * j + x)) [0..<1024] @ drop 1024 blk) = length (slice (1024 * j) 1024 c)"
      using A(8) by (simp add: slice_def)
    fix i assume "i < length (map (\<lambda>x. D (o0 + 1024 * j + x)) [0..<1024] @ drop 1024 blk)"
    then have i: "i < 1024" using A(8) by simp
    then have "D (o0 + (1024 * j + i)) = c ! (1024 * j + i)" using l by (intro A(7)) simp
    then show "(map (\<lambda>x. D (o0 + 1024 * j + x)) [0..<1024] @ drop 1024 blk) ! i = slice (1024 * j) 1024 c ! i"
      using i l by (simp add: nth_append slice_nth add.assoc)
  qed
  moreover have "length (slice (1024 * j) 1024 c) = 1024" if n: "n = 1024" using n unfolding n_def by (auto simp: slice_def)
  ultimately show ?thesis using w' A unfolding o
    by (intro exI[of _ w'] exI[of _ "f\<lparr>rw_offset := (of_nat (1024 * j + n), snd (rw_offset f))\<rparr>"] exI conjI) (auto simp: exec_at_def algebra_simps)
qed

lemma exec_step:
  assumes a: "exec_at D c o0 j f blk" and j: "1024 * Suc j \<le> length c" "j < 127" and r: "ready (Suc r) w"
  shows "\<exists>w' f' blk'. ready r w' \<and> exec_at D c o0 (Suc j) f' blk' \<and>
    exec_loop K f blk (take (1024 * j) c @ replicate (EXEC_BUF - 1024 * j) 0) (1024 * j) w =
      (if j = 126 then Inl (Panic ''elf file too large!'')
       else exec_loop K f' blk' (take (1024 * Suc j) c @ replicate (EXEC_BUF - 1024 * Suc j) 0) (1024 * Suc j) w')"
proof -
  have n: "min (length c - 1024 * j) 1024 = 1024" using j by simp
  obtain w' f' blk' where R: "FsFile_read K f blk w = Inr (w', f', blk', of_nat 1024)" "ready r w'"
      "blk' = slice (1024 * j) 1024 c" "exec_at D c o0 (Suc j) f' blk'"
    using exec_read[OF a _ r] j(1) unfolding n by auto
  let ?c = "take (1024 * j) c @ replicate (EXEC_BUF - 1024 * j) 0"
  have len: "length blk' = 1024" using R(4) by (simp add: exec_at_def)
  have lt: "length (take (1024 * j) c) = 1024 * j" using j(1) by simp
  have d: "drop (1024 * j + 1024) ?c = replicate (EXEC_BUF - 1024 * Suc j) 0"
    unfolding drop_append lt by (simp add: EXEC_BUF_def)
  have t: "take (1024 * j) ?c = take (1024 * j) c" using lt by simp
  have "take (1024 * Suc j) c = take (1024 * j) c @ blk'" unfolding R(3) slice_def by (simp add: take_add[symmetric] add.commute)
  then have cp: "rfor 0 1024 (\<lambda>ja ca. rbind (arr_get blk' ja) (arr_set ca (1024 * j + ja))) ?c =
      Inr (take (1024 * Suc j) c @ replicate (EXEC_BUF - 1024 * Suc j) 0)"
    using copy_block[OF len, of "1024 * j" ?c] lt j unfolding d t by (simp add: EXEC_BUF_def)
  have e: "EXEC_BUF \<le> 1024 * j + 1024 + 1024 \<longleftrightarrow> j = 126" using j(2) by (auto simp: EXEC_BUF_def)
  have "exec_loop K f blk ?c (1024 * j) w = (if j = 126 then Inl (Panic ''elf file too large!'')
       else exec_loop K f' blk' (take (1024 * Suc j) c @ replicate (EXEC_BUF - 1024 * Suc j) 0) (1024 * Suc j) w')"
    by (subst exec_loop.simps) (simp only: R(1) rbind_simps prod.case cp e of_nat_numeral if_True mult_Suc_right add.commute[of 1024] refl)
  then show ?thesis using R(2,4) by blast
qed

lemma exec_loop_ok:
  assumes "exec_at D c o0 j f blk" "j \<le> length c div 1024" "length c div 1024 \<le> 126" "ready (Suc (length c div 1024 - j) + r) w"
  shows "\<exists>w'. ready r w' \<and> exec_loop K f blk (take (1024 * j) c @ replicate (EXEC_BUF - 1024 * j) 0) (1024 * j) w =
    Inr (w', take (1024 * (length c div 1024)) c @ replicate (EXEC_BUF - 1024 * (length c div 1024)) 0)"
  using assms
proof (induction "length c div 1024 - j" arbitrary: j f blk w)
  case 0
  then have j: "j = length c div 1024" by simp
  define n where "n = min (length c - 1024 * j) 1024"
  have n: "n < 1024" unfolding n_def j using mod_less_divisor[of 1024 "length c"] by (simp add: minus_mult_div_eq_mod[symmetric])
  obtain w' f' blk' where R: "FsFile_read K f blk w = Inr (w', f', blk', of_nat n)" "ready r w'"
    using exec_read[OF 0(2), of r w] 0(5) unfolding j n_def by auto
  have "of_nat n \<noteq> (1024 :: i32)" using n by (simp add: word_unat_eq_iff unat_of_nat)
  then show ?case using R unfolding j[symmetric] by (subst exec_loop.simps) simp
next
  case (Suc x)
  then have j: "j < length c div 1024" "1024 * Suc j \<le> length c" "j < 126" by simp_all
  have "Suc (length c div 1024 - j) + r = Suc (Suc (length c div 1024 - Suc j) + r)" using j(1) by simp
  then obtain w' f' blk' where R: "ready (Suc (length c div 1024 - Suc j) + r) w'" "exec_at D c o0 (Suc j) f' blk'"
      "exec_loop K f blk (take (1024 * j) c @ replicate (EXEC_BUF - 1024 * j) 0) (1024 * j) w =
        exec_loop K f' blk' (take (1024 * Suc j) c @ replicate (EXEC_BUF - 1024 * Suc j) 0) (1024 * Suc j) w'"
    using exec_step[OF Suc.prems(1) j(2), of "Suc (length c div 1024 - Suc j) + r" w] j(3) Suc.prems(4) by auto
  show ?case unfolding R(3) by (rule Suc.hyps(1)[OF _ R(2) _ Suc.prems(3) R(1)]) (use j Suc.hyps(2) in simp_all)
qed

end

section \<open>The kernel's disk\<close>

lemma kdisk_read:
  assumes "kready A D M k0 (Suc n) k"
  shows "\<exists>k1 b k2. disk_read (kdisk A D ha) d bno k = Inr (k1, b) \<and> b_data (unbox b) = disk_block D (ucast bno * 2) \<and>
    drop_buf (kdisk A D ha) b k1 = Inr k2 \<and> kready A D M k0 n k2"
proof -
  have K: "virtio_ready A D (Suc n) (km k, vs k)" "touches {} (km k0) M (km k) M" "pool k = pool k0" "cur k = cur k0" "arcs k = arcs k0" "dev k = dev k0"
    using assms by (auto simp: kready_def)
  obtain m1 y b m2 where r: "sync_read A D ha d bno (km k, vs k) = Inr ((m1, y), b)" "b_data (unbox b) = disk_block D (ucast bno * 2)"
      "free_frame (box_addr b) m1 = Inr m2" "virtio_ready A D n (m2, y)" "box_frame (\<lambda>_. 0) (km k) = Inr (m1, box_addr b)"
    using sync_read_ok[OF K(1), of ha d bno] by blast
  have o: "owns (alc (km k)) M" by (rule touchesD(1)[OF K(2)])
  note z = box_frame_ok(1)[OF o r(5)]
  obtain m2' where m2': "free_frame (box_addr b) m1 = Inr m2'" "touches {} (km k) M m2' M"
    by (rule free_touches[OF grows_touches[OF grows_box[OF o r(5)]] z z])
  have "touches {} (km k0) M m2 M" by (rule touches_trans[OF K(2), of "{}" m2 M]) (use m2' r(3) in simp_all)
  then show ?thesis using r K(3-) by (auto simp: kdisk_def kready_def)
qed

interpretation kd: block_device "kdisk A D ha" D "kready A D M k0"
  by unfold_locales (rule kdisk_read)

text \<open>Opening a file of the image and reading its whole blocks.\<close>

lemma exec_reads:
  assumes fs: "fs_files_ok fs" "mkfs fs = Some D" "t < length fs" "fsname (fst (fs ! t)) = Some fpath"
    and q: "length (snd (fs ! t)) div 1024 \<le> 126"
    and r: "kready A D M k0 (Suc t + Suc (length (snd (fs ! t)) div 1024)) k"
  shows "\<exists>k1 f k2. FsFile_open (kdisk A D ha) fpath 0 k = Inr (k1, f) \<and>
    exec_loop (kdisk A D ha) f (replicate 1024 0) (replicate EXEC_BUF 0) 0 k1 =
      Inr (k2, take (1024 * (length (snd (fs ! t)) div 1024)) (snd (fs ! t)) @ replicate (EXEC_BUF - 1024 * (length (snd (fs ! t)) div 1024)) 0) \<and>
    kready A D M k0 0 k2"
proof -
  let ?c = "snd (fs ! t)"
  obtain o0 k1 where o: "FsFile_open (kdisk A D ha) fpath 0 k =
      Inr (k1, \<lparr>f_offset = of_nat o0, f_sz = of_nat (length ?c), rw_offset = (0, 0), readable = True, writable = True\<rparr>)"
    "kready A D M k0 (Suc (length ?c div 1024)) k1" "o0 mod 1024 = 0" "o0 + length ?c < 2 ^ 32" "\<And>x. x < length ?c \<Longrightarrow> D (o0 + x) = ?c ! x"
    using kd.open_mkfs[OF fs r, of ha 0] by (elim exE conjE) metis
  let ?f = "\<lparr>f_offset = of_nat o0, f_sz = of_nat (length ?c), rw_offset = (0, 0), readable = True, writable = True\<rparr> :: FsFile"
  have at: "exec_at D ?c o0 0 ?f (replicate 1024 0)" using o by (simp add: exec_at_def)
  have "kready A D M k0 (Suc (length ?c div 1024 - 0) + 0) k1" using o(2) by simp
  from kd.exec_loop_ok[OF at _ q this] o(1) show ?thesis by auto
qed

section \<open>Processes under a change of memory\<close>

lemma proc_ok_cong:
  assumes p: "proc_ok l m M p" and o: "owns (alc m') M'" "base_addr (alc m') = base_addr (alc m)"
    and M: "\<And>x n. x \<in> pframes (mem m) p \<Longrightarrow> M x = Some n \<Longrightarrow> M' x = Some n"
    and c: "\<And>x. x \<in> pframes (mem m) p \<Longrightarrow> mem m' x = mem m x"
  shows "proc_ok l m' M' p" "upages (mem m') (pgtable p) = upages (mem m) (pgtable p)" "pframes (mem m') p = pframes (mem m) p"
proof -
  note D = proc_okD[OF p]
  have f: "x \<in> pframes (mem m) p" if "x \<in> uframes (mem m) (pgtable p)" for x using that by (simp add: pframes_def)
  have t: "mem m' x = mem m x" if "x \<in> tables (mem m) (pgtable p)" for x using that c f by (auto simp: uframes_def)
  note U = uspace_cong[OF D(1) o(1,2) M[OF f] t]
  show "proc_ok l m' M' p" using p U(1,2,4) M D(2-4) by (simp add: proc_ok_def pframes_def)
  show "upages (mem m') (pgtable p) = upages (mem m) (pgtable p)" using U(5) c f by simp
  show "pframes (mem m') p = pframes (mem m) p" using U(4) by (simp add: pframes_def)
qed

lemma free_pages_mono:
  assumes "owns A M" "owns A' M'" "M' \<subseteq>\<^sub>m M"
  shows "free_pages A \<le> free_pages A'"
proof -
  have "(\<Sum>p\<in>dom M'. the (M' p)) = (\<Sum>p\<in>dom M'. the (M p))" using assms(3) by (intro sum.cong) (auto simp: map_le_def)
  also have "\<dots> \<le> (\<Sum>p\<in>dom M. the (M p))"
    by (rule sum_mono2[OF owns_count(1)[OF assms(1)] map_le_implies_dom_le[OF assms(3)]]) simp
  finally show ?thesis using owns_count(2)[OF assms(1)] owns_count(2)[OF assms(2)] by simp
qed

lemma stack_paths: "vpath TRAMPOLINE_START \<notin> (\<lambda>i. vpath (0x80001000 + of_nat i * 4096)) ` {..<4}"
  "vpath TRAPFRAME_START \<notin> (\<lambda>i. vpath (0x80001000 + of_nat i * 4096)) ` {..<4}"
proof -
  have "{..<4} = {0, 1, 2, 3 :: nat}" by auto
  moreover have "vpath 0x80001000 = [2, 0, 1]" "vpath 0x80002000 = [2, 0, 2]" "vpath 0x80003000 = [2, 0, 3]" "vpath 0x80004000 = [2, 0, 4]"
    by code_simp+
  ultimately show "vpath TRAMPOLINE_START \<notin> (\<lambda>i. vpath (0x80001000 + of_nat i * 4096)) ` {..<4}"
    "vpath TRAPFRAME_START \<notin> (\<lambda>i. vpath (0x80001000 + of_nat i * 4096)) ` {..<4}"
    by (simp_all add: vpath_TRAMP)
qed

text \<open>The part of \<open>exec\<close> that replaces the memory of the process.\<close>

definition replaced :: "linker \<Rightarrow> (usize \<Rightarrow> u8) \<Rightarrow> Process \<Rightarrow> kmem \<Rightarrow> (usize \<rightharpoonup> nat) \<Rightarrow> kmem \<Rightarrow> (usize \<rightharpoonup> nat) \<Rightarrow> bool" where
  "replaced l a p m M m' M' \<longleftrightarrow> proc_ok l m' M' p \<and> base_addr (alc m') = base_addr (alc m) \<and>
     upages (mem m') (pgtable p) = fold (stack_page 0x80001000) [0..<4] (fold (seg_page a) (concat (map seg_pages (headers a))) Map.empty) \<and>
     (\<forall>x n. M x = Some n \<longrightarrow> x \<notin> uframes (mem m) (pgtable p) \<longrightarrow> M' x = Some n) \<and>
     (\<forall>x. safe (base_addr (alc m)) M x \<longrightarrow> x \<notin> uframes (mem m) (pgtable p) \<longrightarrow> mem m' x = mem m x) \<and>
     uframes (mem m') (pgtable p) \<subseteq> uframes (mem m) (pgtable p) \<union> (dom M' - dom M)"

lemma exec_replaces:
  assumes p: "proc_ok l m M p" and l: "page_aligned (TRAMPOLINE_TEXT_START l)"
    and e: "magic (elf_header a 0) = ELF_MAGIC" "\<forall>h\<in>set (headers a). header_ok h"
    and n: "3 * length (concat (map seg_pages (headers a))) + 12 \<le> free_pages (alc m)"
    and kp: "vpath TRAMPOLINE_START \<notin> vpath ` fst ` set (concat (map seg_pages (headers a)))"
      "vpath TRAPFRAME_START \<notin> vpath ` fst ` set (concat (map seg_pages (headers a)))"
  obtains m3 m4 m' M' where "unmap_user 3 (pgtable p) m = Inr m3" "parse_elf a (pgtable p) m3 = Inr (m4, entry (elf_header a 0))"
    "map_stack (pgtable p) 0x80001000 m4 = Inr (m', 0x80005000)" "replaced l a p m M m' M'"
proof -
  let ?r = "pgtable p" and ?ps = "concat (map seg_pages (headers a))"
  note P = proc_okD[OF p]
  obtain m3 M3 where m3: "unmap_user 3 ?r m = Inr m3" "uspace ?r m3 M3" "upages (mem m3) ?r = Map.empty"
      "lookup (mem m3) ?r = (\<lambda>q. if upath (mem m) ?r q then None else lookup (mem m) ?r q)"
      "M3 = (\<lambda>x. if \<exists>q e. lookup (mem m) ?r q = Some e \<and> is_u e \<and> Entry_paddr e = x then None else M x)"
      "\<forall>x. x \<notin> tables (mem m) ?r \<longrightarrow> mem m3 x = mem m x" "base_addr (alc m3) = base_addr (alc m)"
      "tables (mem m3) ?r = tables (mem m) ?r"
    by (rule unmap_user_ok[OF P(1) order.refl])
  have uf3: "uframes (mem m3) ?r \<subseteq> uframes (mem m) ?r" unfolding uframes_def m3(8) by (auto simp: m3(4) split: if_splits)
  have M3le: "M3 \<subseteq>\<^sub>m M" unfolding m3(5) map_le_def dom_def by simp
  have M3k: "M3 x = M x" if "x \<notin> uframes (mem m) ?r" for x using that by (auto simp: m3(5) uframes_def)
  have free: "free_pages (alc m) \<le> free_pages (alc m3)"
    by (rule free_pages_mono[OF uspace_owns[OF P(1)] uspace_owns[OF m3(2)] M3le])
  have good: "elf_good a m3" using e n free by (simp add: elf_good_def)
  obtain m4 M4 where m4: "parse_elf a ?r m3 = Inr (m4, entry (elf_header a 0))" "evolves ?r m3 M3 m4 M4"
      "upages (mem m4) ?r = fold (seg_page a) ?ps (upages (mem m3) ?r)" "free_pages (alc m3) \<le> free_pages (alc m4) + 3 * length ?ps"
      "maps_only ?r (vpath ` fst ` set ?ps) m3 m4"
    using parse_elf_ok[OF m3(2), of a] good by (auto split: sum.splits)
  have u4: "uspace ?r m4 M4" using m4(2) by (simp add: evolves_def)
  have "12 \<le> free_pages (alc m4)" using m4(4) n free by linarith
  moreover have "page_aligned 0x80001000" by (simp add: page_aligned_def consts_simps)
  ultimately obtain m5 M5 where m5: "map_stack ?r 0x80001000 m4 = Inr (m5, 0x80005000)" "evolves ?r m4 M4 m5 M5"
      "upages (mem m5) ?r = fold (stack_page 0x80001000) [0..<4] (upages (mem m4) ?r)"
      "maps_only ?r ((\<lambda>i. vpath (0x80001000 + of_nat i * 4096)) ` {..<4}) m4 m5"
    using map_stack_ok[OF u4, of "0x80001000"] by (auto split: sum.splits)
  note ev = evolves_trans[OF m4(2) m5(2)]
  have t: "touches (uframes (mem m3) ?r) m3 M3 m5 M5" and u5: "uspace ?r m5 M5" and uf5: "uframes (mem m5) ?r \<subseteq> uframes (mem m3) ?r \<union> (dom M5 - dom M3)"
    using ev by (auto simp: evolves_def)
  have lk: "lookup (mem m5) ?r q = lookup (mem m) ?r q"
    if "q \<notin> vpath ` fst ` set ?ps" "q \<notin> (\<lambda>i. vpath (0x80001000 + of_nat i * 4096)) ` {..<4}" "\<not> upath (mem m) ?r q" for q
    using m4(5) m5(4) that by (simp add: maps_only_def m3(4))
  have keepM: "M5 x = Some n" if "M x = Some n" "x \<notin> uframes (mem m) ?r" for x n
    using map_le_Some[OF touchesD(2)[OF t], of x n] M3k[OF that(2)] that(1) by simp
  have keepm: "mem m5 x = mem m x" if "safe (base_addr (alc m)) M x" "x \<notin> uframes (mem m) ?r" for x
  proof -
    have "safe (base_addr (alc m3)) M3 x" using that M3k[OF that(2)] m3(7) by (auto simp: safe_def)
    then have "mem m5 x = mem m3 x" using touchesD(5)[OF t] uf3 that(2) by blast
    also have "\<dots> = mem m x" using m3(6) that(2) by (simp add: uframes_def)
    finally show ?thesis .
  qed
  have uf: "uframes (mem m5) ?r \<subseteq> uframes (mem m) ?r \<union> (dom M5 - dom M)"
  proof
    fix x assume "x \<in> uframes (mem m5) ?r"
    then consider "x \<in> uframes (mem m) ?r" | "x \<in> dom M5" "x \<notin> dom M3" "x \<notin> uframes (mem m) ?r" using uf5 uf3 by blast
    then show "x \<in> uframes (mem m) ?r \<union> (dom M5 - dom M)" using M3k[of x] by cases (auto simp: dom_def)
  qed
  have nu: "\<not> upath (mem m) ?r (vpath TRAMPOLINE_START)" "\<not> upath (mem m) ?r (vpath TRAPFRAME_START)"
    using proc_ok_upages[OF p l] by (auto simp: upath_def upages_def)
  have out: "x \<notin> uframes (mem m5) ?r" if "M x = Some n" "x \<notin> uframes (mem m) ?r" for x n
    using uf that by auto
  have "proc_ok l m5 M5 p"
    using p u5 keepM[OF P(2,5)] keepM[OF P(3,6)] keepM[OF P(4,7)] out[OF P(2,5)] out[OF P(3,6)] out[OF P(4,7)]
      lk[OF kp(1) stack_paths(1) nu(1)] lk[OF kp(2) stack_paths(2) nu(2)]
    by (simp add: proc_ok_def)
  moreover have "upages (mem m5) ?r = fold (stack_page 0x80001000) [0..<4] (fold (seg_page a) ?ps Map.empty)"
    using m5(3) m4(3) m3(3) by simp
  moreover have "base_addr (alc m5) = base_addr (alc m)" using touchesD(3)[OF t] m3(7) by simp
  ultimately have "replaced l a p m M m5 M5" using keepM keepm uf unfolding replaced_def by blast
  then show thesis using that m3(1) m4(1) m5(1) by blast
qed

text \<open>The rest of \<open>exec\<close>: the registers are set and the buffer is given back.\<close>

lemma exec_finishes:
  assumes r: "replaced l a p m M m5 M5" and p: "proc_ok l m M p" and b: "M buf = Some n" "buf \<notin> pframes (mem m) p"
  obtains al where "deallocate (alc m5) buf = Inr al"
    "\<And>m'. m' = (set_tf (trapframe p) (TF_regs R_sp) sp (set_tf (trapframe p) TF_epc ent m5))\<lparr>alc := al\<rparr> \<Longrightarrow>
       proc_ok l m' (M5(buf := None)) p \<and> upages (mem m') (pgtable p) = upages (mem m5) (pgtable p) \<and>
       uframes (mem m') (pgtable p) = uframes (mem m5) (pgtable p) \<and> get_tf (trapframe p) TF_epc m' = ent \<and> get_tf (trapframe p) (TF_regs R_sp) m' = sp"
proof -
  have p5: "proc_ok l m5 M5 p" and bu: "buf \<notin> uframes (mem m) (pgtable p)" and bp: "buf \<noteq> trapframe p" "buf \<noteq> p_context p" "buf \<noteq> kstack p"
    using r b(2) by (auto simp: replaced_def pframes_def)
  note P = proc_okD[OF p5]
  have M5: "M5 buf = Some n" using r b(1) bu by (simp add: replaced_def)
  then obtain al where al: "deallocate (alc m5) buf = Inr al" "owns al (M5(buf := None))"
    using fs.dealloc_old[OF uspace_owns[OF P(1)], of buf n] by blast
  then have base: "base_addr al = base_addr (alc m5)" by (auto simp: deallocate_def rbind_eq_Inr)
  let ?m' = "(set_tf (trapframe p) (TF_regs R_sp) sp (set_tf (trapframe p) TF_epc ent m5))\<lparr>alc := al\<rparr>"
  have uf: "buf \<notin> uframes (mem m5) (pgtable p)" using r bu b(1) by (auto simp: replaced_def)
  have ch: "mem ?m' x = mem m5 x" if "x \<noteq> trapframe p" for x using that by (simp add: set_tf_def)
  have tb: "mem ?m' x = mem m5 x" if "x \<in> tables (mem m5) (pgtable p)" for x
  proof (rule ch)
    show "x \<noteq> trapframe p" using that P(5) by (auto simp: uframes_def)
  qed
  have MM: "(M5(buf := None)) x = Some j" if "x \<in> uframes (mem m5) (pgtable p)" "M5 x = Some j" for x j using that uf by auto
  note U = uspace_cong[OF P(1), of ?m' "M5(buf := None)", OF _ _ MM tb]
  have "proc_ok l ?m' (M5(buf := None)) p" using p5 U(1,2,4) al(2) base bp by (simp add: proc_ok_def)
  moreover have "uframes (mem ?m') (pgtable p) = uframes (mem m5) (pgtable p)" using U(4) al(2) base by simp
  moreover have "upages (mem ?m') (pgtable p) = upages (mem m5) (pgtable p)"
  proof (rule U(5))
    show "mem ?m' x = mem m5 x" if "x \<in> uframes (mem m5) (pgtable p)" for x using that P(5) by (intro ch) auto
  qed (use al(2) base in simp_all)
  moreover have "get_tf (trapframe p) TF_epc ?m' = ent" "get_tf (trapframe p) (TF_regs R_sp) ?m' = sp"
    by (simp_all add: get_tf_def set_tf_def)
  ultimately show thesis using that al(1) by blast
qed

lemma exec_others:
  assumes r: "replaced l a p m M m5 M5" and p: "proc_ok l m M p" and b: "M buf = Some n" "buf \<notin> pframes (mem m) q"
    and q: "proc_ok l m M q" "pframes (mem m) q \<inter> pframes (mem m) p = {}"
    and m': "proc_ok l m' (M5(buf := None)) p" "base_addr (alc m') = base_addr (alc m5)" "\<And>x. x \<noteq> trapframe p \<Longrightarrow> mem m' x = mem m5 x"
      "uframes (mem m') (pgtable p) = uframes (mem m5) (pgtable p)"
  shows "proc_ok l m' (M5(buf := None)) q" "upages (mem m') (pgtable q) = upages (mem m) (pgtable q)"
    "mem m' (trapframe q) = mem m (trapframe q)" "pframes (mem m') q \<inter> pframes (mem m') p = {}"
proof -
  have out: "x \<notin> uframes (mem m) (pgtable p)" "x \<noteq> trapframe p" "x \<noteq> buf" if "x \<in> pframes (mem m) q" for x
    using that q(2) b(2) by (auto simp: pframes_def)
  have c: "mem m' x = mem m x" if "x \<in> pframes (mem m) q" for x
    using r out[OF that] pframes_safe[OF q(1) that] m'(3)[of x] by (simp add: replaced_def)
  have M: "(M5(buf := None)) x = Some j" if "x \<in> pframes (mem m) q" "M x = Some j" for x j
    using r out[OF that(1)] that(2) by (simp add: replaced_def)
  have o: "owns (alc m') (M5(buf := None))" by (rule uspace_owns[OF proc_okD(1)[OF m'(1)]])
  have base: "base_addr (alc m') = base_addr (alc m)" using m'(2) r by (simp add: replaced_def)
  note C = proc_ok_cong[OF q(1) o base M c]
  show "proc_ok l m' (M5(buf := None)) q" "upages (mem m') (pgtable q) = upages (mem m) (pgtable q)" by (rule C, assumption+)+
  show "mem m' (trapframe q) = mem m (trapframe q)" by (rule c) (simp add: pframes_def)
  have "x \<notin> pframes (mem m') p" if x: "x \<in> pframes (mem m) q" for x
  proof -
    have "x \<notin> dom M5 - dom M"
    proof
      assume d: "x \<in> dom M5 - dom M"
      then have "(M5(buf := None)) x \<noteq> None" using out(3)[OF x] by auto
      then have "base_addr (alc m') \<le> x" using owned_above_base[OF o] by auto
      then show False using pframes_safe[OF q(1) x] d base by (auto simp: safe_def word_le_nat_alt)
    qed
    then have "x \<notin> uframes (mem m5) (pgtable p)" using r out(1)[OF x] by (auto simp: replaced_def)
    moreover have "x \<notin> {trapframe p, p_context p, kstack p}" using x q(2) by (auto simp: pframes_def)
    ultimately show ?thesis by (simp add: pframes_def m'(4))
  qed
  then show "pframes (mem m') q \<inter> pframes (mem m') p = {}" using C(3) by auto
qed

section \<open>Replacing the program\<close>

lemma exec_ok:
  assumes fs: "fs_files_ok fs" "mkfs fs = Some D" "t < length fs" "fsname (fst (fs ! t)) = Some fpath"
    and c: "c = snd (fs ! t)" "length c div 1024 \<le> 126" and a: "a = exec_bytes c beyond"
    and p: "cur k = Some pb" "proc_ok l (km k) M (unbox pb)" and l: "page_aligned (TRAMPOLINE_TEXT_START l)"
    and al: "allocate (alc (km k)) 131072 = Inr (al, buf)"
    and v: "virtio_ready A D (Suc t + Suc (length c div 1024)) ((km k)\<lparr>alc := al\<rparr>, vs k)"
    and e: "magic (elf_header a 0) = ELF_MAGIC" "\<forall>h\<in>set (headers a). header_ok h"
      "3 * length (concat (map seg_pages (headers a))) + 12 \<le> free_pages al"
      "vpath TRAMPOLINE_START \<notin> vpath ` fst ` set (concat (map seg_pages (headers a)))"
      "vpath TRAPFRAME_START \<notin> vpath ` fst ` set (concat (map seg_pages (headers a)))"
  obtains k' M' where "exec (kdisk A D ha) beyond fpath k = Inr k'" "proc_ok l (km k') M' (unbox pb)"
    "cur k' = cur k" "pool k' = pool k" "arcs k' = arcs k"
    "upages (mem (km k')) (pgtable (unbox pb)) =
       fold (stack_page 0x80001000) [0..<4] (fold (seg_page a) (concat (map seg_pages (headers a))) Map.empty)"
    "get_tf (trapframe (unbox pb)) TF_epc (km k') = entry (elf_header a 0)" "get_tf (trapframe (unbox pb)) (TF_regs R_sp) (km k') = 0x80005000"
    "\<forall>q. proc_ok l (km k) M q \<longrightarrow> pframes (mem (km k)) q \<inter> pframes (mem (km k)) (unbox pb) = {} \<longrightarrow>
       proc_ok l (km k') M' q \<and> upages (mem (km k')) (pgtable q) = upages (mem (km k)) (pgtable q) \<and>
       mem (km k') (trapframe q) = mem (km k) (trapframe q) \<and> pframes (mem (km k')) q \<inter> pframes (mem (km k')) (unbox pb) = {}"
proof -
  let ?p = "unbox pb" and ?k1 = "k\<lparr>km := (km k)\<lparr>alc := al\<rparr>\<rparr>" and ?M1 = "M(buf \<mapsto> pages_for 131072)"
  have o: "owns (alc (km k)) M" by (rule uspace_owns[OF proc_okD(1)[OF p(2)]])
  have t1: "touches {} (km k) M (km ?k1) ?M1" and b0: "M buf = None" using alloc_touches[OF o al] by simp_all
  have r1: "kready A D ?M1 ?k1 (Suc t + Suc (length (snd (fs ! t)) div 1024)) ?k1"
    using v c(1) touches_refl[OF touchesD(1)[OF t1]] by (simp add: kready_def)
  obtain k2 f k3 where rd: "FsFile_open (kdisk A D ha) fpath 0 ?k1 = Inr (k2, f)"
    "exec_loop (kdisk A D ha) f (replicate 1024 0) (replicate EXEC_BUF 0) 0 k2 =
       Inr (k3, take (1024 * (length c div 1024)) c @ replicate (EXEC_BUF - 1024 * (length c div 1024)) 0)" "kready A D ?M1 ?k1 0 k3"
    using exec_reads[OF fs _ r1, of ha] c by blast
  have t3: "touches {} (km k) M (km k3) ?M1" and same: "cur k3 = cur k" "pool k3 = pool k" "arcs k3 = arcs k"
    using rd(3) touches_trans[OF t1, of "{}" "km k3" ?M1] by (simp_all add: kready_def)
  note P3 = proc_ok_touches[OF p(2) t3 Int_empty_left]
  have "free_pages al \<le> free_pages (alc (km k3))"
    using free_pages_mono[OF touchesD(1)[OF t1] touchesD(1)[OF t3]] by simp
  then have n: "3 * length (concat (map seg_pages (headers a))) + 12 \<le> free_pages (alc (km k3))" using e(3) by simp
  obtain m3 m4 m5 M5 where r: "unmap_user 3 (pgtable ?p) (km k3) = Inr m3" "parse_elf a (pgtable ?p) m3 = Inr (m4, entry (elf_header a 0))"
    "map_stack (pgtable ?p) 0x80001000 m4 = Inr (m5, 0x80005000)" "replaced l a ?p (km k3) ?M1 m5 M5"
    by (rule exec_replaces[OF P3(1) l e(1,2) n e(4,5)])
  have nb: "buf \<notin> pframes (mem (km k3)) q" if q: "proc_ok l (km k) M q" for q
    using pframes_safe[OF q] safe_old[OF _ t1, of buf] b0 proc_ok_touches(3)[OF q t3 Int_empty_left] by auto
  obtain al' where al': "deallocate (alc m5) buf = Inr al'" and fin: "\<And>m'. m' = (set_tf (trapframe ?p) (TF_regs R_sp) 0x80005000
        (set_tf (trapframe ?p) TF_epc (entry (elf_header a 0)) m5))\<lparr>alc := al'\<rparr> \<Longrightarrow>
       proc_ok l m' (M5(buf := None)) ?p \<and> upages (mem m') (pgtable ?p) = upages (mem m5) (pgtable ?p) \<and>
       uframes (mem m') (pgtable ?p) = uframes (mem m5) (pgtable ?p) \<and>
       get_tf (trapframe ?p) TF_epc m' = entry (elf_header a 0) \<and> get_tf (trapframe ?p) (TF_regs R_sp) m' = 0x80005000"
    by (rule exec_finishes[OF r(4) P3(1) _ nb[OF p(2)], of "pages_for 131072" "0x80005000" "entry (elf_header a 0)"]) (simp, blast)
  define m' where "m' = (set_tf (trapframe ?p) (TF_regs R_sp) 0x80005000 (set_tf (trapframe ?p) TF_epc (entry (elf_header a 0)) m5))\<lparr>alc := al'\<rparr>"
  note F = fin[OF m'_def]
  have base: "base_addr (alc m') = base_addr (alc m5)" using al' by (auto simp: m'_def deallocate_def rbind_eq_Inr)
  have ch: "mem m' x = mem m5 x" if "x \<noteq> trapframe ?p" for x using that by (simp add: m'_def set_tf_def)
  have run: "exec (kdisk A D ha) beyond fpath k = Inr (k3\<lparr>km := m'\<rparr>)"
    using rd(1,2) r(1-3) al al' p(1)
    by (simp add: exec_def my_proc_def os_alloc_def os_dealloc_def Let_def m'_def a exec_bytes_def rbind_simps set_tf_def EXEC_BUF_def)
  have up: "upages (mem m') (pgtable ?p) = fold (stack_page 0x80001000) [0..<4] (fold (seg_page a) (concat (map seg_pages (headers a))) Map.empty)"
    using F r(4) by (simp add: replaced_def)
  have oth: "proc_ok l m' (M5(buf := None)) q \<and> upages (mem m') (pgtable q) = upages (mem (km k)) (pgtable q) \<and>
       mem m' (trapframe q) = mem (km k) (trapframe q) \<and> pframes (mem m') q \<inter> pframes (mem m') ?p = {}"
    if q: "proc_ok l (km k) M q" "pframes (mem (km k)) q \<inter> pframes (mem (km k)) ?p = {}" for q
  proof -
    note Q3 = proc_ok_touches[OF q(1) t3 Int_empty_left]
    have d: "pframes (mem (km k3)) q \<inter> pframes (mem (km k3)) ?p = {}" using q(2) Q3(3) P3(3) by simp
    have bb: "?M1 buf = Some (pages_for 131072)" by simp
    show ?thesis using exec_others[OF r(4) P3(1) bb nb[OF q(1)] Q3(1) d, of m'] F base ch Q3(2,4) by simp
  qed
  show thesis by (rule that[OF run]) (use F up oth same in auto)
qed

section \<open>Properties of exec\<close>


subsection \<open>A concrete run\<close>

definition example_program :: "u8 list" where
  "example_program = example_elf_bytes @ replicate 896 0"

lemma example_program_length: "length example_elf_bytes = 128" "length example_program = 1024"
proof -
  show "length example_elf_bytes = 128" by code_simp
  then show "length example_program = 1024" by (simp add: example_program_def)
qed

lemma example_program_bytes: "exec_bytes example_program (\<lambda>_. 0) = example_elf"
proof
  fix i :: usize
  have q: "length example_program div 1024 = 1" "length example_program = 1024" by (simp_all add: example_program_length)
  have lt: "i < 128 \<longleftrightarrow> unat i < 128" by (simp add: word_less_nat_alt)
  show "exec_bytes example_program (\<lambda>_. 0) i = example_elf i"
  proof (cases "unat i < 128")
    case True
    then show ?thesis
      by (simp add: exec_bytes_def q example_elf_def lt buffer_bytes_def nth_append Let_def) (simp add: example_program_def nth_append example_program_length)
  next
    case False
    then show ?thesis
      by (simp add: exec_bytes_def q example_elf_def lt buffer_bytes_def nth_append Let_def) (simp add: example_program_def nth_append example_program_length)
  qed
qed

lemma example_program_fs:
  "fs_files_ok [(ascii ''bin/hi'', example_program)]" "fsname (fst ([(ascii ''bin/hi'', example_program)] ! 0)) = Some (ascii ''/hi'')"
  "\<exists>D. mkfs [(ascii ''bin/hi'', example_program)] = Some D"
proof -
  show n: "fsname (fst ([(ascii ''bin/hi'', example_program)] ! 0)) = Some (ascii ''/hi'')"
    by (simp add: fsname_def ascii_def of_char_def)
  have "example_program \<noteq> []" using example_program_length(2) by auto
  then show ok: "fs_files_ok [(ascii ''bin/hi'', example_program)]"
    using n by (simp add: fs_files_ok_def FILE_MAX_def example_program_length) (simp add: ascii_def of_char_def)
  show "\<exists>D. mkfs [(ascii ''bin/hi'', example_program)] = Some D" using mkfs_ok[OF ok] by blast
qed

text \<open>A block that was given back can be had again.\<close>

lemma allocate_again:
  assumes o: "owns A M" "M x = Some n" and d: "deallocate A x = Inr A'" and sz: "pages_for sz = n" "unat sz + 4095 < 2 ^ 64"
  shows "\<exists>al y. allocate A' sz = Inr (al, y)"
proof -
  obtain B where B: "alloc_rel A B" "M = block_map A B" using o(1) by (auto simp: owns_def)
  obtain i where i: "B i = Some n" "x = page_addr A i" using o(2) B by (auto simp: block_map_Some)
  have rel: "alloc_rel A' (B(i := None))" using deallocate_block[OF B(1) i(1)] d i(2) by auto
  have "\<not> covered (B(i := None)) k" if "i \<le> k" "k < i + n" for k
  proof
    assume "covered (B(i := None)) k"
    then obtain s j where s: "s \<noteq> i" "B s = Some j" "s \<le> k" "k < s + j" by (auto simp: covered_def split: if_splits)
    then show False
      using alloc_rel_sep[OF B(1) s(2) i(1)] alloc_rel_sep[OF B(1) i(1) s(2)] that by (cases "s < i") auto
  qed
  then have r: "room (B(i := None)) (pages_for sz) i" using alloc_relD(2)[OF B(1) i(1)] sz(1) by (simp add: room_def)
  define j where "j = (LEAST j. room (B(i := None)) (pages_for sz) j)"
  have j: "room (B(i := None)) (pages_for sz) j" "\<forall>h<j. \<not> room (B(i := None)) (pages_for sz) h"
    using LeastI[of "room (B(i := None)) (pages_for sz)", OF r] not_less_Least by (auto simp: j_def)
  have "0 < pages_for sz" using sz(1) alloc_relD(1)[OF B(1) i(1)] by simp
  then show ?thesis using allocate_fit[OF rel sz(2) refl _ j] by blast
qed

text \<open>A process in a memory in which the buffer fits: the buffer's block is taken first and given back at the end.\<close>

lemma exec_example:
  obtains m M p al buf where "proc_ok example_linker m M p" "allocate (alc m) 131072 = Inr (al, buf)" "1000 \<le> free_pages al"
    "upages (mem m) (pgtable p) = [vpath 0x1000 \<mapsto> (attr EA_URX OR attr EA_V, page_of_sevens)]"
proof -
  have pf: "pages_for 131072 = 32" by (simp add: pages_for_def)
  obtain A1 where A1: "allocate (alc mem0) 131072 = Inr (A1, 0x80100000)" "alloc_rel A1 [0 \<mapsto> 32]"
    using allocate_new_example[of 131072] by (auto simp: mem0_def pf MAX_PAGE_num)
  let ?m1 = "mem0\<lparr>alc := A1\<rparr>" and ?r = "0x80000000 :: usize" and ?b = "0x80100000 :: usize"
  have t1: "touches {} mem0 Map.empty ?m1 [?b \<mapsto> 32]"
    using alloc_touches(1)[OF uspace_owns[OF uspace_mem0(1)] A1(1)] by (simp add: pf)
  note U1 = uspace_touches[OF uspace_mem0(1) t1 Int_empty_left]
  have b1: "?b \<notin> uframes (mem ?m1) ?r" using new_not_frame[OF uspace_mem0(1) t1, of ?b] U1(4) by simp
  have n1: "free_pages (alc ?m1) = 32736"
    using owns_count_upd[OF uspace_owns[OF uspace_mem0(1)], of A1 ?b 32] uspace_owns[OF U1(1)] by (simp add: free_mem0 MAX_PAGE_num)
  have "room [0 \<mapsto> 32] 1024 32" by (auto simp: room_def covered_def MAX_PAGE_num split: if_splits)
  moreover have "\<not> room [0 \<mapsto> 32] 1024 j" if "j < 32" for j
    using that by (auto simp: room_def covered_def intro!: exI[of _ j])
  ultimately have "\<exists>ks al. allocate A1 0x400000 = Inr (al, ks)"
    using allocate_fit[OF A1(2), of "0x400000" 1024 32] by (auto simp: pages_for_stack)
  then obtain al ks where ks: "allocate (alc ?m1) 0x400000 = Inr (al, ks)" by auto
  obtain m M p where p: "proc_ok example_linker m M p" "files p = replicate 256 None" "pid p = 0"
    "upages (mem m) (pgtable p) = [vpath 0x1000 \<mapsto> (attr EA_URX OR attr EA_V, page_of_sevens)]"
    "[?b \<mapsto> 32] \<subseteq>\<^sub>m M" "pframes (mem m) p \<subseteq> uframes (mem ?m1) ?r \<union> (dom M - dom [?b \<mapsto> 32])"
    "free_pages (alc ?m1) \<le> free_pages (alc m) + 1100"
    by (rule example_process_at[OF U1(1) _ ks]) (use U1(5) uspace_mem0(2) n1 in simp_all)
  have Mb: "M ?b = Some 32" using map_le_Some[OF p(5), of ?b 32] by simp
  have nb: "?b \<notin> pframes (mem m) p" using p(6) b1 by auto
  note o = uspace_owns[OF proc_okD(1)[OF p(1)]]
  obtain A2 where A2: "deallocate (alc m) ?b = Inr A2" "owns A2 (M(?b := None))" using fs.dealloc_old[OF o Mb] by blast
  then have base: "base_addr A2 = base_addr (alc m)" by (auto simp: deallocate_def rbind_eq_Inr)
  have mono: "free_pages (alc m) \<le> free_pages A2" by (rule free_pages_mono[OF o A2(2)]) (auto simp: map_le_def)
  let ?m2 = "m\<lparr>alc := A2\<rparr>"
  have MM: "(M(?b := None)) x = Some j" if "x \<in> pframes (mem m) p" "M x = Some j" for x j using that nb by auto
  note C = proc_ok_cong[OF p(1), of ?m2 "M(?b := None)", OF _ _ MM]
  obtain al' y where al': "allocate A2 131072 = Inr (al', y)" using allocate_again[OF o Mb A2(1) pf] by auto
  have "owns al' ((M(?b := None))(y \<mapsto> 32))" "(M(?b := None)) y = None" using alloc_touches[of ?m2 "M(?b := None)" 131072 al' y] A2(2) al' by (simp_all add: touches_def pf)
  then have "free_pages A2 = free_pages al' + 32" using owns_count_upd[OF A2(2)] by blast
  then have "1000 \<le> free_pages al'" using mono p(7) n1 by simp
  moreover have "proc_ok example_linker ?m2 (M(?b := None)) p" by (rule C(1)) (use A2(2) base in simp_all)
  ultimately show thesis using that[of ?m2 "M(?b := None)" p al' y] al' p(4) by simp
qed


section \<open>The first process\<close>

lemma uspace_new:
  assumes o: "owns (alc m) M" "0 < unat (base_addr (alc m))" and z: "mem m r = Table_new" "M r = Some 1"
  shows "uspace r m M" "upages (mem m) r = Map.empty" "uframes (mem m) r = {r}"
proof -
  note tb = tb_Table_new[of "mem m" r, OF z(1)]
  have "aspace r m M" using o z by (auto simp: aspace_def root_ok_def tree_ok_def levels_ok_def tb Table_new_def is_bit split: if_splits)
  moreover have l: "lookup (mem m) r p = None" for p by (auto simp: lookup_def tb z Table_new_def is_bit split: option.split)
  ultimately show "uspace r m M" "upages (mem m) r = Map.empty" by (auto simp: uspace_def upages_def)
  show "uframes (mem m) r = {r}" by (auto simp: uframes_def l tables_def tb intro: exI[of _ "[]"])
qed

lemma Process_new_ok:
  assumes o: "owns (alc m) M" "0 < unat (base_addr (alc m))" and l: "page_aligned (TRAMPOLINE_TEXT_START l)" and pd: "0 \<le> sint pd"
  shows "case Process_new F l pd m of Inl e \<Rightarrow> e \<in> alloc_panics
    | Inr (m', p) \<Rightarrow> \<exists>M'. proc_ok l m' M' p \<and> touches {} m M m' M' \<and> pframes (mem m') p \<subseteq> dom M' - dom M \<and>
        upages (mem m') (pgtable p) = Map.empty \<and> mem m' (trapframe p) = TrapFrame_zero \<and> mem m' (p_context p) 0 = forkret_fn F \<and>
        pid p = pd \<and> state p = UNUSED \<and> files p = replicate 256 None \<and> drop_on_put_back p = False"
proof (cases "box_frame Table_new m")
  case (Inl e)
  then show ?thesis using box_frame_panics[OF o(1)] by (simp add: Process_new_def)
next
  case I1: (Inr w)
  obtain m1 pt where b1: "box_frame Table_new m = Inr (m1, pt)" using I1 by (cases w) simp
  note B1 = box_frame_ok[OF o(1) b1]
  show ?thesis
  proof (cases "box_frame TrapFrame_zero m1")
    case (Inl e)
    then show ?thesis using box_frame_panics[OF B1(2)] b1 by (simp add: Process_new_def)
  next
    case I2: (Inr w)
    obtain m2 tf where b2: "box_frame TrapFrame_zero m1 = Inr (m2, tf)" using I2 by (cases w) simp
    note B2 = box_frame_ok[OF B1(2) b2]
    let ?M2 = "M(pt \<mapsto> 1, tf \<mapsto> 1)"
    have ne: "tf \<noteq> pt" using B2(1) by auto
    have "mem m2 pt = Table_new" "?M2 pt = Some 1" using B1(5) B2(5) ne by simp_all
    note U = uspace_new[OF B2(2) _ this]
    have base: "0 < unat (base_addr (alc m2))" using o(2) B1(6) B2(6) by simp
    have t: "touches {} m M m2 ?M2"
      by (rule touches_trans[OF grows_touches[OF grows_box[OF o(1) b1]] grows_touches[OF grows_box[OF B1(2) b2]]]) simp
    have tf2: "?M2 tf = Some 1" "tf \<notin> uframes (mem m2) pt" using U(3)[OF base] ne by simp_all
    show ?thesis
    proof (cases "from_exist F l pd pt tf m2")
      case (Inl e)
      then show ?thesis using from_exist_panics[OF U(1)[OF base] tf2(1) l pd Inl] b1 b2 by (simp add: Process_new_def)
    next
      case I3: (Inr w)
      obtain m' p where r: "from_exist F l pd pt tf m2 = Inr (m', p)" using I3 by (cases w) simp
      obtain M' where E: "proc_ok l m' M' p" "touches (uframes (mem m2) pt) m2 ?M2 m' M'"
        "upages (mem m') pt = (upages (mem m2) pt)(vpath TRAMPOLINE_START := None, vpath TRAPFRAME_START := None)"
        "mem m' tf = mem m2 tf" "uframes (mem m') pt \<subseteq> uframes (mem m2) pt \<union> (dom M' - dom ?M2)"
        "p_context p \<in> dom M' - dom ?M2" "kstack p \<in> dom M' - dom ?M2"
        "mem m' (p_context p) 0 = forkret_fn F" "mem m' (p_context p) 1 = kstack p + PAGE_SIZE"
        "pgtable p = pt" "trapframe p = tf" "pid p = pd" "files p = replicate 256 None" "state p = UNUSED" "drop_on_put_back p = False"
        by (rule from_exist_ok[OF U(1)[OF base] tf2 l r])
      have new: "{pt, tf} \<subseteq> dom ?M2 - dom M" using B1(1) B2(1) by (auto split: if_splits)
      have dM: "dom M \<subseteq> dom ?M2" "dom ?M2 \<subseteq> dom M'" using touchesD(6)[OF t] touchesD(6)[OF E(2)] by blast+
      have T: "touches {} m M m' M'" by (rule touches_trans[OF t E(2)]) (use new U(3)[OF base] in simp)
      have n: "dom M' - dom ?M2 \<subseteq> dom M' - dom M" by (rule Diff_mono[OF subset_refl dM(1)])
      have q: "{pt, tf} \<subseteq> dom M' - dom M" by (rule order.trans[OF new Diff_mono[OF dM(2) subset_refl]])
      have "uframes (mem m') pt \<subseteq> dom M' - dom M" using order.trans[OF E(5) Un_least[OF _ n]] q unfolding U(3)[OF base] by simp
      moreover have "{tf, p_context p, kstack p} \<subseteq> dom M' - dom M" using q subsetD[OF n E(6)] subsetD[OF n E(7)] by simp
      ultimately have "pframes (mem m') p \<subseteq> dom M' - dom M" unfolding pframes_def E(10,11) by (rule Un_least)
      then have "proc_ok l m' M' p \<and> touches {} m M m' M' \<and> pframes (mem m') p \<subseteq> dom M' - dom M \<and>
        upages (mem m') (pgtable p) = Map.empty \<and> mem m' (trapframe p) = TrapFrame_zero \<and> mem m' (p_context p) 0 = forkret_fn F \<and>
        pid p = pd \<and> state p = UNUSED \<and> files p = replicate 256 None \<and> drop_on_put_back p = False"
        using E T U(2)[OF base] B2(5) by simp
      then show ?thesis using r b1 b2 by (auto simp: Process_new_def)
    qed
  qed
qed

lemma box_then_write:
  "rbind (box_frame (\<lambda>_. 0) m) (\<lambda>(m', pg). G (m'\<lparr>mem := (mem m')(pg := h (mem m' pg))\<rparr>) pg) = rbind (box_frame (h (\<lambda>_. 0)) m) (\<lambda>(m', pg). G m' pg)"
  by (cases "os_alloc (alc m) \<lparr>layout_size = PAGE_SIZE, layout_align = PAGE_SIZE\<rparr>") (auto simp: box_frame_def)

text \<open>The memory of the first process: its code at address zero and a stack.\<close>

definition init_pages :: "u8 list \<Rightarrow> nat list \<rightharpoonup> usize \<times> (nat \<Rightarrow> usize)" where
  "init_pages code = fold (stack_page 0x80001000) [0..<4] [vpath 0 \<mapsto> (attr EA_URX OR attr EA_V, put_bytes 0 code (\<lambda>_. 0))]"

lemma init_memory:
  assumes p: "proc_ok l m M p" "upages (mem m) (pgtable p) = Map.empty" and c: "length code \<le> 4096"
  shows "case rbind (rbind (box_frame (put_bytes 0 code (\<lambda>_. 0)) m) (\<lambda>(m, pg). Table_map (pgtable p) 0 pg (attr EA_URX) m))
      (map_stack (pgtable p) 0x80001000) of Inl e \<Rightarrow> e \<in> alloc_panics
    | Inr (m', sp) \<Rightarrow> sp = 0x80005000 \<and> (\<exists>M'. proc_ok l m' M' p \<and> evolves (pgtable p) m M m' M' \<and> upages (mem m') (pgtable p) = init_pages code)"
proof -
  let ?r = "pgtable p" and ?c = "put_bytes 0 code (\<lambda>_. 0)"
  note P = proc_okD[OF p(1)]
  have z: "page_aligned 0" "page_aligned 0x80001000" by (simp_all add: page_aligned_def consts_simps)
  note N = new_upage[OF P(1) z(1) URX_user, of ?c]
  show ?thesis
  proof (cases "rbind (box_frame ?c m) (\<lambda>(m, pg). Table_map ?r 0 pg (attr EA_URX) m)")
    case (Inl e)
    then show ?thesis using N by simp
  next
    case (Inr m1)
    then obtain M1 where M1: "evolves ?r m M m1 M1" "upages (mem m1) ?r = [vpath 0 \<mapsto> (attr EA_URX OR attr EA_V, ?c)]" "maps_only ?r {vpath 0} m m1"
      using N p(2) by auto
    have u1: "uspace ?r m1 M1" using M1(1) by (simp add: evolves_def)
    note S = map_stack_ok[OF u1 z(2)]
    show ?thesis
    proof (cases "map_stack ?r 0x80001000 m1")
      case (Inl e)
      then show ?thesis using S Inr by simp
    next
      case I: (Inr y)
      then obtain m2 M2 where m2: "map_stack ?r 0x80001000 m1 = Inr (m2, 0x80005000)" "evolves ?r m1 M1 m2 M2"
        "upages (mem m2) ?r = init_pages code" "maps_only ?r ((\<lambda>i. vpath (0x80001000 + of_nat i * 4096)) ` {..<4}) m1 m2"
        using S M1(2) by (cases y) (auto simp: init_pages_def)
      note ev = evolves_trans[OF M1(1) m2(2)]
      have v0: "vpath 0 = [0, 0, 0]" by code_simp
      have lk: "lookup (mem m2) ?r (vpath TRAMPOLINE_START) = lookup (mem m) ?r (vpath TRAMPOLINE_START)"
        "lookup (mem m2) ?r (vpath TRAPFRAME_START) = lookup (mem m) ?r (vpath TRAPFRAME_START)"
        using M1(3) m2(4) stack_paths by (simp_all add: maps_only_def v0 vpath_TRAMP)
      have "proc_ok l m2 M2 p"
        using p(1) ev lk evolves_out[OF ev P(2,5)] evolves_out[OF ev P(3,6)] evolves_out[OF ev P(4,7)]
        by (simp add: proc_ok_def evolves_def)
      then show ?thesis unfolding Inr rbind_simps m2(1) sum.case prod.case using ev m2(3) by blast
    qed
  qed
qed

lemma init_put_back:
  assumes p: "proc_ok l m M p" and k: "length ps = NMAXPROCS" "\<forall>b. ps ! 0 \<noteq> Pooling b" "pid p = 0" "drop_on_put_back p = False"
  shows "case rbind (box_frame Context_zero (set_tf (trapframe p) (TF_regs R_sp) sp (set_tf (trapframe p) TF_epc 0 m))) (\<lambda>(m, b).
      rbind (put_back_proc \<lparr>box_addr = b, unbox = p\<lparr>state := RUNNABLE\<rparr>\<rparr> ps) (\<lambda>ps. Inr (m, ps))) of Inl e \<Rightarrow> e \<in> alloc_panics
    | Inr (m', ps') \<Rightarrow> \<exists>b M'. ps' = ps[0 := Pooling \<lparr>box_addr = b, unbox = p\<lparr>state := RUNNABLE\<rparr>\<rparr>] \<and> proc_ok l m' M' (p\<lparr>state := RUNNABLE\<rparr>) \<and>
        upages (mem m') (pgtable p) = upages (mem m) (pgtable p) \<and> get_tf (trapframe p) TF_epc m' = 0 \<and> get_tf (trapframe p) (TF_regs R_sp) m' = sp \<and>
        mem m' (p_context p) = mem m (p_context p) \<and> touches {trapframe p} m M m' M'"
proof -
  let ?m1 = "set_tf (trapframe p) (TF_regs R_sp) sp (set_tf (trapframe p) TF_epc 0 m)"
  note P = proc_okD[OF p]
  have o1: "owns (alc ?m1) M" using uspace_owns[OF P(1)] by (simp add: set_tf_def)
  have t1: "touches {trapframe p} m M ?m1 M" using o1 by (auto simp: touches_def set_tf_def)
  show ?thesis
  proof (cases "box_frame Context_zero ?m1")
    case (Inl e)
    then show ?thesis using box_frame_panics[OF o1] by simp
  next
    case (Inr y)
    obtain m2 b where b: "box_frame Context_zero ?m1 = Inr (m2, b)" using Inr by (cases y) simp
    note B = box_frame_ok[OF o1 b]
    have t: "touches {trapframe p} m M m2 (M(b \<mapsto> 1))" by (rule touches_trans[OF t1 grows_touches[OF grows_box[OF o1 b]]]) simp
    have d: "{trapframe p} \<inter> uframes (mem m) (pgtable p) = {}" using P(5) by simp
    note Q = proc_ok_touches[OF p t d]
    have ne: "b \<noteq> trapframe p" "b \<noteq> p_context p" using B(1) P(2,3) by auto
    have same: "p\<lparr>state := RUNNABLE, drop_on_put_back := False\<rparr> = p\<lparr>state := RUNNABLE\<rparr>" using k(4) by (cases p) simp
    have "put_back_proc \<lparr>box_addr = b, unbox = p\<lparr>state := RUNNABLE\<rparr>\<rparr> ps = Inr (ps[0 := Pooling \<lparr>box_addr = b, unbox = p\<lparr>state := RUNNABLE\<rparr>\<rparr>])"
      using k by (cases "ps ! 0") (simp_all add: put_back_proc_def arr_get_def arr_set_def rif_def pid_index_def consts_simps same)
    moreover have "proc_ok l m2 (M(b \<mapsto> 1)) (p\<lparr>state := RUNNABLE\<rparr>)" using Q(1) by (simp add: proc_ok_def)
    moreover have "get_tf (trapframe p) TF_epc m2 = 0" "get_tf (trapframe p) (TF_regs R_sp) m2 = sp" "mem m2 (p_context p) = mem m (p_context p)"
      using ne P(9) by (simp_all add: B(5) get_tf_def set_tf_def)
    ultimately show ?thesis using b Q(2) t by auto
  qed
qed

text \<open>C38:
  The first process, made at boot from the code of \<open>initcode\<close>: \<open>init_proc\<close> puts it into slot 0 of the pool, runnable, with pid 0 and no
  open file. Its memory is its code at address zero and four zeroed pages of stack;
  it will start at address zero with the stack pointer at the end of the stack, after \<open>forkret\<close> has
  returned to user mode. It is well formed, and no block that was in use has
  been touched. Otherwise \<open>init_proc\<close> panics, and only because no memory is left.
\<close>

theorem init_proc_first:
  assumes "owns (alc (km k)) M" "0 < unat (base_addr (alc (km k)))" "page_aligned (TRAMPOLINE_TEXT_START l)" "length code \<le> 4096"
    and "length (pool k) = NMAXPROCS" "\<forall>b. pool k ! 0 \<noteq> Pooling b"
  shows "case init_proc F l code k of Inl e \<Rightarrow> e \<in> alloc_panics
    | Inr k' \<Rightarrow> \<exists>b M'. pool k' = (pool k)[0 := Pooling b] \<and> cur k' = cur k \<and> arcs k' = arcs k \<and> proc_ok l (km k') M' (unbox b) \<and> touches {} (km k) M (km k') M' \<and>
        pid (unbox b) = 0 \<and> state (unbox b) = RUNNABLE \<and> files (unbox b) = replicate 256 None \<and>
        upages (mem (km k')) (pgtable (unbox b)) = init_pages code \<and>
        get_tf (trapframe (unbox b)) TF_epc (km k') = 0 \<and> get_tf (trapframe (unbox b)) (TF_regs R_sp) (km k') = 0x80005000 \<and>
        mem (km k') (p_context (unbox b)) (ContextRegisters_idx CR_ra) = forkret_fn F"
proof (cases "Process_new F l 0 (km k)")
  case (Inl e)
  then show ?thesis using Process_new_ok[OF assms(1-3), of 0 F] by (simp add: init_proc_def)
next
  case I1: (Inr w)
  obtain m1 p where p: "Process_new F l 0 (km k) = Inr (m1, p)" using I1 by (cases w) simp
  then obtain M1 where P: "proc_ok l m1 M1 p" "touches {} (km k) M m1 M1" "pframes (mem m1) p \<subseteq> dom M1 - dom M"
      "upages (mem m1) (pgtable p) = Map.empty" "mem m1 (p_context p) 0 = forkret_fn F"
      "pid p = 0" "files p = replicate 256 None" "drop_on_put_back p = False"
    using Process_new_ok[OF assms(1-3), of 0 F] by auto
  note W = init_memory[OF P(1,4) assms(4)]
  let ?W = "rbind (rbind (box_frame (put_bytes 0 code (\<lambda>_. 0)) m1) (\<lambda>(m, pg). Table_map (pgtable p) 0 pg (attr EA_URX) m)) (map_stack (pgtable p) 0x80001000)"
  have run: "init_proc F l code k = rbind ?W (\<lambda>(m, sp).
      rbind (rbind (box_frame Context_zero (set_tf (trapframe p) (TF_regs R_sp) sp (set_tf (trapframe p) TF_epc 0 m))) (\<lambda>(m, b).
      rbind (put_back_proc \<lparr>box_addr = b, unbox = p\<lparr>state := RUNNABLE\<rparr>\<rparr> (pool k)) (\<lambda>ps. Inr (m, ps)))) (\<lambda>(m, ps). Inr (k\<lparr>km := m, pool := ps\<rparr>)))"
    using assms(4) box_then_write[of m1 "\<lambda>m pg. rbind (Table_map (pgtable p) 0 pg (attr EA_URX) m) (\<lambda>m. rbind (map_stack (pgtable p) 0x80001000 m) (\<lambda>(m, sp).
      rbind (box_frame Context_zero (set_tf (trapframe p) (TF_regs R_sp) sp (set_tf (trapframe p) TF_epc 0 m))) (\<lambda>(m, b).
      rbind (put_back_proc \<lparr>box_addr = b, unbox = p\<lparr>state := RUNNABLE\<rparr>\<rparr> (pool k)) (\<lambda>ps. Inr (k\<lparr>km := m, pool := ps\<rparr>)))))" "put_bytes 0 code"]
    unfolding init_proc_def p rbind_simps prod.case Page_new_def Let_def
    by (simp add: consts_simps rif_def rbind_assoc split_def)
  show ?thesis
  proof (cases ?W)
    case (Inl e)
    then show ?thesis using W run by simp
  next
    case I2: (Inr y)
    then obtain m2 M2 where m2: "?W = Inr (m2, 0x80005000)" "proc_ok l m2 M2 p" "evolves (pgtable p) m1 M1 m2 M2" "upages (mem m2) (pgtable p) = init_pages code"
      using W by (cases y) auto
    note B = init_put_back[OF m2(2) assms(5,6) P(6,8), of "0x80005000"]
    have t2: "touches {} (km k) M m2 M2"
      by (rule touches_trans[OF P(2)]) (use m2(3) P(3) in \<open>auto simp: evolves_def pframes_def\<close>)
    note D1 = proc_okD[OF P(1)]
    show ?thesis
    proof (cases "rbind (box_frame Context_zero (set_tf (trapframe p) (TF_regs R_sp) 0x80005000 (set_tf (trapframe p) TF_epc 0 m2))) (\<lambda>(m, b).
      rbind (put_back_proc \<lparr>box_addr = b, unbox = p\<lparr>state := RUNNABLE\<rparr>\<rparr> (pool k)) (\<lambda>ps. Inr (m, ps)))")
      case (Inl e)
      then show ?thesis using B run m2(1) by simp
    next
      case I3: (Inr y)
      then obtain m3 b M3 where m3: "y = (m3, (pool k)[0 := Pooling \<lparr>box_addr = b, unbox = p\<lparr>state := RUNNABLE\<rparr>\<rparr>])"
          "proc_ok l m3 M3 (p\<lparr>state := RUNNABLE\<rparr>)" "upages (mem m3) (pgtable p) = upages (mem m2) (pgtable p)"
          "get_tf (trapframe p) TF_epc m3 = 0" "get_tf (trapframe p) (TF_regs R_sp) m3 = 0x80005000" "mem m3 (p_context p) = mem m2 (p_context p)"
          "touches {trapframe p} m2 M2 m3 M3"
        using B by (cases y) auto
      have "trapframe p \<in> dom M2 - dom M" using proc_okD(2)[OF m2(2)] P(3) by (auto simp: pframes_def)
      then have "touches {} (km k) M m3 M3" by (intro touches_trans[OF t2 m3(7)]) simp
      moreover have "mem m3 (p_context p) 0 = forkret_fn F" using m3(6) evolves_out(3)[OF m2(3) D1(3,6)] P(5) by simp
      ultimately show ?thesis
        unfolding run m2(1) rbind_simps prod.case I3 m3(1) sum.case using m3(2-5) m2(4) P(6,7)
        by (intro exI[of _ "\<lparr>box_addr = b, unbox = p\<lparr>state := RUNNABLE\<rparr>\<rparr>"] exI[of _ M3]) simp
    qed
  qed
qed

theorem init_proc_first_witness:
  "case init_proc example_funs example_linker [0x13, 0, 0, 0] \<lparr>km = mem0, vs = disk_init, dev = (), arcs = Map.empty, pool = replicate 256 NoProc, cur = None\<rparr> of
      Inl e \<Rightarrow> e \<in> alloc_panics
    | Inr k' \<Rightarrow> \<exists>b. pool k' ! 0 = Pooling b \<and> state (unbox b) = RUNNABLE \<and> get_tf (trapframe (unbox b)) TF_epc (km k') = 0 \<and>
        upages (mem (km k')) (pgtable (unbox b)) (vpath 0) = Some (attr EA_URX OR attr EA_V, put_bytes 0 [0x13, 0, 0, 0] (\<lambda>_. 0))"
proof -
  let ?k = "\<lparr>km = mem0, vs = disk_init, dev = (), arcs = Map.empty, pool = replicate 256 NoProc, cur = None\<rparr> :: unit kernel"
  have "owns (alc (km ?k)) Map.empty" "0 < unat (base_addr (alc (km ?k)))" "length (pool ?k) = NMAXPROCS" "\<forall>b. pool ?k ! 0 \<noteq> Pooling b"
    using uspace_owns[OF uspace_mem0(1)] by (simp_all add: mem0_def consts_simps)
  note I = init_proc_first[OF this(1,2) example_linker_aligned _ this(3,4), of "[0x13, 0, 0, 0]" example_funs]
  have d: "vpath 0 = [0, 0, 0]" "vpath 0x80001000 = [2, 0, 1]" "vpath 0x80002000 = [2, 0, 2]" "vpath 0x80003000 = [2, 0, 3]" "vpath 0x80004000 = [2, 0, 4]"
    by code_simp+
  have "[0..<4] = [0, 1, 2, 3]" by (simp add: upt_rec)
  then have "init_pages [0x13, 0, 0, 0] (vpath 0) = Some (attr EA_URX OR attr EA_V, put_bytes 0 [0x13, 0, 0, 0] (\<lambda>_. 0))"
    by (simp add: init_pages_def stack_page_def d del: put_bytes.simps)
  then show ?thesis using I by (auto split: sum.splits simp del: put_bytes.simps)
qed

end
