(* ===== verification/Spec2Isabelle.thy ===== *)
theory Spec2Isabelle
  imports Heap Asm Schedule Exec
begin

text \<open>
  Verification of the kernel.
\<close>

end
